(* ===== verification/Foxtails_Prelude.thy ===== *)
theory Foxtails_Prelude
  imports Main "HOL-Library.Word" "HOL-Library.Sublist"
begin

text \<open>
  Shared vocabulary of the Foxtails development: bytes and C strings as \<^typ>\<open>string\<close>, the faults
  a C function can end with, results as sums, and the list lemmas that every component uses.
  The collections declared here are filled by the component theories.
\<close>

section \<open>Collections\<close>

named_theorems scan_simps \<open>searches in byte buffers (memchr, memmem, strtok)\<close>
named_theorems hdr_simps \<open>header tables of HTTP messages\<close>
named_theorems ring_simps \<open>the worker ring buffer\<close>
named_theorems pool_simps \<open>the arena allocator\<close>
named_theorems slot_simps \<open>the client slot table\<close>

section \<open>Characters\<close>

abbreviation NUL :: char where "NUL \<equiv> CHR 0x00"
abbreviation LF :: char where "LF \<equiv> CHR 0x0A"
abbreviation CR :: char where "CR \<equiv> CHR 0x0D"
abbreviation SP :: char where "SP \<equiv> CHR 0x20"
abbreviation TAB :: char where "TAB \<equiv> CHR 0x09"
abbreviation VT :: char where "VT \<equiv> CHR 0x0B"
abbreviation FF :: char where "FF \<equiv> CHR 0x0C"

section \<open>Results\<close>

text \<open>
  A C function either returns or ends the process. \<open>Assert_fail\<close> is a failed \<open>assert\<close>,
  \<open>Exit_fail\<close> an \<open>exit(1)\<close>, \<open>Undefined\<close> a step for which the C standard gives no meaning
  (an access outside an object, a null pointer passed to \<open>%s\<close>, a second \<open>free\<close>).
\<close>

datatype fault = Assert_fail | Exit_fail | Undefined

type_synonym 'a res = "fault + 'a"

fun bind_res :: "'a res \<Rightarrow> ('a \<Rightarrow> 'b res) \<Rightarrow> 'b res" where
  "bind_res (Inl e) f = Inl e"
| "bind_res (Inr x) f = f x"

lemma bind_res_Inr: "bind_res r f = Inr y \<longleftrightarrow> (\<exists>x. r = Inr x \<and> f x = Inr y)"
  by (cases r) auto

section \<open>Lists\<close>

lemma takeWhile_all [simp]: "\<forall>x\<in>set xs. P x \<Longrightarrow> takeWhile P xs = xs"
  by (simp add: takeWhile_eq_all_conv)

lemma takeWhile_append_stop:
  "\<forall>x\<in>set xs. P x \<Longrightarrow> \<not> P y \<Longrightarrow> takeWhile P (xs @ y # ys) = xs"
  by (simp add: takeWhile_append2)

lemma dropWhile_append_stop:
  "\<forall>x\<in>set xs. P x \<Longrightarrow> \<not> P y \<Longrightarrow> dropWhile P (xs @ y # ys) = y # ys"
  by (simp add: dropWhile_append2)

lemma dropWhile_hd: "xs = [] \<or> \<not> P (hd xs) \<Longrightarrow> dropWhile P xs = xs"
  by (cases xs) auto

lemma dropWhile_nonempty_hd: "dropWhile P xs = y # ys \<Longrightarrow> \<not> P y"
  by (metis hd_dropWhile list.distinct(1) list.sel(1))

lemma drop_length_takeWhile: "drop (length (takeWhile P xs)) xs = dropWhile P xs"
  by (simp add: dropWhile_eq_drop)

lemma take_length_takeWhile: "take (length (takeWhile P xs)) xs = takeWhile P xs"
  by (metis takeWhile_eq_take)

lemma concat_snoc: "concat (xss @ [xs]) = concat xss @ xs"
  by simp

lemma nth_less_take: "i < n \<Longrightarrow> take n xs ! i = xs ! i"
  by simp

section \<open>Step relations\<close>

text \<open>What holds of a state and is kept by every step holds of every state that a run reaches.\<close>

locale invariant_steps =
  fixes step :: "'s \<Rightarrow> 's \<Rightarrow> bool"
    and inv :: "'s \<Rightarrow> bool"
  assumes step_keeps: "step s t \<Longrightarrow> inv s \<Longrightarrow> inv t"
begin

lemma run_keeps:
  assumes "step\<^sup>*\<^sup>* s t" and "inv s"
  shows "inv t"
  using assms by (induction rule: rtranclp_induct) (auto intro: step_keeps)

end

end
