(* ===== verification/CStr.thy ===== *)
theory CStr
  imports Foxtails_Prelude
begin

text \<open>
  The functions of the C library that the program calls on byte buffers, as executable
  definitions on \<^typ>\<open>string\<close>. A pointer with a length is the list of the bytes it bounds, a
  pointer into a buffer is an offset, and a null result is \<open>None\<close>. The locale is "C": the
  program never calls \<open>setlocale\<close>.
\<close>

section \<open>Searching\<close>

fun memchr :: "char \<Rightarrow> string \<Rightarrow> nat option" where
  "memchr c [] = None"
| "memchr c (x # xs) = (if x = c then Some 0 else map_option Suc (memchr c xs))"

fun memmem :: "string \<Rightarrow> string \<Rightarrow> nat option" where
  "memmem nd [] = (if nd = [] then Some 0 else None)"
| "memmem nd (x # xs) = (if prefix nd (x # xs) then Some 0 else map_option Suc (memmem nd xs))"

lemma memchr_None [scan_simps]: "memchr c xs = None \<longleftrightarrow> c \<notin> set xs"
  by (induction xs) auto

lemma memchr_Some:
  "memchr c xs = Some i \<longleftrightarrow> i < length xs \<and> xs ! i = c \<and> c \<notin> set (take i xs)"
proof (induction xs arbitrary: i)
  case (Cons x xs)
  then show ?case by (cases i) auto
qed simp

lemma memchr_append [scan_simps]: "c \<notin> set xs \<Longrightarrow> memchr c (xs @ c # ys) = Some (length xs)"
  by (induction xs) auto

lemma memchr_takeWhile: "c \<in> set xs \<Longrightarrow> memchr c xs = Some (length (takeWhile (\<lambda>x. x \<noteq> c) xs))"
  by (induction xs) auto

text \<open>The piece before the first \<open>c\<close> and the piece after it.\<close>

definition before :: "char \<Rightarrow> string \<Rightarrow> string" where
  "before c xs = takeWhile (\<lambda>x. x \<noteq> c) xs"

definition after :: "char \<Rightarrow> string \<Rightarrow> string" where
  "after c xs = tl (dropWhile (\<lambda>x. x \<noteq> c) xs)"

lemma split_at: "c \<in> set xs \<Longrightarrow> xs = before c xs @ c # after c xs"
  by (induction xs) (auto simp: before_def after_def)

lemma memchr_eq: "memchr c xs = (if c \<in> set xs then Some (length (before c xs)) else None)"
  by (simp add: memchr_None memchr_takeWhile before_def)

lemma before_no: "c \<notin> set (before c xs)"
  by (auto simp: before_def dest: set_takeWhileD)

lemma before_sub: "set (before c xs) \<subseteq> set xs"
  by (auto simp: before_def dest: set_takeWhileD)

lemma after_sub: "set (after c xs) \<subseteq> set xs"
  unfolding after_def by (metis list.set_sel(2) set_dropWhileD subsetI tl_Nil)

lemma memchr_SomeD:
  assumes "memchr c xs = Some i"
  shows "xs = take i xs @ c # drop (Suc i) xs" and "c \<notin> set (take i xs)" and "i < length xs"
  using assms by (auto simp: memchr_Some id_take_nth_drop)

lemma memmem_Some_prefix: "memmem nd xs = Some i \<Longrightarrow> prefix nd (drop i xs) \<and> i \<le> length xs"
  by (induction xs arbitrary: i) (auto split: if_splits)

lemma memmem_Some_bound: "memmem nd xs = Some i \<Longrightarrow> i + length nd \<le> length xs"
  using memmem_Some_prefix [of nd xs i] by (auto dest!: prefix_length_le)

lemma memmem_Some_min: "memmem nd xs = Some i \<Longrightarrow> j < i \<Longrightarrow> \<not> prefix nd (drop j xs)"
proof (induction xs arbitrary: i j)
  case (Cons x xs)
  then show ?case by (cases j) (auto split: if_splits)
qed (auto split: if_splits)

lemma memmem_None: "memmem nd xs = None \<longleftrightarrow> \<not> sublist nd xs"
  by (induction xs) (auto simp: sublist_Cons_right)

lemma memmem_SomeI:
  assumes "prefix nd (drop i xs)" and "i \<le> length xs" and "\<And>j. j < i \<Longrightarrow> \<not> prefix nd (drop j xs)"
  shows "memmem nd xs = Some i"
proof (cases "memmem nd xs")
  case None
  with assms(1) have "\<not> sublist nd (take i xs @ drop i xs)"
    by (simp add: memmem_None)
  with assms(1) show ?thesis
    by (metis prefixE sublist_appendI append.assoc)
next
  case (Some k)
  with assms show ?thesis
    by (metis linorder_neqE_nat memmem_Some_min memmem_Some_prefix)
qed

section \<open>Null-terminated strings\<close>

text \<open>\<open>cstr p\<close> is the string a \<open>char *\<close> pointing at the bytes \<open>p\<close> denotes.\<close>

definition cstr :: "string \<Rightarrow> string" where
  "cstr p = takeWhile (\<lambda>c. c \<noteq> NUL) p"

definition is_cstr :: "string \<Rightarrow> bool" where
  "is_cstr s \<longleftrightarrow> NUL \<notin> set s"

lemma cstr_id [simp]: "is_cstr s \<Longrightarrow> cstr s = s"
  by (auto simp: cstr_def is_cstr_def intro!: takeWhile_all)

lemma is_cstr_cstr [simp]: "is_cstr (cstr p)"
  by (auto simp: cstr_def is_cstr_def dest: set_takeWhileD)

lemma is_cstr_append [simp]: "is_cstr (a @ b) \<longleftrightarrow> is_cstr a \<and> is_cstr b"
  by (auto simp: is_cstr_def)

lemma is_cstr_Nil [simp]: "is_cstr []"
  by (simp add: is_cstr_def)

lemma is_cstr_Cons [simp]: "is_cstr (c # s) \<longleftrightarrow> c \<noteq> NUL \<and> is_cstr s"
  by (auto simp: is_cstr_def)

lemma cstr_append_NUL: "is_cstr s \<Longrightarrow> cstr (s @ NUL # rest) = s"
  by (auto simp: cstr_def is_cstr_def intro!: takeWhile_append_stop)

lemma cstr_length: "length (cstr p) \<le> length p"
  by (simp add: cstr_def length_takeWhile_le)

definition tolower_c :: "char \<Rightarrow> char" where
  "tolower_c c = (let n = (of_char c :: nat) in if 65 \<le> n \<and> n \<le> 90 then char_of (n + 32) else c)"

text \<open>\<open>strcasecmp(a, b) == 0\<close> on two strings without a NUL.\<close>

definition strcaseeq :: "string \<Rightarrow> string \<Rightarrow> bool" where
  "strcaseeq a b \<longleftrightarrow> map tolower_c a = map tolower_c b"

lemma strcaseeq_refl [simp]: "strcaseeq a a"
  by (simp add: strcaseeq_def)

lemma strcaseeq_sym: "strcaseeq a b \<Longrightarrow> strcaseeq b a"
  by (simp add: strcaseeq_def)

lemma strcaseeq_trans: "strcaseeq a b \<Longrightarrow> strcaseeq b c \<Longrightarrow> strcaseeq a c"
  by (simp add: strcaseeq_def)

text \<open>\<open>strncmp(a, b, n) == 0\<close> on two strings without a NUL, where \<open>a\<close> has at least \<open>n\<close> bytes.\<close>

definition strneq :: "string \<Rightarrow> string \<Rightarrow> nat \<Rightarrow> bool" where
  "strneq a b n \<longleftrightarrow> take n a = take n b"

lemma strneq_prefix: "n \<le> length a \<Longrightarrow> strneq a b n \<longleftrightarrow> prefix (take n a) b"
  by (auto simp: strneq_def prefix_def take_is_prefix)
    (metis append_take_drop_id)

section \<open>Tokens\<close>

text \<open>
  \<open>strtok_at ds s pos\<close> is one call of \<open>strtok\<close> on the string \<open>s\<close> with the saved position
  \<open>pos\<close>: the offset and the bytes of the next token and the position saved for the next call.
\<close>

definition strtok_at :: "string \<Rightarrow> string \<Rightarrow> nat \<Rightarrow> (nat \<times> string \<times> nat) option" where
  "strtok_at ds s pos =
     (let b = pos + length (takeWhile (\<lambda>c. c \<in> set ds) (drop pos s));
          tok = takeWhile (\<lambda>c. c \<notin> set ds) (drop b s)
      in if b \<ge> length s then None else Some (b, tok, b + length tok + 1))"

text \<open>The tokens that the loop \<open>for (t = strtok(s, ds); t; t = strtok(NULL, ds))\<close> visits.\<close>

function strtok_all :: "string \<Rightarrow> string \<Rightarrow> string list" where
  "strtok_all ds s =
     (case dropWhile (\<lambda>c. c \<in> set ds) s of
        [] \<Rightarrow> []
      | c # cs \<Rightarrow> (c # takeWhile (\<lambda>c. c \<notin> set ds) cs)
                    # strtok_all ds (dropWhile (\<lambda>c. c \<notin> set ds) cs))"
  by pat_completeness auto
termination
proof (relation "measure (\<lambda>(ds, s). length s)", simp, goal_cases)
  case (1 ds s c cs)
  have "length (dropWhile (\<lambda>c. c \<notin> set ds) cs) \<le> length cs"
    by (rule length_dropWhile_le)
  also have "\<dots> < length (dropWhile (\<lambda>c. c \<in> set ds) s)"
    using 1 by simp
  also have "\<dots> \<le> length s"
    by (rule length_dropWhile_le)
  finally show ?case by simp
qed

declare strtok_all.simps [simp del]

lemma strtok_all_Nil [simp]: "strtok_all ds [] = []"
  by (simp add: strtok_all.simps)

lemma strtok_all_delim [scan_simps]: "d \<in> set ds \<Longrightarrow> strtok_all ds (d # s) = strtok_all ds s"
  by (simp add: strtok_all.simps [of ds "d # s"] strtok_all.simps [of ds s])

lemma strtok_all_token:
  assumes "tok \<noteq> []" and "set tok \<inter> set ds = {}" and "rest = [] \<or> hd rest \<in> set ds"
  shows "strtok_all ds (tok @ rest) = tok # strtok_all ds rest"
proof -
  obtain c cs where tok: "tok = c # cs" using assms(1) by (cases tok) auto
  have nd: "\<forall>x\<in>set cs. x \<notin> set ds" and c: "c \<notin> set ds"
    using assms(2) tok by auto
  have tw: "takeWhile (\<lambda>c. c \<notin> set ds) (cs @ rest) = cs"
    using nd assms(3) by (cases rest) (auto simp: takeWhile_append_stop)
  have dw: "dropWhile (\<lambda>c. c \<notin> set ds) (cs @ rest) = rest"
    using nd assms(3) by (cases rest) (auto simp: dropWhile_append_stop)
  show ?thesis
    using c by (subst strtok_all.simps) (simp add: tok tw dw)
qed

lemma strtok_all_sound: "t \<in> set (strtok_all ds s) \<Longrightarrow> t \<noteq> [] \<and> set t \<inter> set ds = {} \<and> set t \<subseteq> set s"
proof (induction ds s rule: strtok_all.induct)
  case (1 ds s)
  show ?case
  proof (cases "dropWhile (\<lambda>c. c \<in> set ds) s")
    case Nil
    with "1.prems" show ?thesis by (simp add: strtok_all.simps [of ds s])
  next
    case (Cons c cs)
    have c: "c \<notin> set ds" using dropWhile_nonempty_hd [OF Cons] by simp
    have sub: "set (c # cs) \<subseteq> set s"
      using Cons by (metis set_dropWhileD subsetI)
    consider "t = c # takeWhile (\<lambda>c. c \<notin> set ds) cs"
      | "t \<in> set (strtok_all ds (dropWhile (\<lambda>c. c \<notin> set ds) cs))"
      using "1.prems" Cons by (auto simp: strtok_all.simps [of ds s])
    then show ?thesis
    proof cases
      case 1
      with c sub show ?thesis by (auto dest: set_takeWhileD)
    next
      case 2
      from "1.IH" [OF Cons 2] sub show ?thesis by (auto dest: set_dropWhileD)
    qed
  qed
qed

lemma strtok_at_Some:
  assumes "strtok_at ds s pos = Some (b, tok, nxt)"
  shows "pos \<le> b" and "b < length s" and "tok \<noteq> []" and "tok = take (length tok) (drop b s)"
    and "set tok \<inter> set ds = {}" and "nxt = b + length tok + 1"
proof -
  let ?k = "length (takeWhile (\<lambda>c. c \<in> set ds) (drop pos s))"
  from assms have b: "b = pos + ?k" and lt: "b < length s"
    and tok: "tok = takeWhile (\<lambda>c. c \<notin> set ds) (drop b s)" and n: "nxt = b + length tok + 1"
    by (auto simp: strtok_at_def Let_def split: if_splits)
  have drop: "drop b s = dropWhile (\<lambda>c. c \<in> set ds) (drop pos s)"
    by (simp add: b drop_length_takeWhile [symmetric] add.commute)
  from lt obtain c cs where cs: "drop b s = c # cs"
    by (metis Cons_nth_drop_Suc)
  then have "c \<notin> set ds"
    using drop dropWhile_nonempty_hd by fastforce
  then show "tok \<noteq> []" by (simp add: tok cs)
  show "pos \<le> b" and "b < length s" and "nxt = b + length tok + 1" by (simp_all add: b lt [unfolded b] n)
  show "tok = take (length tok) (drop b s)" by (metis tok take_length_takeWhile)
  show "set tok \<inter> set ds = {}" by (auto simp: tok dest: set_takeWhileD)
qed

lemma strtok_at_skip:
  assumes "pos \<le> length s" and "drop pos s = ws @ tok @ rest" and "set ws \<subseteq> set ds"
    and "tok \<noteq> []" and "set tok \<inter> set ds = {}" and "rest = [] \<or> hd rest \<in> set ds"
  shows "strtok_at ds s pos = Some (pos + length ws, tok, pos + length ws + length tok + 1)"
proof -
  obtain c cs where tok: "tok = c # cs" using assms(4) by (cases tok) auto
  have "takeWhile (\<lambda>c. c \<in> set ds) (drop pos s) = ws"
    using assms(2,3,5) by (auto simp: tok intro!: takeWhile_append_stop)
  moreover have d: "drop (pos + length ws) s = tok @ rest"
    using assms(2) by (metis add.commute append_eq_conv_conj drop_drop)
  moreover have "takeWhile (\<lambda>c. c \<notin> set ds) (tok @ rest) = tok"
    using assms(5,6) by (cases rest) (auto intro!: takeWhile_append_stop)
  moreover have "pos + length ws < length s"
    using d tok by (metis append_is_Nil_conv drop_eq_Nil2 leI list.distinct(1))
  ultimately show ?thesis by (simp add: strtok_at_def Let_def)
qed

section \<open>Numbers\<close>

definition isspace_c :: "char \<Rightarrow> bool" where
  "isspace_c c \<longleftrightarrow> c \<in> {SP, TAB, LF, VT, FF, CR}"

definition isdigit_c :: "char \<Rightarrow> bool" where
  "isdigit_c c \<longleftrightarrow> 48 \<le> (of_char c :: nat) \<and> (of_char c :: nat) \<le> 57"

definition digit_val :: "char \<Rightarrow> nat" where
  "digit_val c = of_char c - 48"

fun digits_val :: "nat \<Rightarrow> string \<Rightarrow> nat" where
  "digits_val acc [] = acc"
| "digits_val acc (c # cs) = (if isdigit_c c then digits_val (10 * acc + digit_val c) cs else acc)"

text \<open>The optional sign and the digits after the leading white space: whether the sign is minus, and the value.\<close>

definition scan_number :: "string \<Rightarrow> bool \<times> nat" where
  "scan_number s =
     (case dropWhile isspace_c s of
        [] \<Rightarrow> (False, 0)
      | c # cs \<Rightarrow> if c = CHR ''-'' then (True, digits_val 0 cs)
                  else if c = CHR ''+'' then (False, digits_val 0 cs)
                  else (False, digits_val 0 (c # cs)))"

text \<open>\<open>strtoul(s, NULL, 10)\<close>: saturates at \<open>ULONG_MAX\<close>, and a minus sign negates modulo \<open>2 ^ 64\<close>.\<close>

definition strtoul :: "string \<Rightarrow> nat" where
  "strtoul s =
     (let (neg, v) = scan_number s
      in if v \<ge> 2 ^ 64 then 2 ^ 64 - 1 else if neg then (2 ^ 64 - v) mod 2 ^ 64 else v)"

text \<open>\<open>strtol(s, NULL, 10)\<close>: saturates at \<open>LONG_MIN\<close> and \<open>LONG_MAX\<close>.\<close>

definition strtol :: "string \<Rightarrow> int" where
  "strtol s =
     (let (neg, v) = scan_number s; i = (if neg then - int v else int v)
      in max (- (2 ^ 63)) (min (2 ^ 63 - 1) i))"

text \<open>Conversion of a \<open>long\<close> to a 32-bit \<open>int\<close>, and \<open>atoi\<close>.\<close>

definition to_int32 :: "int \<Rightarrow> int" where
  "to_int32 i = (i + 2 ^ 31) mod 2 ^ 32 - 2 ^ 31"

definition atoi :: "string \<Rightarrow> int" where
  "atoi s = to_int32 (strtol s)"

lemma to_int32_id: "- (2 ^ 31) \<le> i \<Longrightarrow> i < 2 ^ 31 \<Longrightarrow> to_int32 i = i"
  by (simp add: to_int32_def)

lemma to_int32_range: "- (2 ^ 31) \<le> to_int32 i \<and> to_int32 i < 2 ^ 31"
  by (simp add: to_int32_def)

text \<open>The conversions \<open>%zu\<close> and \<open>%i\<close> of \<open>printf\<close>.\<close>

definition digit_char :: "nat \<Rightarrow> char" where
  "digit_char d = char_of (48 + d)"

fun show_nat :: "nat \<Rightarrow> string" where
  "show_nat n = (if n < 10 then [digit_char n] else show_nat (n div 10) @ [digit_char (n mod 10)])"

declare show_nat.simps [simp del]

definition show_int :: "int \<Rightarrow> string" where
  "show_int i = (if i < 0 then CHR ''-'' # show_nat (nat (- i)) else show_nat (nat i))"

lemma of_char_digit_char: "d < 10 \<Longrightarrow> (of_char (digit_char d) :: nat) = 48 + d"
  by (simp add: digit_char_def)

lemma isdigit_digit_char [simp]: "d < 10 \<Longrightarrow> isdigit_c (digit_char d)"
  by (simp add: isdigit_c_def of_char_digit_char)

lemma digit_val_digit_char [simp]: "d < 10 \<Longrightarrow> digit_val (digit_char d) = d"
  by (simp add: digit_val_def of_char_digit_char)

lemma show_nat_digits: "c \<in> set (show_nat n) \<Longrightarrow> isdigit_c c"
proof (induction n rule: show_nat.induct)
  case (1 n)
  then show ?case by (auto simp: show_nat.simps [of n] split: if_splits)
qed

lemma show_nat_nonempty [simp]: "show_nat n \<noteq> []"
  by (simp add: show_nat.simps [of n])

lemma show_nat_length: "n < 10 ^ k \<Longrightarrow> 0 < k \<Longrightarrow> length (show_nat n) \<le> k"
proof (induction k arbitrary: n)
  case (Suc k)
  show ?case
  proof (cases "n < 10")
    case True
    then show ?thesis by (simp add: show_nat.simps [of n])
  next
    case False
    then have "0 < k" using Suc.prems(1) by (cases k) auto
    moreover have "n div 10 < 10 ^ k" using Suc.prems(1) by (simp add: less_mult_imp_div_less mult.commute)
    ultimately show ?thesis using Suc.IH False by (simp add: show_nat.simps [of n])
  qed
qed simp

lemma digits_val_stop: "rest = [] \<or> \<not> isdigit_c (hd rest) \<Longrightarrow> digits_val acc rest = acc"
  by (cases rest) auto

lemma digits_val_append_digits:
  "\<forall>c\<in>set ds. isdigit_c c \<Longrightarrow> digits_val acc (ds @ rest) = digits_val (digits_val acc ds) rest"
  by (induction ds arbitrary: acc) auto

lemma digits_val_show_nat: "digits_val 0 (show_nat n) = n"
proof (induction n rule: show_nat.induct)
  case (1 n)
  show ?case
  proof (cases "n < 10")
    case True
    then show ?thesis by (simp add: show_nat.simps [of n])
  next
    case False
    have "\<forall>c\<in>set (show_nat (n div 10)). isdigit_c c"
      using show_nat_digits by blast
    with False 1 show ?thesis
      by (simp add: show_nat.simps [of n] digits_val_append_digits)
  qed
qed

lemma isdigit_not_special:
  assumes "isdigit_c c"
  shows "c \<noteq> NUL" "c \<noteq> LF" "c \<noteq> CR" "c \<noteq> SP" "c \<noteq> TAB" "c \<noteq> CHR '':''" "c \<noteq> CHR ''-''" "c \<noteq> CHR ''+''" "\<not> isspace_c c"
  using assms by (auto simp: isdigit_c_def isspace_c_def)

lemma scan_number_show_nat:
  assumes "\<forall>c\<in>set ws. isspace_c c" and "rest = [] \<or> \<not> isdigit_c (hd rest)"
  shows "scan_number (ws @ show_nat n @ rest) = (False, n)"
proof -
  obtain c cs where cs: "show_nat n = c # cs"
    by (metis list.exhaust show_nat_nonempty)
  have dig: "\<forall>c\<in>set (show_nat n). isdigit_c c" using show_nat_digits by blast
  then have c: "isdigit_c c" by (simp add: cs)
  have "dropWhile isspace_c (ws @ show_nat n @ rest) = show_nat n @ rest"
    using assms(1) isdigit_not_special [OF c] by (simp add: cs dropWhile_append_stop)
  moreover have "digits_val 0 (show_nat n @ rest) = n"
    using dig assms(2) by (simp add: digits_val_append_digits digits_val_show_nat digits_val_stop)
  ultimately show ?thesis
    using isdigit_not_special [OF c] by (simp add: scan_number_def cs)
qed

lemma strtoul_show_nat: "n < 2 ^ 64 \<Longrightarrow> strtoul (show_nat n) = n"
  using scan_number_show_nat [of "[]" "[]" n] by (simp add: strtoul_def)

lemma strtoul_less: "strtoul s < 2 ^ 64"
  by (auto simp: strtoul_def Let_def split: prod.splits)

lemma strtol_show_nat: "n < 2 ^ 63 \<Longrightarrow> strtol (show_nat n) = int n"
  using scan_number_show_nat [of "[]" "[]" n] by (simp add: strtol_def)

lemma atoi_show_nat: "n < 2 ^ 31 \<Longrightarrow> atoi (show_nat n) = int n"
  by (simp add: atoi_def strtol_show_nat to_int32_id)

section \<open>Copies into the pool\<close>

text \<open>
  The bytes that the copying functions of \<open>include/cpool.h\<close> leave in the memory they allocate.
  \<open>palloc\<close> asserts a positive size, so \<open>pmemdup\<close> of no bytes ends the process; a copied string
  always has its NUL. The callers do not test the result, so the model takes the copy to succeed. Where in memory the copy lives is the subject of the theory \<open>Cpool\<close>.
\<close>

definition pmemdup :: "string \<Rightarrow> string res" where
  "pmemdup p = (if p = [] then Inl Assert_fail else Inr p)"

definition pstrdup :: "string \<Rightarrow> string" where
  "pstrdup p = cstr p"

definition pstrndup :: "string \<Rightarrow> nat \<Rightarrow> string" where
  "pstrndup p n = cstr (take n p)"

lemma pstrndup_is_cstr [simp]: "is_cstr (pstrndup p n)"
  by (simp add: pstrndup_def)

lemma pstrndup_exact: "is_cstr s \<Longrightarrow> pstrndup (s @ rest) (length s) = s"
  by (simp add: pstrndup_def)

end
