(* ===== verification/Http.thy ===== *)
theory Http
  imports CStr
begin

text \<open>
  HTTP messages (\<open>include/http.h\<close>, first half of \<open>utils/http.c\<close>): methods, media types, the
  message structure, the constant error responses and the header table.
  \<open>int\<close> values that never leave the range of a C \<open>int\<close> are \<^typ>\<open>int\<close>; a null pointer is
  \<open>None\<close>. The pool copies \<open>pstrdup\<close> and \<open>pstrndup\<close> are the values they copy.
\<close>

section \<open>Constants\<close>

definition REQUEST_GET :: int where "REQUEST_GET = 1"
definition REQUEST_HEAD :: int where "REQUEST_HEAD = 2"
definition REQUEST_POST :: int where "REQUEST_POST = 4"
definition REQUEST_PUT :: int where "REQUEST_PUT = 8"
definition REQUEST_DELETE :: int where "REQUEST_DELETE = 16"
definition REQUEST_CONNECT :: int where "REQUEST_CONNECT = 32"
definition REQUEST_OPTIONS :: int where "REQUEST_OPTIONS = 64"
definition REQUEST_TRACE :: int where "REQUEST_TRACE = 128"
definition REQUEST_PATCH :: int where "REQUEST_PATCH = 256"

unbundle bit_operations_syntax

definition REQUEST_ALL :: int where
  "REQUEST_ALL = REQUEST_GET OR REQUEST_HEAD OR REQUEST_POST OR REQUEST_PUT OR REQUEST_DELETE
     OR REQUEST_CONNECT OR REQUEST_OPTIONS OR REQUEST_TRACE OR REQUEST_PATCH"

lemmas request_defs = REQUEST_GET_def REQUEST_HEAD_def REQUEST_POST_def REQUEST_PUT_def
  REQUEST_DELETE_def REQUEST_CONNECT_def REQUEST_OPTIONS_def REQUEST_TRACE_def REQUEST_PATCH_def

definition MIME_TEXT_PLAIN :: int where "MIME_TEXT_PLAIN = 0"
definition MIME_TEXT_HTML :: int where "MIME_TEXT_HTML = 1"
definition MIME_TEXT_CSS :: int where "MIME_TEXT_CSS = 2"
definition MIME_TEXT_JAVASCRIPT :: int where "MIME_TEXT_JAVASCRIPT = 3"
definition MIME_APPLICATION_JSON :: int where "MIME_APPLICATION_JSON = 4"
definition MIME_APPLICATION_XML :: int where "MIME_APPLICATION_XML = 5"
definition MIME_APPLICATION_PDF :: int where "MIME_APPLICATION_PDF = 6"
definition MIME_APPLICATION_OCTET_STREAM :: int where "MIME_APPLICATION_OCTET_STREAM = 7"
definition MIME_IMAGE_PNG :: int where "MIME_IMAGE_PNG = 8"
definition MIME_IMAGE_JPEG :: int where "MIME_IMAGE_JPEG = 9"
definition MIME_IMAGE_GIF :: int where "MIME_IMAGE_GIF = 10"
definition MIME_IMAGE_SVG :: int where "MIME_IMAGE_SVG = 11"
definition MIME_IMAGE_ICO :: int where "MIME_IMAGE_ICO = 12"

lemmas mime_defs = MIME_TEXT_PLAIN_def MIME_TEXT_HTML_def MIME_TEXT_CSS_def
  MIME_TEXT_JAVASCRIPT_def MIME_APPLICATION_JSON_def MIME_APPLICATION_XML_def
  MIME_APPLICATION_PDF_def MIME_APPLICATION_OCTET_STREAM_def MIME_IMAGE_PNG_def
  MIME_IMAGE_JPEG_def MIME_IMAGE_GIF_def MIME_IMAGE_SVG_def MIME_IMAGE_ICO_def

definition HTTP_VERSION_1_1 :: int where "HTTP_VERSION_1_1 = 0"

definition HTTP_MAX_HEADERS :: nat where "HTTP_MAX_HEADERS = 32"

section \<open>Messages\<close>

record http_header_t =
  h_name :: string
  h_value :: string

text \<open>
  \<open>headers\<close> is the used part of the array \<open>items\<close>; its length is the field \<open>len\<close>. \<open>body\<close> is the
  block of bytes the pointer leads to. \<open>body_len\<close> is kept apart from it because the code sets
  \<open>body\<close> to null and leaves \<open>body_len\<close> alone for a HEAD request.
\<close>

record http_t =
  m_method :: int
  m_path :: "string option"
  m_code :: int
  m_reason :: "string option"
  m_version :: int
  m_headers :: "http_header_t list"
  m_body :: "string option"
  m_body_len :: nat

definition http_zero :: http_t where
  "http_zero = \<lparr>m_method = 0, m_path = None, m_code = 0, m_reason = None, m_version = 0, m_headers = [],
     m_body = None, m_body_len = 0\<rparr>"

definition text_plain_header :: http_header_t where
  "text_plain_header = \<lparr>h_name = ''Content-Type'', h_value = ''text/plain''\<rparr>"

definition allow_header :: http_header_t where
  "allow_header = \<lparr>h_name = ''Allow'', h_value = ''GET, HEAD, POST, PUT, DELETE, PATCH''\<rparr>"

text \<open>A status message whose reason is also its body, as the macros of \<open>http.h\<close> write them.\<close>

definition status_message :: "int \<Rightarrow> string \<Rightarrow> http_header_t list \<Rightarrow> http_t" where
  "status_message c r hs = http_zero\<lparr>m_code := c, m_reason := Some r, m_body := Some r,
     m_body_len := length r, m_headers := hs\<rparr>"

definition NOT_IMPLEMENTED :: http_t where
  "NOT_IMPLEMENTED = status_message 501 ''Not Implemented'' [text_plain_header]"

definition NOT_FOUND :: http_t where
  "NOT_FOUND = status_message 404 ''Not Found'' [text_plain_header]"

definition BAD_REQUEST :: http_t where
  "BAD_REQUEST = status_message 400 ''Bad Request'' [text_plain_header]"

definition NOT_ALLOWED :: http_t where
  "NOT_ALLOWED = status_message 405 ''Method Not Allowed'' [text_plain_header, allow_header]"

definition NO_CONTENT :: http_t where
  "NO_CONTENT = http_zero\<lparr>m_code := 204, m_reason := Some ''No Content'', m_body := None, m_body_len := 0,
     m_headers := [allow_header]\<rparr>"

definition HTTP_MOVED :: "string \<Rightarrow> http_t" where
  "HTTP_MOVED loc = status_message 301 ''Moved Permanently''
     [text_plain_header, \<lparr>h_name = ''Location'', h_value = loc\<rparr>]"

definition VERSION_NOT_SUPPORTED :: http_t where
  "VERSION_NOT_SUPPORTED = status_message 505 ''HTTP Version Not Supported'' [text_plain_header]"

definition REQUEST_TIMEOUT :: http_t where
  "REQUEST_TIMEOUT = status_message 408 ''Request Timeout'' [text_plain_header]"

definition BAD_GATEWAY :: http_t where
  "BAD_GATEWAY = status_message 502 ''Bad Gateway'' [text_plain_header]"

lemmas status_defs = NOT_IMPLEMENTED_def NOT_FOUND_def BAD_REQUEST_def NOT_ALLOWED_def
  NO_CONTENT_def HTTP_MOVED_def VERSION_NOT_SUPPORTED_def REQUEST_TIMEOUT_def BAD_GATEWAY_def
  status_message_def http_zero_def

section \<open>Methods and media types\<close>

definition http_method_from_str :: "string \<Rightarrow> int" where
  "http_method_from_str str =
     (let len = length str in
      if len = 3 then
        (if str = ''GET'' then REQUEST_GET else if str = ''PUT'' then REQUEST_PUT else -1)
      else if len = 4 then
        (if str = ''HEAD'' then REQUEST_HEAD else if str = ''POST'' then REQUEST_POST else -1)
      else if len = 5 then
        (if str = ''PATCH'' then REQUEST_PATCH else if str = ''TRACE'' then REQUEST_TRACE else -1)
      else if len = 6 then
        (if str = ''DELETE'' then REQUEST_DELETE else -1)
      else if len = 7 then
        (if str = ''OPTIONS'' then REQUEST_OPTIONS
         else if str = ''CONNECT'' then REQUEST_CONNECT else -1)
      else -1)"

definition http_method_to_str :: "int \<Rightarrow> string option" where
  "http_method_to_str m =
     (if m = REQUEST_GET then Some ''GET''
      else if m = REQUEST_HEAD then Some ''HEAD''
      else if m = REQUEST_POST then Some ''POST''
      else if m = REQUEST_PUT then Some ''PUT''
      else if m = REQUEST_DELETE then Some ''DELETE''
      else if m = REQUEST_CONNECT then Some ''CONNECT''
      else if m = REQUEST_OPTIONS then Some ''OPTIONS''
      else if m = REQUEST_TRACE then Some ''TRACE''
      else if m = REQUEST_PATCH then Some ''PATCH''
      else None)"

definition mime_type_from_ext :: "string \<Rightarrow> int" where
  "mime_type_from_ext ext =
     (let len = length ext in
      if len = 2 then
        (if ext = ''js'' then MIME_TEXT_JAVASCRIPT else MIME_APPLICATION_OCTET_STREAM)
      else if len = 3 then
        (if ext = ''css'' then MIME_TEXT_CSS
         else if ext = ''xml'' then MIME_APPLICATION_XML
         else if ext = ''pdf'' then MIME_APPLICATION_PDF
         else if ext = ''png'' then MIME_IMAGE_PNG
         else if ext = ''jpg'' then MIME_IMAGE_JPEG
         else if ext = ''gif'' then MIME_IMAGE_GIF
         else if ext = ''svg'' then MIME_IMAGE_SVG
         else if ext = ''ico'' then MIME_IMAGE_ICO
         else if ext = ''txt'' then MIME_TEXT_PLAIN
         else MIME_APPLICATION_OCTET_STREAM)
      else if len = 4 then
        (if ext = ''html'' then MIME_TEXT_HTML
         else if ext = ''json'' then MIME_APPLICATION_JSON
         else if ext = ''jpeg'' then MIME_IMAGE_JPEG
         else MIME_APPLICATION_OCTET_STREAM)
      else MIME_APPLICATION_OCTET_STREAM)"

definition mime_type_str :: "int \<Rightarrow> string" where
  "mime_type_str m =
     (if m = MIME_TEXT_PLAIN then ''text/plain''
      else if m = MIME_TEXT_HTML then ''text/html''
      else if m = MIME_TEXT_CSS then ''text/css''
      else if m = MIME_TEXT_JAVASCRIPT then ''text/javascript''
      else if m = MIME_APPLICATION_JSON then ''application/json''
      else if m = MIME_APPLICATION_XML then ''application/xml''
      else if m = MIME_APPLICATION_PDF then ''application/pdf''
      else if m = MIME_APPLICATION_OCTET_STREAM then ''application/octet-stream''
      else if m = MIME_IMAGE_PNG then ''image/png''
      else if m = MIME_IMAGE_JPEG then ''image/jpeg''
      else if m = MIME_IMAGE_GIF then ''image/gif''
      else if m = MIME_IMAGE_SVG then ''image/svg+xml''
      else if m = MIME_IMAGE_ICO then ''image/x-icon''
      else ''application/octet-stream'')"

section \<open>The header table\<close>

text \<open>The loop of \<open>http_set_header\<close>: overwrite the value of the first header with this name.\<close>

fun headers_overwrite :: "http_header_t list \<Rightarrow> string \<Rightarrow> string \<Rightarrow> http_header_t list option" where
  "headers_overwrite [] n v = None"
| "headers_overwrite (h # hs) n v =
     (if strcaseeq (h_name h) n then Some (h\<lparr>h_value := v\<rparr> # hs)
      else map_option (\<lambda>hs'. h # hs') (headers_overwrite hs n v))"

definition http_set_header :: "http_t \<Rightarrow> string \<Rightarrow> string \<Rightarrow> bool \<times> http_t" where
  "http_set_header msg n v =
     (case headers_overwrite (m_headers msg) n v of
        Some hs \<Rightarrow> (True, msg\<lparr>m_headers := hs\<rparr>)
      | None \<Rightarrow>
          if length (m_headers msg) \<ge> HTTP_MAX_HEADERS then (False, msg)
          else (True, msg\<lparr>m_headers := m_headers msg @ [\<lparr>h_name = n, h_value = v\<rparr>]\<rparr>))"

fun headers_lookup :: "http_header_t list \<Rightarrow> string \<Rightarrow> string option" where
  "headers_lookup [] n = None"
| "headers_lookup (h # hs) n = (if strcaseeq (h_name h) n then Some (h_value h) else headers_lookup hs n)"

definition http_get_header :: "http_t \<Rightarrow> string \<Rightarrow> string option" where
  "http_get_header msg n = headers_lookup (m_headers msg) n"

definition http_has_header :: "http_t \<Rightarrow> string \<Rightarrow> bool" where
  "http_has_header msg n \<longleftrightarrow> http_get_header msg n \<noteq> None"

definition http_set_content_type :: "http_t \<Rightarrow> int \<Rightarrow> bool \<times> http_t" where
  "http_set_content_type msg mime = http_set_header msg ''Content-Type'' (mime_type_str mime)"

definition http_is_keep_alive :: "http_t \<Rightarrow> bool" where
  "http_is_keep_alive msg =
     (case http_get_header msg ''Connection'' of
        Some v \<Rightarrow> \<not> strcaseeq v ''close''
      | None \<Rightarrow> True)"

section \<open>The contract of a header table\<close>

text \<open>The value that a sequence of assignments leaves for a name: the last one wins.\<close>

fun last_value :: "(string \<times> string) list \<Rightarrow> string \<Rightarrow> string option" where
  "last_value [] n = None"
| "last_value ((k, v) # kvs) n =
     (case last_value kvs n of Some w \<Rightarrow> Some w | None \<Rightarrow> if strcaseeq k n then Some v else None)"

locale header_table =
  fixes set_hdr :: "'t \<Rightarrow> string \<Rightarrow> string \<Rightarrow> bool \<times> 't"
    and get_hdr :: "'t \<Rightarrow> string \<Rightarrow> string option"
    and count :: "'t \<Rightarrow> nat"
    and cap :: nat
  assumes set_ok: "fst (set_hdr t n v) \<longleftrightarrow> get_hdr t n \<noteq> None \<or> count t < cap"
    and set_fail: "\<not> fst (set_hdr t n v) \<Longrightarrow> snd (set_hdr t n v) = t"
    and get_set: "fst (set_hdr t n v) \<Longrightarrow>
      get_hdr (snd (set_hdr t n v)) n' = (if strcaseeq n n' then Some v else get_hdr t n')"
    and count_set: "count (snd (set_hdr t n v)) =
      (if get_hdr t n = None \<and> count t < cap then Suc (count t) else count t)"
begin

lemma set_twice:
  assumes "fst (set_hdr t n v)" and "strcaseeq n n'"
  shows "get_hdr (snd (set_hdr (snd (set_hdr t n v)) n' w)) n = Some w"
proof -
  have "get_hdr (snd (set_hdr t n v)) n' = Some v"
    using assms by (simp add: get_set)
  then have "fst (set_hdr (snd (set_hdr t n v)) n' w)"
    by (simp add: set_ok)
  then show ?thesis using assms(2) by (simp add: get_set strcaseeq_sym)
qed

lemma count_bound: "count t \<le> cap \<Longrightarrow> count (snd (set_hdr t n v)) \<le> cap"
  by (simp add: count_set)

lemma count_fold_bound:
  "count t \<le> cap \<Longrightarrow> count (fold (\<lambda>(n, v) t. snd (set_hdr t n v)) kvs t) \<le> cap"
  by (induction kvs arbitrary: t) (auto simp: count_bound)

lemma get_fold:
  "count t + length kvs \<le> cap \<Longrightarrow>
   get_hdr (fold (\<lambda>(n, v) t. snd (set_hdr t n v)) kvs t) n =
     (case last_value kvs n of Some v \<Rightarrow> Some v | None \<Rightarrow> get_hdr t n)"
proof (induction kvs arbitrary: t)
  case (Cons kv kvs)
  obtain k v where kv: "kv = (k, v)" by (cases kv)
  let ?t = "snd (set_hdr t k v)"
  have ok: "fst (set_hdr t k v)" using Cons.prems by (simp add: set_ok)
  have "count ?t + length kvs \<le> cap" using Cons.prems by (simp add: count_set)
  from Cons.IH [OF this] ok show ?case by (auto simp: kv get_set split: option.splits)
qed simp

lemma fold_kept:
  "get_hdr t n = Some v \<Longrightarrow> last_value kvs n = None \<Longrightarrow>
   get_hdr (fold (\<lambda>(n, v) t. snd (set_hdr t n v)) kvs t) n = Some v"
proof (induction kvs arbitrary: t)
  case (Cons kv kvs)
  obtain k w where kv: "kv = (k, w)" by (cases kv)
  have ne: "\<not> strcaseeq k n" and rest: "last_value kvs n = None"
    using Cons.prems(2) by (auto simp: kv split: option.splits if_splits)
  have "get_hdr (snd (set_hdr t k w)) n = Some v"
    using Cons.prems(1) ne by (cases "fst (set_hdr t k w)") (simp_all add: get_set set_fail)
  from Cons.IH [OF this rest] show ?case by (simp add: kv)
qed simp

end

section \<open>The header table of a message\<close>

lemma headers_overwrite_None: "headers_overwrite hs n v = None \<longleftrightarrow> headers_lookup hs n = None"
  by (induction hs) auto

lemma headers_overwrite_SomeD: "headers_overwrite hs n v = Some hs' \<Longrightarrow> headers_lookup hs n \<noteq> None"
  using headers_overwrite_None [of hs n v] by simp

lemma headers_overwrite_length: "headers_overwrite hs n v = Some hs' \<Longrightarrow> length hs' = length hs"
  by (induction hs arbitrary: hs') (auto split: if_splits)

lemma headers_overwrite_names: "headers_overwrite hs n v = Some hs' \<Longrightarrow> map h_name hs' = map h_name hs"
  by (induction hs arbitrary: hs') (auto split: if_splits)

lemma headers_overwrite_lookup:
  "headers_overwrite hs n v = Some hs' \<Longrightarrow>
   headers_lookup hs' n' = (if strcaseeq n n' then Some v else headers_lookup hs n')"
proof (induction hs arbitrary: hs')
  case (Cons h hs)
  then show ?case
    by (auto split: if_splits dest: strcaseeq_trans strcaseeq_sym)
qed simp

lemma headers_lookup_append:
  "headers_lookup (hs @ hs') n =
     (case headers_lookup hs n of Some v \<Rightarrow> Some v | None \<Rightarrow> headers_lookup hs' n)"
  by (induction hs) auto

lemma headers_lookup_cong: "strcaseeq n n' \<Longrightarrow> headers_lookup hs n = headers_lookup hs n'"
  by (induction hs) (auto simp: strcaseeq_def)

lemma http_set_header_get:
  "fst (http_set_header msg n v) \<Longrightarrow>
   http_get_header (snd (http_set_header msg n v)) n' =
     (if strcaseeq n n' then Some v else http_get_header msg n')"
proof (cases "headers_overwrite (m_headers msg) n v")
  case None
  moreover assume "fst (http_set_header msg n v)"
  moreover have "headers_lookup (m_headers msg) n = None"
    using None by (simp add: headers_overwrite_None)
  ultimately show ?thesis
    using headers_lookup_cong [of n n']
    by (auto simp: http_set_header_def http_get_header_def headers_lookup_append
        split: option.splits if_splits)
next
  case (Some hs)
  then show ?thesis
    by (simp add: http_set_header_def http_get_header_def headers_overwrite_lookup)
qed

interpretation hdrs: header_table http_set_header http_get_header "\<lambda>m. length (m_headers m)" HTTP_MAX_HEADERS
proof (unfold_locales, goal_cases)
  case (1 t n v)
  then show ?case
    by (auto simp: http_set_header_def http_get_header_def headers_overwrite_None
        split: option.splits dest: headers_overwrite_SomeD)
next
  case (2 t n v)
  then show ?case by (auto simp: http_set_header_def split: option.splits if_splits)
next
  case (3 t n v n')
  then show ?case by (rule http_set_header_get)
next
  case (4 t n v)
  then show ?case
    by (auto simp: http_set_header_def http_get_header_def headers_overwrite_None
        headers_overwrite_length split: option.splits dest: headers_overwrite_SomeD)
qed

text \<open>A table the code can build: at most 32 headers, no two names equal up to case.\<close>

definition headers_wf :: "http_header_t list \<Rightarrow> bool" where
  "headers_wf hs \<longleftrightarrow> length hs \<le> HTTP_MAX_HEADERS \<and> distinct (map (\<lambda>h. map tolower_c (h_name h)) hs)"

lemma headers_lookup_None:
  "headers_lookup hs n = None \<longleftrightarrow> map tolower_c n \<notin> set (map (\<lambda>h. map tolower_c (h_name h)) hs)"
  by (induction hs) (auto simp: strcaseeq_def)

lemma headers_overwrite_wf:
  assumes "headers_overwrite hs n v = Some hs'"
  shows "headers_wf hs' \<longleftrightarrow> headers_wf hs"
proof -
  have "map (map tolower_c) (map h_name hs') = map (map tolower_c) (map h_name hs)"
    using headers_overwrite_names [OF assms] by simp
  then show ?thesis
    using headers_overwrite_length [OF assms] by (simp add: headers_wf_def comp_def)
qed

lemma http_set_header_wf:
  "headers_wf (m_headers msg) \<Longrightarrow> headers_wf (m_headers (snd (http_set_header msg n v)))"
proof (cases "headers_overwrite (m_headers msg) n v")
  case None
  moreover assume "headers_wf (m_headers msg)"
  moreover have "headers_lookup (m_headers msg) n = None"
    using None by (simp add: headers_overwrite_None)
  ultimately show ?thesis
    by (auto simp: http_set_header_def headers_lookup_None headers_wf_def)
next
  case (Some hs)
  moreover assume "headers_wf (m_headers msg)"
  ultimately show ?thesis by (simp add: http_set_header_def headers_overwrite_wf)
qed

lemma http_set_header_frame:
  "m_method (snd (http_set_header msg n v)) = m_method msg"
  "m_path (snd (http_set_header msg n v)) = m_path msg"
  "m_code (snd (http_set_header msg n v)) = m_code msg"
  "m_reason (snd (http_set_header msg n v)) = m_reason msg"
  "m_version (snd (http_set_header msg n v)) = m_version msg"
  "m_body (snd (http_set_header msg n v)) = m_body msg"
  "m_body_len (snd (http_set_header msg n v)) = m_body_len msg"
  by (auto simp: http_set_header_def split: option.splits)

lemma http_set_header_new:
  "http_get_header msg n = None \<Longrightarrow> length (m_headers msg) < HTTP_MAX_HEADERS \<Longrightarrow>
   http_set_header msg n v = (True, msg\<lparr>m_headers := m_headers msg @ [\<lparr>h_name = n, h_value = v\<rparr>]\<rparr>)"
  by (simp add: http_set_header_def http_get_header_def headers_overwrite_None [THEN iffD2])

section \<open>Properties of methods, media types and headers\<close>

lemma method_strings:
  "http_method_to_str m = Some s \<Longrightarrow> http_method_from_str s = m \<and> 0 \<le> m"
  by (auto simp: http_method_to_str_def http_method_from_str_def request_defs split: if_splits)

lemma method_codes:
  "http_method_from_str s = m \<Longrightarrow> 0 \<le> m \<Longrightarrow> http_method_to_str m = Some s"
  by (auto simp: http_method_to_str_def http_method_from_str_def request_defs Let_def split: if_splits)

end
