(* ===== verification/Http_Parse.thy ===== *)
theory Http_Parse
  imports Http
begin

text \<open>
  The parsers of \<open>utils/http.c\<close>: the first line, the header block and the body, requests and
  responses. A buffer with its length is the list of its bytes; the pointers into it are offsets.
\<close>

section \<open>Definitions\<close>

definition http_first_line :: "string \<Rightarrow> (nat \<times> nat) option" where
  "http_first_line buffer =
     (case memchr LF buffer of
        None \<Rightarrow> None
      | Some line_end \<Rightarrow>
          let line_len = line_end;
              line_len = (if line_len > 0 \<and> buffer ! (line_len - 1) = CR then line_len - 1 else line_len)
          in Some (line_end, line_len))"

text \<open>Where the header block ends and where the body starts, both from the start of the headers.\<close>

definition header_block_bounds :: "string \<Rightarrow> nat \<times> nat option" where
  "header_block_bounds rest =
     (let blank_crlf = memmem [CR, LF, CR, LF] rest; blank_lf = memmem [LF, LF] rest
      in case blank_crlf of
           Some c \<Rightarrow>
             (case blank_lf of
                None \<Rightarrow> (c, Some (c + 4))
              | Some l \<Rightarrow> if c \<le> l then (c, Some (c + 4)) else (l, Some (l + 2)))
         | None \<Rightarrow>
             (case blank_lf of
                None \<Rightarrow> (length rest, None)
              | Some l \<Rightarrow> (l, Some (l + 2))))"

text \<open>One turn of the header loop: the name and the value of a line, if it has a colon.\<close>

definition header_of_line :: "string \<Rightarrow> (string \<times> string) option" where
  "header_of_line line =
     (let line = (if line \<noteq> [] \<and> last line = CR then butlast line else line)
      in case memchr (CHR '':'') line of
           None \<Rightarrow> None
         | Some colon \<Rightarrow> Some (take colon line, dropWhile (\<lambda>c. c = SP) (drop (colon + 1) line)))"

fun set_header_lines :: "http_t \<Rightarrow> string list \<Rightarrow> http_t" where
  "set_header_lines msg [] = msg"
| "set_header_lines msg (line # lines) =
     (case header_of_line line of
        None \<Rightarrow> set_header_lines msg lines
      | Some (n, v) \<Rightarrow> set_header_lines (snd (http_set_header msg n v)) lines)"

definition content_length_of :: "http_t \<Rightarrow> nat" where
  "content_length_of msg =
     (case http_get_header msg ''Content-Length'' of Some v \<Rightarrow> strtoul v | None \<Rightarrow> 0)"

definition http_parse_headers_and_body :: "http_t \<Rightarrow> string \<Rightarrow> http_t" where
  "http_parse_headers_and_body msg rest =
     (let (header_block_end, body_start) = header_block_bounds rest;
          header_block = pstrndup rest header_block_end;
          msg = set_header_lines msg (strtok_all [LF] header_block);
          content_length = content_length_of msg
      in case body_start of
           None \<Rightarrow> msg
         | Some bs \<Rightarrow>
             if content_length > 0 then
               let available = length rest - bs;
                   blen = (if content_length < available then content_length else available)
               in if blen > 0 then msg\<lparr>m_body := Some (take blen (drop bs rest)), m_body_len := blen\<rparr>
                  else msg
             else msg)"

definition http_request_parse :: "string \<Rightarrow> http_t res" where
  "http_request_parse buf =
     bind_res (pmemdup buf) (\<lambda>buffer.
       Inr (case http_first_line buffer of
         None \<Rightarrow> REQUEST_TIMEOUT
       | Some (line_end, line_len) \<Rightarrow>
           (case memchr SP (take line_len buffer) of
              None \<Rightarrow> BAD_REQUEST
            | Some method_len \<Rightarrow>
                let m = http_method_from_str (take method_len buffer) in
                if m < 0 then NOT_IMPLEMENTED
                else
                  let path_start = method_len + 1; path_remaining = line_len - method_len - 1 in
                  (case memchr SP (take path_remaining (drop path_start buffer)) of
                     None \<Rightarrow> BAD_REQUEST
                   | Some path_len \<Rightarrow>
                       let version_start = path_start + path_len + 1;
                           version_len = line_len - version_start in
                       if version_len \<noteq> 8 \<or> take 8 (drop version_start buffer) \<noteq> ''HTTP/1.1''
                       then VERSION_NOT_SUPPORTED
                       else http_parse_headers_and_body
                              (http_zero\<lparr>m_method := m, m_version := HTTP_VERSION_1_1,
                                 m_path := Some (pstrndup (drop path_start buffer) path_len)\<rparr>)
                              (drop (line_end + 1) buffer)))))"

definition http_response_parse :: "string \<Rightarrow> http_t res" where
  "http_response_parse buf =
     bind_res (pmemdup buf) (\<lambda>buffer.
       Inr (case http_first_line buffer of
         None \<Rightarrow> BAD_GATEWAY
       | Some (line_end, line_len) \<Rightarrow>
           (case memchr SP (take line_len buffer) of
              None \<Rightarrow> BAD_GATEWAY
            | Some version_len \<Rightarrow>
                if version_len \<noteq> 8 \<or> take 8 buffer \<noteq> ''HTTP/1.1'' then VERSION_NOT_SUPPORTED
                else
                  let code_start = version_len + 1; code_remaining = line_len - version_len - 1 in
                  (case memchr SP (take code_remaining (drop code_start buffer)) of
                     None \<Rightarrow> BAD_GATEWAY
                   | Some code_end \<Rightarrow>
                       let code_len = (if code_end \<ge> 16 then 15 else code_end);
                           reason_start = code_start + code_end + 1;
                           reason_len = line_len - reason_start in
                       http_parse_headers_and_body
                         (http_zero\<lparr>m_version := HTTP_VERSION_1_1,
                            m_code := atoi (cstr (take code_len (drop code_start buffer))),
                            m_reason := Some (pstrndup (drop reason_start buffer) reason_len)\<rparr>)
                         (drop (line_end + 1) buffer)))))"

section \<open>What every parse gives\<close>

lemma set_header_lines_fold:
  "set_header_lines msg lines =
     fold (\<lambda>(n, v) m. snd (http_set_header m n v)) (List.map_filter header_of_line lines) msg"
  by (induction msg lines rule: set_header_lines.induct)
    (auto simp: List.map_filter_simps split: option.splits)

lemma set_header_lines_frame:
  "m_method (set_header_lines msg lines) = m_method msg"
  "m_path (set_header_lines msg lines) = m_path msg"
  "m_code (set_header_lines msg lines) = m_code msg"
  "m_reason (set_header_lines msg lines) = m_reason msg"
  "m_version (set_header_lines msg lines) = m_version msg"
  "m_body (set_header_lines msg lines) = m_body msg"
  "m_body_len (set_header_lines msg lines) = m_body_len msg"
  by (induction msg lines rule: set_header_lines.induct)
    (auto simp: http_set_header_frame split: option.splits)

lemma set_header_lines_wf:
  "headers_wf (m_headers msg) \<Longrightarrow> headers_wf (m_headers (set_header_lines msg lines))"
  by (induction msg lines rule: set_header_lines.induct)
    (auto simp: http_set_header_wf split: option.splits)

text \<open>A message whose parts agree: a legal header table, and a body of the announced length.\<close>

definition msg_wf :: "http_t \<Rightarrow> bool" where
  "msg_wf msg \<longleftrightarrow> headers_wf (m_headers msg) \<and>
     (case m_body msg of None \<Rightarrow> m_body_len msg = 0 | Some b \<Rightarrow> m_body_len msg = length b)"

lemma status_wf:
  "msg_wf NOT_IMPLEMENTED" "msg_wf NOT_FOUND" "msg_wf BAD_REQUEST" "msg_wf NOT_ALLOWED"
  "msg_wf NO_CONTENT" "msg_wf VERSION_NOT_SUPPORTED" "msg_wf REQUEST_TIMEOUT" "msg_wf BAD_GATEWAY"
  "msg_wf (HTTP_MOVED loc)"
  by (simp_all add: msg_wf_def status_defs headers_wf_def HTTP_MAX_HEADERS_def
      text_plain_header_def allow_header_def tolower_c_def)

lemma parse_headers_frame:
  "m_method (http_parse_headers_and_body msg rest) = m_method msg"
  "m_path (http_parse_headers_and_body msg rest) = m_path msg"
  "m_code (http_parse_headers_and_body msg rest) = m_code msg"
  "m_reason (http_parse_headers_and_body msg rest) = m_reason msg"
  "m_version (http_parse_headers_and_body msg rest) = m_version msg"
  by (simp_all add: http_parse_headers_and_body_def Let_def set_header_lines_frame
      split: prod.splits option.splits)

lemma parse_headers_wf:
  "msg_wf msg \<Longrightarrow> msg_wf (http_parse_headers_and_body msg rest)"
  by (auto simp: http_parse_headers_and_body_def Let_def msg_wf_def set_header_lines_wf
      set_header_lines_frame split: prod.splits option.splits)

text \<open>
  The first blank line of the bytes after the request line: what is before it, its own bytes, in either of the two
  forms that the code looks for, and what is after it.
\<close>

definition first_blank_line :: "string \<Rightarrow> string \<Rightarrow> string \<Rightarrow> string \<Rightarrow> bool" where
  "first_blank_line rest head sep tail \<longleftrightarrow> rest = head @ sep @ tail \<and> (sep = [CR, LF, CR, LF] \<or> sep = [LF, LF]) \<and>
     (\<forall>j<length head. \<not> prefix [CR, LF, CR, LF] (drop j rest) \<and> \<not> prefix [LF, LF] (drop j rest))"

lemma blank_line_bounds:
  assumes "first_blank_line rest head sep tail"
  shows "header_block_bounds rest = (length head, Some (length head + length sep))"
proof -
  have at: "drop (length head) rest = sep @ tail" and le: "length head \<le> length rest"
    and none: "\<And>nd j. nd \<in> {[CR, LF, CR, LF], [LF, LF]} \<Longrightarrow> j < length head \<Longrightarrow> \<not> prefix nd (drop j rest)"
    using assms by (auto simp: first_blank_line_def)
  have later: "length head < k"
    if "nd \<in> {[CR, LF, CR, LF], [LF, LF]}" and "\<not> prefix nd (sep @ tail)" and "memmem nd rest = Some k" for nd k
  proof (rule ccontr)
    assume "\<not> length head < k"
    then have "k < length head \<or> k = length head" by auto
    with that none memmem_Some_prefix [OF that(3)] at show False by auto
  qed
  from assms consider "sep = [CR, LF, CR, LF]" | "sep = [LF, LF]" by (auto simp: first_blank_line_def)
  then show ?thesis
  proof cases
    case 1
    then have "memmem [CR, LF, CR, LF] rest = Some (length head)" using at le none by (intro memmem_SomeI) auto
    with 1 later [of "[LF, LF]"] show ?thesis by (auto simp: header_block_bounds_def Let_def split: option.splits)
  next
    case 2
    then have "memmem [LF, LF] rest = Some (length head)" using at le none by (intro memmem_SomeI) auto
    with 2 later [of "[CR, LF, CR, LF]"] show ?thesis by (auto simp: header_block_bounds_def Let_def split: option.splits)
  qed
qed

lemma content_length_of_body [simp]: "content_length_of (m\<lparr>m_body := b, m_body_len := k\<rparr>) = content_length_of m"
  by (simp add: content_length_of_def http_get_header_def)

lemma parse_at_blank_line:
  assumes "first_blank_line rest head sep tail" and "m_body msg = None" and "m_body_len msg = 0"
    and "m = set_header_lines msg (strtok_all [LF] (cstr head))"
  shows "http_parse_headers_and_body msg rest =
    m\<lparr>m_body := (if content_length_of m = 0 \<or> tail = [] then None else Some (take (content_length_of m) tail)),
      m_body_len := length (take (content_length_of m) tail)\<rparr>"
proof -
  have rest: "rest = head @ sep @ tail" using assms(1) by (simp add: first_blank_line_def)
  then have "pstrndup rest (length head) = cstr head" by (simp add: pstrndup_def)
  moreover have "m_body m = None" "m_body_len m = 0" using assms(2-4) by (simp_all add: set_header_lines_frame)
  moreover have "length rest - (length head + length sep) = length tail" "drop (length head + length sep) rest = tail"
    by (simp_all add: rest)
  ultimately show ?thesis
    unfolding http_parse_headers_and_body_def blank_line_bounds [OF assms(1)] Let_def prod.case option.case
    by (auto simp: assms(4) [symmetric] min_def intro!: http_t.equality)
qed

section \<open>The request line and the status line\<close>

lemma http_first_line_crlf:
  "LF \<notin> set line \<Longrightarrow> CR \<notin> set line \<Longrightarrow>
   http_first_line (line @ CR # LF # rest) = Some (length line + 1, length line)"
  using memchr_append [of LF "line @ [CR]" rest]
  by (simp add: http_first_line_def nth_append)

text \<open>A first line is bounded by its terminator, and contains none.\<close>

lemma http_first_line_bounds:
  assumes "http_first_line buffer = Some (le, ll)"
  shows "ll \<le> le" and "le < length buffer" and "buffer ! le = LF" and "LF \<notin> set (take ll buffer)"
proof -
  from assms have m: "memchr LF buffer = Some le" and ll: "ll = le \<or> ll = le - 1"
    by (auto simp: http_first_line_def Let_def split: option.splits)
  show "ll \<le> le" using ll by auto
  show "le < length buffer" and "buffer ! le = LF" using m by (auto simp: memchr_Some)
  show "LF \<notin> set (take ll buffer)"
    using m ll set_take_subset_set_take [of ll le buffer] by (auto simp: memchr_Some)
qed

lemma request_line_parse:
  assumes "http_method_to_str m = Some ms" and "SP \<notin> set p" and "LF \<notin> set p" and "CR \<notin> set p"
    and "is_cstr p"
  shows "http_request_parse (ms @ SP # p @ SP # ''HTTP/1.1'' @ CR # LF # rest) =
    Inr (http_parse_headers_and_body
      (http_zero\<lparr>m_method := m, m_version := HTTP_VERSION_1_1, m_path := Some p\<rparr>) rest)"
proof -
  define line where "line = ms @ SP # p @ SP # ''HTTP/1.1''"
  define buf where "buf = line @ CR # LF # rest"
  have ms: "SP \<notin> set ms" "LF \<notin> set ms" "CR \<notin> set ms" "ms \<noteq> []"
    and fm: "http_method_from_str ms = m" "0 \<le> m"
    using assms(1) method_strings [OF assms(1)]
    by (auto simp: http_method_to_str_def split: if_splits)
  have fl: "http_first_line buf = Some (length line + 1, length line)"
    unfolding buf_def using ms assms by (intro http_first_line_crlf) (auto simp: line_def)
  have tk: "take (length line) buf = line" by (simp add: buf_def)
  have mt: "take (length ms) buf = ms" by (simp add: buf_def line_def)
  have d1: "drop (length ms + 1) buf = p @ SP # ''HTTP/1.1'' @ CR # LF # rest"
    by (simp add: buf_def line_def)
  have d2: "drop (length ms + 1 + length p + 1) buf = ''HTTP/1.1'' @ CR # LF # rest"
    by (simp add: buf_def line_def)
  have d3: "drop (length line + 1 + 1) buf = rest" by (simp add: buf_def)
  have ll: "length line = length ms + 1 + length p + 1 + 8" by (simp add: line_def)
  have "memchr SP line = Some (length ms)"
    using ms(1) by (simp add: memchr_append line_def)
  moreover have "memchr SP (take (length line - length ms - 1) (p @ SP # ''HTTP/1.1'' @ CR # LF # rest)) = Some (length p)"
    using assms(2) by (simp add: memchr_append ll)
  moreover have "pstrndup (p @ SP # ''HTTP/1.1'' @ CR # LF # rest) (length p) = p"
    using assms(5) by (rule pstrndup_exact)
  moreover have "pmemdup buf = Inr buf" by (simp add: pmemdup_def buf_def)
  moreover have "length line - (length ms + 1 + length p + 1) = 8" by (simp add: ll)
  ultimately have "http_request_parse buf = Inr (http_parse_headers_and_body
      (http_zero\<lparr>m_method := m, m_version := HTTP_VERSION_1_1, m_path := Some p\<rparr>) rest)"
    using fl fm tk mt d1 d2 d3 unfolding http_request_parse_def by (simp add: Let_def)
  then show ?thesis by (simp add: buf_def line_def)
qed

lemma status_line_parse:
  assumes "c < 10 ^ 9" and "LF \<notin> set r" and "CR \<notin> set r" and "is_cstr r"
  shows "http_response_parse (''HTTP/1.1 '' @ show_nat c @ SP # r @ CR # LF # rest) =
    Inr (http_parse_headers_and_body
      (http_zero\<lparr>m_version := HTTP_VERSION_1_1, m_code := int c, m_reason := Some r\<rparr>) rest)"
proof -
  define line where "line = ''HTTP/1.1'' @ SP # show_nat c @ SP # r"
  define buf where "buf = line @ CR # LF # rest"
  have dig: "\<And>x. x \<in> set (show_nat c) \<Longrightarrow> isdigit_c x" by (rule show_nat_digits)
  have sc: "SP \<notin> set (show_nat c)" "LF \<notin> set (show_nat c)" "CR \<notin> set (show_nat c)" "NUL \<notin> set (show_nat c)"
    using dig isdigit_not_special by blast+
  have len: "length (show_nat c) < 16"
    using show_nat_length [of c 9] assms(1) by simp
  have fl: "http_first_line buf = Some (length line + 1, length line)"
    unfolding buf_def using sc assms by (intro http_first_line_crlf) (auto simp: line_def)
  have tk: "take (length line) buf = line" by (simp add: buf_def)
  have d1: "drop (8 + 1) buf = show_nat c @ SP # r @ CR # LF # rest"
    by (simp add: buf_def line_def)
  have dd: "drop (8 + 1 + length (show_nat c) + 1) buf = drop (length (show_nat c) + 1) (drop (8 + 1) buf)"
    by (simp add: add.commute add.left_commute)
  have d2: "drop (8 + 1 + length (show_nat c) + 1) buf = r @ CR # LF # rest"
    by (simp only: dd d1) simp
  have d3: "drop (length line + 1 + 1) buf = rest" by (simp add: buf_def)
  have ll: "length line = 8 + 1 + length (show_nat c) + 1 + length r" by (simp add: line_def)
  have t8: "take 8 buf = ''HTTP/1.1''" by (simp add: buf_def line_def)
  have "memchr SP line = Some 8"
    using memchr_append [of SP "''HTTP/1.1''" "show_nat c @ SP # r"] by (simp add: line_def)
  moreover have "memchr SP (take (length line - 8 - 1) (show_nat c @ SP # r @ CR # LF # rest)) = Some (length (show_nat c))"
    using sc(1) by (simp add: memchr_append ll)
  moreover have "cstr (take (length (show_nat c)) (show_nat c @ SP # r @ CR # LF # rest)) = show_nat c"
    using sc(4) by (simp add: is_cstr_def)
  moreover have "atoi (show_nat c) = int c" using assms(1) by (intro atoi_show_nat) simp
  moreover have "pstrndup (r @ CR # LF # rest) (length r) = r"
    using assms(4) by (rule pstrndup_exact)
  moreover have "pmemdup buf = Inr buf" by (simp add: pmemdup_def buf_def)
  moreover have "length line - (8 + 1 + length (show_nat c) + 1) = length r" by (simp add: ll)
  ultimately have "http_response_parse buf = Inr (http_parse_headers_and_body
      (http_zero\<lparr>m_version := HTTP_VERSION_1_1, m_code := int c, m_reason := Some r\<rparr>) rest)"
    using fl len tk d1 d2 d3 t8 unfolding http_response_parse_def by (simp add: Let_def)
  then show ?thesis by (simp add: buf_def line_def)
qed

section \<open>Header blocks as they are written\<close>

definition header_text :: "(string \<times> string) list \<Rightarrow> string" where
  "header_text kvs = concat (map (\<lambda>(n, v). n @ '': '' @ v @ [CR, LF]) kvs)"

text \<open>Names and values that can be written and read back.\<close>

definition name_ok :: "string \<Rightarrow> bool" where
  "name_ok n \<longleftrightarrow> n \<noteq> [] \<and> set n \<inter> {CHR '':'', CR, LF, NUL} = {}"

definition value_ok :: "string \<Rightarrow> bool" where
  "value_ok v \<longleftrightarrow> set v \<inter> {CR, LF, NUL} = {} \<and> (v = [] \<or> hd v \<noteq> SP)"

definition headers_ok :: "(string \<times> string) list \<Rightarrow> bool" where
  "headers_ok kvs \<longleftrightarrow> (\<forall>(n, v)\<in>set kvs. name_ok n \<and> value_ok v)"

lemma memmem_crlf_line:
  assumes "CR \<notin> set l"
  shows "memmem [CR, LF, CR, LF] (l @ CR # LF # ys) =
    (if prefix [CR, LF] ys then Some (length l)
     else map_option (\<lambda>i. length l + 2 + i) (memmem [CR, LF, CR, LF] ys))"
  using assms
proof (induction l)
  case Nil
  then show ?case by (cases "memmem [CR, LF, CR, LF] ys") auto
next
  case (Cons c l)
  then show ?case by (cases "memmem [CR, LF, CR, LF] ys") auto
qed

lemma memmem_lf_line:
  assumes "LF \<notin> set l"
  shows "memmem [LF, LF] (l @ CR # LF # ys) =
    (if prefix [LF] ys then Some (length l + 1)
     else map_option (\<lambda>i. length l + 2 + i) (memmem [LF, LF] ys))"
  using assms
proof (induction l)
  case Nil
  then show ?case by (cases "memmem [LF, LF] ys") auto
next
  case (Cons c l)
  then show ?case by (cases "memmem [LF, LF] ys") auto
qed

lemma header_text_simps [simp]:
  "header_text [] = []"
  "header_text ((n, v) # kvs) = n @ '': '' @ v @ CR # LF # header_text kvs"
  by (simp_all add: header_text_def)

lemma header_text_append: "header_text (xs @ ys) = header_text xs @ header_text ys"
  by (simp add: header_text_def)

lemma header_text_start:
  assumes "headers_ok kvs" and "kvs \<noteq> []"
  shows "\<not> prefix [CR, LF] (header_text kvs @ ys)" and "\<not> prefix [LF] (header_text kvs @ ys)"
proof -
  obtain n v kvs' where kvs: "kvs = (n, v) # kvs'" using assms(2) by (cases kvs) auto
  obtain c cs where "n = c # cs" and "c \<noteq> CR" and "c \<noteq> LF"
    using assms(1) by (cases n) (auto simp: kvs headers_ok_def name_ok_def)
  then show "\<not> prefix [CR, LF] (header_text kvs @ ys)" and "\<not> prefix [LF] (header_text kvs @ ys)"
    by (simp_all add: kvs)
qed

lemma header_text_crlf:
  "headers_ok kvs \<Longrightarrow> kvs \<noteq> [] \<Longrightarrow>
   memmem [CR, LF, CR, LF] (header_text kvs @ CR # LF # bd) = Some (length (header_text kvs) - 2)"
proof (induction kvs)
  case (Cons kv kvs)
  obtain n v where kv: "kv = (n, v)" by (cases kv)
  have l: "CR \<notin> set (n @ '': '' @ v)"
    using Cons.prems(1) by (auto simp: kv headers_ok_def name_ok_def value_ok_def)
  have ok: "headers_ok kvs" using Cons.prems(1) by (simp add: headers_ok_def)
  show ?case
  proof (cases "kvs = []")
    case True
    with memmem_crlf_line [OF l, of "CR # LF # bd"] show ?thesis by (simp add: kv)
  next
    case False
    have "2 \<le> length (header_text kvs)" using False by (cases kvs) auto
    with memmem_crlf_line [OF l, of "header_text kvs @ CR # LF # bd"] Cons.IH [OF ok False]
      header_text_start(1) [OF ok False]
    show ?thesis by (simp add: kv)
  qed
qed simp

lemma header_text_lf:
  "headers_ok kvs \<Longrightarrow> memmem [LF, LF] (header_text kvs @ CR # LF # bd) = Some l \<Longrightarrow>
   length (header_text kvs) < l"
proof (induction kvs arbitrary: l)
  case Nil
  then show ?case by (auto split: if_splits)
next
  case (Cons kv kvs)
  obtain n v where kv: "kv = (n, v)" by (cases kv)
  have lf: "LF \<notin> set (n @ '': '' @ v)"
    using Cons.prems(1) by (auto simp: kv headers_ok_def name_ok_def value_ok_def)
  have ok: "headers_ok kvs" using Cons.prems(1) by (simp add: headers_ok_def)
  have np: "\<not> prefix [LF] (header_text kvs @ CR # LF # bd)"
    using header_text_start(2) [OF ok] by (cases "kvs = []") auto
  from memmem_lf_line [OF lf, of "header_text kvs @ CR # LF # bd"] np Cons.prems(2)
  obtain k where "memmem [LF, LF] (header_text kvs @ CR # LF # bd) = Some k"
    and "l = length (n @ '': '' @ v) + 2 + k"
    by (auto simp: kv)
  with Cons.IH [OF ok] show ?case by (auto simp: kv)
qed

lemma header_text_bounds:
  assumes "headers_ok kvs" and "kvs \<noteq> []"
  shows "header_block_bounds (header_text kvs @ CR # LF # bd) =
    (length (header_text kvs) - 2, Some (length (header_text kvs) + 2))"
proof -
  have "2 \<le> length (header_text kvs)" using assms(2) by (cases kvs) auto
  moreover have "l > length (header_text kvs)"
    if "memmem [LF, LF] (header_text kvs @ CR # LF # bd) = Some l" for l
    using header_text_lf [OF assms(1) that] .
  ultimately show ?thesis
    using header_text_crlf [OF assms, of bd]
    by (auto simp: header_block_bounds_def Let_def split: option.splits)
qed

text \<open>The tokens of a written header block are its lines, each with its CR but for the last.\<close>

lemma header_of_line_written:
  assumes "name_ok n" and "value_ok v" and "cr = [] \<or> cr = [CR]"
  shows "header_of_line (n @ '': '' @ v @ cr) = Some (n, v)"
proof -
  have last: "last (n @ '': '' @ v) \<noteq> CR"
    using assms(2) by (cases "v = []") (auto simp: value_ok_def dest: last_in_set)
  have strip: "(if n @ '': '' @ v @ cr \<noteq> [] \<and> last (n @ '': '' @ v @ cr) = CR
      then butlast (n @ '': '' @ v @ cr) else n @ '': '' @ v @ cr) = n @ '': '' @ v"
    using assms(3) last by (auto simp: butlast_append)
  have colon: "memchr (CHR '':'') (n @ '': '' @ v) = Some (length n)"
    using assms(1) by (simp add: name_ok_def memchr_append)
  have "dropWhile (\<lambda>c. c = SP) (SP # v) = v"
    using assms(2) by (simp add: value_ok_def dropWhile_hd)
  with colon show ?thesis
    unfolding header_of_line_def strip by (simp add: Let_def)
qed

lemma strtok_header_line:
  assumes "name_ok n" and "value_ok v" and "rest = [] \<or> hd rest = LF" and "cr = [] \<or> cr = [CR]"
  shows "strtok_all [LF] ((n @ '': '' @ v @ cr) @ rest) = (n @ '': '' @ v @ cr) # strtok_all [LF] rest"
  using assms by (intro strtok_all_token) (auto simp: name_ok_def value_ok_def)

lemma header_text_lines:
  "headers_ok kvs \<Longrightarrow> kvs \<noteq> [] \<Longrightarrow>
   List.map_filter header_of_line
     (strtok_all [LF] (take (length (header_text kvs) - 2) (header_text kvs))) = kvs"
proof (induction kvs)
  case (Cons kv kvs)
  obtain n v where kv: "kv = (n, v)" by (cases kv)
  have nv: "name_ok n" "value_ok v" and ok: "headers_ok kvs"
    using Cons.prems(1) by (auto simp: kv headers_ok_def)
  show ?case
  proof (cases "kvs = []")
    case True
    have "take (length (header_text (kv # kvs)) - 2) (header_text (kv # kvs)) = (n @ '': '' @ v @ []) @ []"
      by (simp add: kv True)
    then show ?thesis
      using strtok_header_line [OF nv, of "[]" "[]"] header_of_line_written [OF nv, of "[]"]
      by (simp add: kv True List.map_filter_simps)
  next
    case False
    let ?T = "take (length (header_text kvs) - 2) (header_text kvs)"
    have len: "2 \<le> length (header_text kvs)" using False by (cases kvs) auto
    have "take (length (header_text (kv # kvs)) - 2) (header_text (kv # kvs)) =
        (n @ '': '' @ v @ [CR]) @ LF # ?T"
      using len by (auto simp: kv take_Cons' numeral_2_eq_2)
    then have "strtok_all [LF] (take (length (header_text (kv # kvs)) - 2) (header_text (kv # kvs))) =
        (n @ '': '' @ v @ [CR]) # strtok_all [LF] ?T"
      using strtok_header_line [OF nv, of "LF # ?T" "[CR]"] by (simp add: strtok_all_delim)
    then show ?thesis
      using Cons.IH [OF ok False] header_of_line_written [OF nv, of "[CR]"]
      by (simp add: kv List.map_filter_simps)
  qed
qed simp

lemma header_text_is_cstr: "headers_ok kvs \<Longrightarrow> is_cstr (header_text kvs)"
  by (induction kvs) (auto simp: headers_ok_def name_ok_def value_ok_def is_cstr_def)

text \<open>Setting headers with fresh, pairwise different names appends them in order.\<close>

definition mk_header :: "string \<times> string \<Rightarrow> http_header_t" where
  "mk_header kv = \<lparr>h_name = fst kv, h_value = snd kv\<rparr>"

lemma set_headers_append:
  "headers_wf (m_headers msg @ map mk_header kvs) \<Longrightarrow>
   fold (\<lambda>(n, v) m. snd (http_set_header m n v)) kvs msg =
     msg\<lparr>m_headers := m_headers msg @ map mk_header kvs\<rparr>"
proof (induction kvs arbitrary: msg)
  case (Cons kv kvs)
  obtain n v where kv: "kv = (n, v)" by (cases kv)
  let ?msg = "msg\<lparr>m_headers := m_headers msg @ [mk_header kv]\<rparr>"
  have "http_get_header msg n = None"
    using Cons.prems by (auto simp: http_get_header_def headers_lookup_None headers_wf_def kv mk_header_def)
  moreover have "length (m_headers msg) < HTTP_MAX_HEADERS"
    using Cons.prems by (simp add: headers_wf_def)
  ultimately have "snd (http_set_header msg n v) = ?msg"
    by (simp add: http_set_header_new kv mk_header_def)
  moreover have "headers_wf (m_headers ?msg @ map mk_header kvs)"
    using Cons.prems by simp
  ultimately show ?case using Cons.IH [of ?msg] by (simp add: kv)
qed simp

text \<open>What the parser makes of a written header block and the bytes after it, names repeated or not.\<close>

lemma parse_written_lines:
  assumes "headers_ok kvs" and "kvs \<noteq> []" and "m = fold (\<lambda>(n, v) m. snd (http_set_header m n v)) kvs msg"
    and "content_length_of m = length bd"
  shows "http_parse_headers_and_body msg (header_text kvs @ CR # LF # bd) =
    (if bd = [] then m else m\<lparr>m_body := Some bd, m_body_len := length bd\<rparr>)"
proof -
  let ?T = "header_text kvs" and ?n = "length (header_text kvs) - 2"
  have len: "2 \<le> length ?T" using assms(2) by (cases kvs) auto
  have "is_cstr (take ?n ?T)"
    using header_text_is_cstr [OF assms(1)] by (auto simp: is_cstr_def dest: in_set_takeD)
  then have block: "pstrndup (?T @ CR # LF # bd) ?n = take ?n ?T"
    using len by (simp add: pstrndup_def)
  have msg: "set_header_lines msg (strtok_all [LF] (take ?n ?T)) = m"
    using header_text_lines [OF assms(1,2)] by (simp add: set_header_lines_fold assms(3))
  have "drop (length ?T + 2) (?T @ CR # LF # bd) = bd" by simp
  moreover have "length (?T @ CR # LF # bd) - (length ?T + 2) = length bd" by simp
  ultimately show ?thesis
    unfolding http_parse_headers_and_body_def header_text_bounds [OF assms(1,2)] Let_def prod.case
      block msg assms(4)
    by simp
qed

lemma parse_written_headers:
  assumes "headers_ok kvs" and "kvs \<noteq> []" and "headers_wf (m_headers msg @ map mk_header kvs)"
    and "m = msg\<lparr>m_headers := m_headers msg @ map mk_header kvs\<rparr>"
    and "content_length_of m = length bd"
  shows "http_parse_headers_and_body msg (header_text kvs @ CR # LF # bd) =
    (if bd = [] then m else m\<lparr>m_body := Some bd, m_body_len := length bd\<rparr>)"
  by (rule parse_written_lines [OF assms(1,2) _ assms(5)]) (simp add: set_headers_append [OF assms(3)] assms(4))

text \<open>Setting headers leaves the rest of a message alone.\<close>

lemma fold_set_frame:
  "m_code (fold (\<lambda>(n, v) m. snd (http_set_header m n v)) kvs msg) = m_code msg"
  "m_reason (fold (\<lambda>(n, v) m. snd (http_set_header m n v)) kvs msg) = m_reason msg"
  "m_body (fold (\<lambda>(n, v) m. snd (http_set_header m n v)) kvs msg) = m_body msg"
  by (induction kvs arbitrary: msg) (auto simp: http_set_header_frame)

section \<open>A reference definition of the request parser\<close>

text \<open>
  The request line as the documents on HTTP describe it: method, target and version, each
  separated by one space. \<open>request_spec\<close> works on the words of the line; the code works on
  offsets into the buffer.
\<close>

definition strip_cr :: "string \<Rightarrow> string" where
  "strip_cr l = (if l \<noteq> [] \<and> last l = CR then butlast l else l)"

definition request_spec :: "string \<Rightarrow> string \<Rightarrow> http_t" where
  "request_spec line rest =
     (if SP \<notin> set line then BAD_REQUEST
      else let m = http_method_from_str (before SP line); tail = after SP line in
        if m < 0 then NOT_IMPLEMENTED
        else if SP \<notin> set tail then BAD_REQUEST
        else if after SP tail \<noteq> ''HTTP/1.1'' then VERSION_NOT_SUPPORTED
        else http_parse_headers_and_body
               (http_zero\<lparr>m_method := m, m_version := HTTP_VERSION_1_1,
                  m_path := Some (cstr (before SP tail))\<rparr>) rest)"

lemma first_line_strip:
  assumes "LF \<in> set buf"
  shows "http_first_line buf = Some (length (before LF buf), length (strip_cr (before LF buf)))"
    and "take (length (strip_cr (before LF buf))) buf = strip_cr (before LF buf)"
proof -
  let ?l = "before LF buf"
  have buf: "buf = ?l @ LF # after LF buf" by (rule split_at [OF assms])
  have "buf ! (length ?l - 1) = last ?l" if "?l \<noteq> []"
    using that by (subst buf) (simp add: nth_append last_conv_nth)
  then show "http_first_line buf = Some (length ?l, length (strip_cr ?l))"
    using assms by (auto simp: http_first_line_def memchr_eq Let_def strip_cr_def)
  have "take (length (strip_cr ?l)) (?l @ LF # after LF buf) = strip_cr ?l"
    by (simp add: strip_cr_def butlast_conv_take)
  then show "take (length (strip_cr ?l)) buf = strip_cr ?l" using buf by metis
qed

text \<open>One word of a line: what the offsets of the code denote.\<close>

lemma word_split:
  assumes "take n b = w" and "n = length w" and "c \<in> set w"
  shows "take (length (before c w)) b = before c w"
    and "take (n - length (before c w) - 1) (drop (length (before c w) + 1) b) = after c w"
    and "n = length (before c w) + 1 + length (after c w)"
proof -
  have w: "w = before c w @ c # after c w" by (rule split_at [OF assms(3)])
  have b: "b = before c w @ c # after c w @ drop n b"
    using assms(1) w by (metis append_Cons append_assoc append_take_drop_id)
  show "take (length (before c w)) b = before c w" by (subst b) simp
  show n: "n = length (before c w) + 1 + length (after c w)"
    using assms(2) arg_cong [OF w, of length] by simp
  show "take (n - length (before c w) - 1) (drop (length (before c w) + 1) b) = after c w"
    by (subst b) (simp add: n)
qed

lemma request_line_spec:
  assumes "http_first_line buf = Some (le, length line)" and "take (length line) buf = line"
    and "drop (le + 1) buf = rest"
  shows "http_request_parse buf = Inr (request_spec line rest)"
proof -
  have ne: "pmemdup buf = Inr buf"
    using assms(1) by (auto simp: pmemdup_def http_first_line_def)
  note start = http_request_parse_def ne assms(1,2) memchr_eq request_spec_def Let_def
  show ?thesis
  proof (cases "SP \<in> set line")
    case False
    then show ?thesis by (simp add: start)
  next
    case sp: True
    note w1 = word_split [OF assms(2) refl sp]
    show ?thesis
    proof (cases "SP \<in> set (after SP line)")
      case False
      with sp w1(1,2) show ?thesis by (simp add: start)
    next
      case sp2: True
      let ?p = "before SP (after SP line)" and ?v = "after SP (after SP line)"
      have "length line - length (before SP line) - 1 = length (after SP line)" using w1(3) by simp
      note w2 = word_split [OF w1(2) this sp2]
      define vs where "vs = length (before SP line) + 1 + length ?p + 1"
      have vl: "length line - vs = length ?v" using w1(3) w2(3) by (simp add: vs_def)
      have "take (length line - vs) (drop vs buf) = ?v"
        using w2(2) by (simp add: vs_def add.commute add.left_commute)
      then have "take (length ?v) (drop vs buf) = ?v" by (simp only: vl)
      then have ver: "(length line - vs \<noteq> 8 \<or> take 8 (drop vs buf) \<noteq> ''HTTP/1.1'') \<longleftrightarrow> ?v \<noteq> ''HTTP/1.1''"
        unfolding vl by (cases "length ?v = 8") auto
      have path: "pstrndup (drop (length (before SP line) + 1) buf) (length ?p) = cstr ?p"
        by (simp only: pstrndup_def w2(1))
      from sp sp2 w1(1,2) path ver assms(3) show ?thesis
        by (simp add: start vs_def)
    qed
  qed
qed

lemma request_parse_spec:
  "http_request_parse buf =
     (if buf = [] then Inl Assert_fail
      else Inr (if LF \<notin> set buf then REQUEST_TIMEOUT
                else request_spec (strip_cr (before LF buf)) (after LF buf)))"
proof (cases "LF \<in> set buf")
  case False
  then show ?thesis
    by (simp add: http_request_parse_def pmemdup_def http_first_line_def memchr_eq)
next
  case True
  have "drop (length (before LF buf) + 1) buf = after LF buf"
    by (subst split_at [OF True]) simp
  from request_line_spec [OF first_line_strip [OF True] this] True show ?thesis by auto
qed

lemma request_spec_cases:
  "m_path (request_spec line rest) = None \<and>
     request_spec line rest \<in> {BAD_REQUEST, NOT_IMPLEMENTED, VERSION_NOT_SUPPORTED} \<or>
   (\<exists>p. m_path (request_spec line rest) = Some p \<and> is_cstr p \<and> SP \<notin> set p \<and> set p \<subseteq> set line \<and>
     http_method_to_str (m_method (request_spec line rest)) \<noteq> None \<and>
     m_code (request_spec line rest) = 0 \<and> m_reason (request_spec line rest) = None)"
proof -
  let ?p = "cstr (before SP (after SP line))"
  have "set ?p \<subseteq> set (before SP (after SP line))" by (auto simp: cstr_def dest: set_takeWhileD)
  then have "SP \<notin> set ?p" "set ?p \<subseteq> set line"
    using before_no [of SP "after SP line"] before_sub after_sub by fast+
  moreover have "http_method_to_str (http_method_from_str s) \<noteq> None" if "\<not> http_method_from_str s < 0" for s
    using method_codes [OF refl, of s] that by simp
  ultimately show ?thesis
    by (auto simp: request_spec_def Let_def parse_headers_frame)
      (auto simp: status_defs)
qed

lemma request_spec_wf: "msg_wf (request_spec line rest)"
proof -
  have "msg_wf (http_zero\<lparr>m_method := m, m_version := v, m_path := p\<rparr>)" for m v p
    by (simp add: msg_wf_def http_zero_def headers_wf_def)
  then show ?thesis
    by (simp add: request_spec_def Let_def status_wf parse_headers_wf)
qed

section \<open>Properties of the parsers\<close>

text \<open>
  C11: \<open>http_request_parse\<close> agrees with the reference parser on every input. An empty input fails
  the assertion of \<open>palloc\<close>, an input without a line feed is answered 408, and otherwise the
  result is that of \<open>request_spec\<close> on the first line (one CR before the LF removed) and on the
  bytes after it: 400 for a missing word, 501 for an unknown method, 505 for another version.
\<close>

theorem http_request_parse_refines_spec:
  "http_request_parse buf =
     (if buf = [] then Inl Assert_fail
      else Inr (if LF \<notin> set buf then REQUEST_TIMEOUT
                else request_spec (strip_cr (before LF buf)) (after LF buf)))"
  by (rule request_parse_spec)

lemma request_parse_result:
  assumes "buf \<noteq> []"
  shows "\<exists>m. http_request_parse buf = Inr m \<and> msg_wf m \<and>
    (m_path m = None \<and> m \<in> {REQUEST_TIMEOUT, BAD_REQUEST, NOT_IMPLEMENTED, VERSION_NOT_SUPPORTED} \<or>
     (\<exists>p. m_path m = Some p \<and> set p \<inter> {SP, LF, NUL} = {} \<and>
        http_method_to_str (m_method m) \<noteq> None \<and> m_code m = 0))"
proof (cases "LF \<in> set buf")
  case False
  then show ?thesis
    using assms status_wf(7) by (simp add: request_parse_spec status_defs)
next
  case True
  let ?l = "strip_cr (before LF buf)" and ?r = "after LF buf"
  have "LF \<notin> set ?l"
    using before_no [of LF buf] by (auto simp: strip_cr_def dest: in_set_butlastD)
  then show ?thesis
    using True assms request_spec_cases [of ?l ?r] request_spec_wf [of ?l ?r]
    by (auto simp: request_parse_spec is_cstr_def)
qed

lemma request_parse_error:
  assumes "buf \<noteq> []" and "http_request_parse buf = Inr req" and "m_path req = None"
  shows "req \<in> {REQUEST_TIMEOUT, BAD_REQUEST, NOT_IMPLEMENTED, VERSION_NOT_SUPPORTED}"
  using request_parse_result [OF assms(1)] assms(2,3) by auto

text \<open>
  C20: Every result of \<open>http_request_parse\<close> on a nonempty buffer is well formed (at most 32 headers
  with names distinct up to case, a body of exactly the recorded length), and it is either one
  of the four error responses, recognisable by its null path, or a request with a known method
  and a path without space, line feed or NUL.
\<close>

theorem http_request_parse_result:
  assumes "buf \<noteq> []"
  shows "\<exists>m. http_request_parse buf = Inr m \<and> msg_wf m \<and>
    (m_path m = None \<and> m \<in> {REQUEST_TIMEOUT, BAD_REQUEST, NOT_IMPLEMENTED, VERSION_NOT_SUPPORTED} \<or>
     (\<exists>p. m_path m = Some p \<and> set p \<inter> {SP, LF, NUL} = {} \<and>
        http_method_to_str (m_method m) \<noteq> None \<and> m_code m = 0))"
  by (rule request_parse_result [OF assms])

theorem http_request_parse_result_witness:
  "\<exists>m. http_request_parse (''GET / HTTP/1.1'' @ [CR, LF, CR, LF]) = Inr m \<and> msg_wf m \<and>
    (m_path m = None \<and> m \<in> {REQUEST_TIMEOUT, BAD_REQUEST, NOT_IMPLEMENTED, VERSION_NOT_SUPPORTED} \<or>
     (\<exists>p. m_path m = Some p \<and> set p \<inter> {SP, LF, NUL} = {} \<and>
        http_method_to_str (m_method m) \<noteq> None \<and> m_code m = 0))"
  by (rule http_request_parse_result) simp

text \<open>
  C21: The header parser splits its input at the first blank line, CRLF CRLF or LF LF, whichever comes first: the
  headers are those of the lines before it, and the body is what follows right after it, cut at the Content-Length
  of the headers just read; without a Content-Length, or with nothing after the blank line, there is no body.
\<close>

theorem parsed_body_after_blank_line:
  assumes "first_blank_line rest head sep tail" and "m_body msg = None" and "m_body_len msg = 0"
    and "r = http_parse_headers_and_body msg rest"
  shows "m_headers r = m_headers (set_header_lines msg (strtok_all [LF] (cstr head))) \<and>
    m_body r = (if content_length_of r = 0 \<or> tail = [] then None else Some (take (content_length_of r) tail)) \<and>
    m_body_len r = min (content_length_of r) (length tail)"
  unfolding assms(4) parse_at_blank_line [OF assms(1-3) refl] by (simp add: min.commute)

theorem parsed_body_after_blank_line_witness:
  "m_body (http_parse_headers_and_body http_zero (''Content-Length: 3'' @ [LF, LF] @ ''abcd'' @ [CR, LF, CR, LF])) = Some ''abc''"
proof -
  let ?rest = "''Content-Length: 3'' @ [LF, LF] @ ''abcd'' @ [CR, LF, CR, LF]"
  have "first_blank_line ?rest ''Content-Length: 3'' [LF, LF] (''abcd'' @ [CR, LF, CR, LF])" by code_simp
  moreover have "m_headers (set_header_lines http_zero (strtok_all [LF] (cstr ''Content-Length: 3''))) = [mk_header (''Content-Length'', ''3'')]"
    using strtok_header_line [of "''Content-Length''" "''3''" "[]" "[]"] header_of_line_written [of "''Content-Length''" "''3''" "[]"]
    by (simp add: name_ok_def value_ok_def http_set_header_def http_zero_def HTTP_MAX_HEADERS_def mk_header_def is_cstr_def)
  moreover have "content_length_of r = 3" if "m_headers r = [mk_header (''Content-Length'', ''3'')]" for r
    using that by (simp add: content_length_of_def http_get_header_def mk_header_def strtoul_def scan_number_def isspace_c_def
        isdigit_c_def digit_val_def)
  ultimately show ?thesis
    using parsed_body_after_blank_line [of ?rest "''Content-Length: 3''" "[LF, LF]" "''abcd'' @ [CR, LF, CR, LF]" http_zero, OF _ _ _ refl]
    by (simp add: http_zero_def)
qed

text \<open>
  C22: The header lines of a message act in order on its table: as long as there is room for one
  entry per line, looking a name up afterwards gives the value of the last line with that name
  up to case, or what the message held before when no line has it.
\<close>

theorem header_lines_last_wins:
  assumes "length (m_headers msg) + length (List.map_filter header_of_line lines) \<le> HTTP_MAX_HEADERS"
  shows "http_get_header (set_header_lines msg lines) n =
    (case last_value (List.map_filter header_of_line lines) n of
       Some v \<Rightarrow> Some v | None \<Rightarrow> http_get_header msg n)"
  using hdrs.get_fold [OF assms] by (simp add: set_header_lines_fold)

theorem header_lines_last_wins_witness:
  "http_get_header (set_header_lines http_zero [''Host: a'', ''HOST: b'']) ''host'' =
    (case last_value (List.map_filter header_of_line [''Host: a'', ''HOST: b'']) ''host'' of
       Some v \<Rightarrow> Some v | None \<Rightarrow> http_get_header http_zero ''host'')"
proof (rule header_lines_last_wins)
  show "length (m_headers http_zero) + length (List.map_filter header_of_line [''Host: a'', ''HOST: b''])
      \<le> HTTP_MAX_HEADERS"
    by code_simp
qed

end
