(* ===== verification/Http_Send.thy ===== *)
theory Http_Send
  imports Http_Parse
begin

text \<open>
  The writers of \<open>utils/http.c\<close>: \<open>http_send_response\<close> and \<open>http_send_request\<close> format the header
  into a 4096-byte array with a chain of \<open>snprintf\<close> calls and hand header and body to one call
  of \<open>send\<close>. The model gives the bytes of that call. What \<open>send\<close> returns only selects a log
  line, so it is not an argument.
\<close>

section \<open>The Date header\<close>

text \<open>\<open>gmtime\<close> and \<open>strftime(date, 32, "%a, %d %b %Y %H:%M:%S GMT", tm)\<close> of the C library.\<close>

definition pad2 :: "nat \<Rightarrow> string" where
  "pad2 n = (if n < 10 then CHR ''0'' # show_nat n else show_nat n)"

definition weekday_name :: "int \<Rightarrow> string" where
  "weekday_name d =
     (if d = 0 then ''Sun'' else if d = 1 then ''Mon'' else if d = 2 then ''Tue''
      else if d = 3 then ''Wed'' else if d = 4 then ''Thu'' else if d = 5 then ''Fri'' else ''Sat'')"

definition month_name :: "int \<Rightarrow> string" where
  "month_name m =
     (if m = 1 then ''Jan'' else if m = 2 then ''Feb'' else if m = 3 then ''Mar''
      else if m = 4 then ''Apr'' else if m = 5 then ''May'' else if m = 6 then ''Jun''
      else if m = 7 then ''Jul'' else if m = 8 then ''Aug'' else if m = 9 then ''Sep''
      else if m = 10 then ''Oct'' else if m = 11 then ''Nov'' else ''Dec'')"

text \<open>Year, month and day of a day number counted from 1970-01-01 (proleptic Gregorian).\<close>

definition civil_from_days :: "int \<Rightarrow> int \<times> int \<times> int" where
  "civil_from_days days =
     (let z = days + 719468; era = z div 146097; doe = z mod 146097;
          yoe = (doe - doe div 1460 + doe div 36524 - doe div 146096) div 365;
          doy = doe - (365 * yoe + yoe div 4 - yoe div 100);
          mp = (5 * doy + 2) div 153;
          d = doy - (153 * mp + 2) div 5 + 1;
          m = (if mp < 10 then mp + 3 else mp - 9);
          y = yoe + era * 400
      in (if m \<le> 2 then y + 1 else y, m, d))"

definition http_date :: "int \<Rightarrow> string" where
  "http_date now =
     (let days = now div 86400; secs = now mod 86400; (y, m, d) = civil_from_days days
      in weekday_name ((days + 4) mod 7) @ '', '' @ pad2 (nat d) @ [SP] @ month_name m @ [SP]
         @ show_int y @ [SP] @ pad2 (nat (secs div 3600)) @ '':''
         @ pad2 (nat (secs mod 3600 div 60)) @ '':'' @ pad2 (nat (secs mod 60)) @ '' GMT'')"

section \<open>Formatting into a fixed buffer\<close>

definition HEADER_SIZE :: nat where "HEADER_SIZE = 4096"

text \<open>
  \<open>len += snprintf(header + len, sizeof(header) - len, ...)\<close> for the text \<open>t\<close>. The state is the
  part of the array written so far and \<open>len\<close>. \<open>snprintf\<close> returns the length the text would
  have had, so \<open>len\<close> can pass the size of the array; a later call would then write outside it.
\<close>

definition buf_printf :: "string \<Rightarrow> string \<times> nat \<Rightarrow> (string \<times> nat) res" where
  "buf_printf t st =
     (let (buf, len) = st
      in if len > HEADER_SIZE then Inl Undefined
         else if len = HEADER_SIZE then Inr (buf, len + length t)
         else Inr (take len buf @ take (HEADER_SIZE - len - 1) t @ [NUL], len + length t))"

fun buf_printf_headers :: "http_header_t list \<Rightarrow> string \<times> nat \<Rightarrow> (string \<times> nat) res" where
  "buf_printf_headers [] st = Inr st"
| "buf_printf_headers (h # hs) st =
     bind_res (buf_printf (h_name h @ '': '' @ h_value h @ [CR, LF]) st) (buf_printf_headers hs)"

text \<open>\<open>send(fd, header, len)\<close>, or the copy of header and body followed by \<open>send\<close>.\<close>

definition send_header_body :: "bool \<Rightarrow> string option \<Rightarrow> nat \<Rightarrow> string \<times> nat \<Rightarrow> string option res" where
  "send_header_body alloc_ok bdy blen st =
     (let (header, header_len) = st
      in case bdy of
           None \<Rightarrow> if header_len > HEADER_SIZE then Inl Undefined else Inr (Some (take header_len header))
         | Some b \<Rightarrow>
             if \<not> alloc_ok then Inr None
             else if header_len > HEADER_SIZE \<or> blen > length b then Inl Undefined
             else Inr (Some (take header_len header @ take blen b)))"

definition http_send_response :: "int \<Rightarrow> bool \<Rightarrow> http_t \<Rightarrow> string option res" where
  "http_send_response now alloc_ok response =
     (let date = http_date now;
          response = (if \<not> http_has_header response ''Content-Type''
                      then snd (http_set_content_type response MIME_TEXT_PLAIN) else response)
      in case m_reason response of
           None \<Rightarrow> Inl Undefined
         | Some r \<Rightarrow>
             bind_res (buf_printf (''HTTP/1.1 '' @ show_int (m_code response) @ [SP] @ r @ [CR, LF]
                 @ ''Date: '' @ date @ [CR, LF] @ ''Server: Foxtails'' @ [CR, LF]
                 @ ''Content-Length: '' @ show_nat (m_body_len response) @ [CR, LF]) ([], 0)) (\<lambda>st.
             bind_res (buf_printf_headers (m_headers response) st) (\<lambda>st.
             bind_res (buf_printf [CR, LF] st)
               (send_header_body alloc_ok (m_body response) (m_body_len response)))))"

definition http_send_request :: "bool \<Rightarrow> http_t \<Rightarrow> string option res" where
  "http_send_request alloc_ok request =
     (case (http_method_to_str (m_method request), m_path request) of
        (Some ms, Some p) \<Rightarrow>
          bind_res (buf_printf (ms @ [SP] @ p @ '' HTTP/1.1'' @ [CR, LF]
              @ ''Content-Length: '' @ show_nat (m_body_len request) @ [CR, LF]) ([], 0)) (\<lambda>st.
          bind_res (buf_printf_headers
              (filter (\<lambda>h. \<not> strcaseeq (h_name h) ''Content-Length'') (m_headers request)) st) (\<lambda>st.
          bind_res (buf_printf [CR, LF] st)
            (send_header_body alloc_ok (m_body request) (m_body_len request))))
      | _ \<Rightarrow> Inl Undefined)"

section \<open>When the header fits\<close>

text \<open>The array holds the text \<open>t\<close> and \<open>len\<close> is its length.\<close>

definition holds_text :: "string \<times> nat \<Rightarrow> string \<Rightarrow> bool" where
  "holds_text st t \<longleftrightarrow> snd st = length t \<and> take (length t) (fst st) = t \<and> length t < HEADER_SIZE"

lemma buf_printf_fits:
  assumes "holds_text st s" and "length s + length t < HEADER_SIZE"
  shows "\<exists>st'. buf_printf t st = Inr st' \<and> holds_text st' (s @ t)"
proof -
  obtain buf len where st: "st = (buf, len)" by (cases st)
  have "len = length s" "take len buf = s" and lt: "length s < HEADER_SIZE"
    using assms(1) by (auto simp: holds_text_def st)
  with assms(2) have "buf_printf t st = Inr (s @ t @ [NUL], length (s @ t))"
    by (simp add: buf_printf_def st)
  then show ?thesis using assms(2) by (auto simp: holds_text_def)
qed

definition hdr_pair :: "http_header_t \<Rightarrow> string \<times> string" where
  "hdr_pair h = (h_name h, h_value h)"

lemma buf_printf_headers_fits:
  assumes "holds_text st s" and "length s + length (header_text (map hdr_pair hs)) < HEADER_SIZE"
  shows "\<exists>st'. buf_printf_headers hs st = Inr st' \<and> holds_text st' (s @ header_text (map hdr_pair hs))"
  using assms
proof (induction hs arbitrary: st s)
  case (Cons h hs)
  let ?l = "h_name h @ '': '' @ h_value h @ [CR, LF]"
  from Cons.prems(2) have "length s + length ?l < HEADER_SIZE"
    by (simp add: hdr_pair_def)
  from buf_printf_fits [OF Cons.prems(1) this] obtain st1
    where st1: "buf_printf ?l st = Inr st1" "holds_text st1 (s @ ?l)" by blast
  have "length (s @ ?l) + length (header_text (map hdr_pair hs)) < HEADER_SIZE"
    using Cons.prems(2) by (simp add: hdr_pair_def [of h])
  from Cons.IH [OF st1(2) this] obtain st2
    where "buf_printf_headers hs st1 = Inr st2"
      and "holds_text st2 ((s @ ?l) @ header_text (map hdr_pair hs))"
    by blast
  with st1(1) show ?case by (simp add: hdr_pair_def [of h])
qed simp

lemma printf_chain_fits:
  assumes "length (s @ header_text (map hdr_pair hs) @ [CR, LF]) < HEADER_SIZE"
  shows "\<exists>st. bind_res (buf_printf s ([], 0)) (\<lambda>st. bind_res (buf_printf_headers hs st) (buf_printf [CR, LF]))
      = Inr st \<and> holds_text st (s @ header_text (map hdr_pair hs) @ [CR, LF])"
proof -
  have "holds_text ([], 0) []" by (simp add: holds_text_def HEADER_SIZE_def)
  from buf_printf_fits [OF this, of s] assms obtain st1
    where st1: "buf_printf s ([], 0) = Inr st1" "holds_text st1 s" by auto
  from buf_printf_headers_fits [OF st1(2), of hs] assms obtain st2
    where st2: "buf_printf_headers hs st1 = Inr st2"
      "holds_text st2 (s @ header_text (map hdr_pair hs))" by auto
  from buf_printf_fits [OF st2(2), of "[CR, LF]"] assms obtain st3
    where "buf_printf [CR, LF] st2 = Inr st3"
      "holds_text st3 ((s @ header_text (map hdr_pair hs)) @ [CR, LF])" by auto
  with st1 st2 show ?thesis by simp
qed

section \<open>When it does not\<close>

lemma buf_printf_len: "buf_printf t st = Inr st' \<Longrightarrow> snd st' = snd st + length t"
  by (auto simp: buf_printf_def Let_def split: prod.splits if_splits)

lemma buf_printf_headers_len:
  "buf_printf_headers hs st = Inr st' \<Longrightarrow> snd st' = snd st + length (header_text (map hdr_pair hs))"
proof (induction hs arbitrary: st)
  case (Cons h hs)
  then obtain st1 where "buf_printf (h_name h @ '': '' @ h_value h @ [CR, LF]) st = Inr st1"
    and "buf_printf_headers hs st1 = Inr st'"
    by (auto simp: bind_res_Inr)
  with Cons.IH [of st1] show ?case by (auto dest!: buf_printf_len simp: hdr_pair_def [of h])
qed simp

lemma buf_printf_fault: "buf_printf t st = Inl e \<Longrightarrow> e = Undefined"
  by (auto simp: buf_printf_def Let_def split: prod.splits if_splits)

lemma buf_printf_headers_fault: "buf_printf_headers hs st = Inl e \<Longrightarrow> e = Undefined"
proof (induction hs arbitrary: st)
  case (Cons h hs)
  then show ?case
    by (cases "buf_printf (h_name h @ '': '' @ h_value h @ [CR, LF]) st") (auto dest: buf_printf_fault)
qed simp

text \<open>The common tail of both writers, from the first text to \<open>send\<close>.\<close>

definition send_message :: "bool \<Rightarrow> string \<Rightarrow> http_header_t list \<Rightarrow> string option \<Rightarrow> nat \<Rightarrow> string option res" where
  "send_message alloc_ok start hs bdy blen =
     bind_res (buf_printf start ([], 0)) (\<lambda>st. bind_res (buf_printf_headers hs st) (\<lambda>st.
       bind_res (buf_printf [CR, LF] st) (send_header_body alloc_ok bdy blen)))"

lemma bind_res_assoc: "bind_res (bind_res r f) g = bind_res r (\<lambda>x. bind_res (f x) g)"
  by (cases r) auto

lemma send_message_chain:
  "send_message alloc_ok start hs bdy blen =
     bind_res (bind_res (buf_printf start ([], 0))
       (\<lambda>st. bind_res (buf_printf_headers hs st) (buf_printf [CR, LF]))) (send_header_body alloc_ok bdy blen)"
  by (simp add: send_message_def bind_res_assoc)

lemma send_message_fits:
  assumes "length (start @ header_text (map hdr_pair hs) @ [CR, LF]) < HEADER_SIZE"
    and "alloc_ok" and "\<And>b. bdy = Some b \<Longrightarrow> blen = length b"
  shows "send_message alloc_ok start hs bdy blen =
    Inr (Some (start @ header_text (map hdr_pair hs) @ [CR, LF] @ (case bdy of None \<Rightarrow> [] | Some b \<Rightarrow> b)))"
proof -
  let ?t = "start @ header_text (map hdr_pair hs) @ [CR, LF]"
  obtain buf len where chain: "bind_res (buf_printf start ([], 0))
      (\<lambda>st. bind_res (buf_printf_headers hs st) (buf_printf [CR, LF])) = Inr (buf, len)"
    and holds: "holds_text (buf, len) ?t"
    using printf_chain_fits [OF assms(1)] by (metis surj_pair)
  from holds have "len = length ?t" "take len buf = ?t" "\<not> len > HEADER_SIZE"
    by (auto simp: holds_text_def)
  with assms(2,3) show ?thesis
    unfolding send_message_chain chain by (cases bdy) (simp_all add: send_header_body_def)
qed

lemma send_message_overflow:
  assumes "HEADER_SIZE < length (start @ header_text (map hdr_pair hs) @ [CR, LF])"
    and "bdy = None \<or> alloc_ok"
  shows "send_message alloc_ok start hs bdy blen = Inl Undefined"
proof (cases "buf_printf start ([], 0)")
  case (Inl e)
  then show ?thesis by (simp add: send_message_def buf_printf_fault)
next
  case st1: (Inr st1)
  show ?thesis
  proof (cases "buf_printf_headers hs st1")
    case (Inl e)
    with st1 show ?thesis by (simp add: send_message_def buf_printf_headers_fault)
  next
    case st2: (Inr st2)
    show ?thesis
    proof (cases "buf_printf [CR, LF] st2")
      case (Inl e)
      with st1 st2 show ?thesis by (simp add: send_message_def buf_printf_fault)
    next
      case (Inr st3)
      have "snd st3 = length (start @ header_text (map hdr_pair hs) @ [CR, LF])"
        using buf_printf_len [OF st1] buf_printf_headers_len [OF st2] buf_printf_len [OF Inr] by simp
      with assms st1 st2 Inr show ?thesis
        by (auto simp: send_message_def send_header_body_def Let_def split: prod.splits option.splits)
    qed
  qed
qed

lemma http_send_request_message:
  assumes "http_method_to_str (m_method r) = Some ms" and "m_path r = Some p"
  shows "http_send_request alloc_ok r =
    send_message alloc_ok (ms @ [SP] @ p @ '' HTTP/1.1'' @ [CR, LF] @ header_text [(''Content-Length'', show_nat (m_body_len r))])
      (filter (\<lambda>h. \<not> strcaseeq (h_name h) ''Content-Length'') (m_headers r)) (m_body r) (m_body_len r)"
  using assms by (simp add: http_send_request_def send_message_def)

text \<open>The header lines that \<open>http_send_response\<close> writes on its own.\<close>

definition own_headers :: "int \<Rightarrow> http_t \<Rightarrow> (string \<times> string) list" where
  "own_headers now r = [(''Date'', http_date now), (''Server'', ''Foxtails''),
     (''Content-Length'', show_nat (m_body_len r))]"

definition with_content_type :: "http_t \<Rightarrow> http_t" where
  "with_content_type r = (if http_has_header r ''Content-Type'' then r
     else snd (http_set_content_type r MIME_TEXT_PLAIN))"

lemma with_content_type_frame [simp]:
  "m_code (with_content_type r) = m_code r" "m_reason (with_content_type r) = m_reason r"
  "m_body (with_content_type r) = m_body r" "m_body_len (with_content_type r) = m_body_len r"
  by (simp_all add: with_content_type_def http_set_content_type_def http_set_header_frame)

lemma http_send_response_message:
  assumes "m_reason r = Some rs"
  shows "http_send_response now alloc_ok r =
    send_message alloc_ok (''HTTP/1.1 '' @ show_int (m_code r) @ [SP] @ rs @ [CR, LF] @ header_text (own_headers now r))
      (m_headers (with_content_type r)) (m_body r) (m_body_len r)"
proof -
  have eq: "(if \<not> http_has_header r ''Content-Type''
      then snd (http_set_content_type r MIME_TEXT_PLAIN) else r) = with_content_type r"
    by (simp add: with_content_type_def)
  show ?thesis
    unfolding http_send_response_def Let_def eq using assms
    by (simp add: send_message_def own_headers_def)
qed

section \<open>Reading back what was written\<close>

lemma value_ok_append: "value_ok a \<Longrightarrow> a \<noteq> [] \<Longrightarrow> set b \<inter> {CR, LF, NUL} = {} \<Longrightarrow> value_ok (a @ b)"
  by (auto simp: value_ok_def)

lemma show_nat_plain: "set (show_nat n) \<inter> {CR, LF, NUL} = {}"
  using show_nat_digits isdigit_not_special by blast

lemma value_ok_show_nat: "value_ok (show_nat n)"
proof -
  have "hd (show_nat n) \<noteq> SP"
    using show_nat_digits [of "hd (show_nat n)" n] isdigit_not_special(4) by auto
  with show_nat_plain show ?thesis by (simp add: value_ok_def)
qed

lemma value_ok_show_int: "value_ok (show_int i)"
  using value_ok_show_nat [of "nat (- i)"] value_ok_show_nat [of "nat i"]
  by (auto simp: show_int_def value_ok_def)

lemma date_parts_plain:
  "set (pad2 n) \<inter> {CR, LF, NUL} = {}" "set (show_int i) \<inter> {CR, LF, NUL} = {}"
  "set (month_name m) \<inter> {CR, LF, NUL} = {}"
  using show_nat_plain by (auto simp: pad2_def show_int_def month_name_def)

lemma value_ok_http_date: "value_ok (http_date now)"
proof -
  obtain y m d where ymd: "civil_from_days (now div 86400) = (y, m, d)" by (metis surj_pair)
  have "value_ok (weekday_name w) \<and> weekday_name w \<noteq> []" for w
    by (simp add: weekday_name_def value_ok_def)
  then show ?thesis
    using date_parts_plain unfolding http_date_def Let_def ymd
    by (auto intro!: value_ok_append)
qed

lemma mk_hdr_pair [simp]: "mk_header (hdr_pair h) = h"
  by (simp add: mk_header_def hdr_pair_def)

lemma map_mk_hdr_pair [simp]: "map (mk_header \<circ> hdr_pair) hs = hs"
  by (simp add: comp_def)

lemma headers_ok_Nil [simp]: "headers_ok []"
  by (simp add: headers_ok_def)

lemma headers_ok_Cons [simp]:
  "headers_ok ((n, v) # kvs) \<longleftrightarrow> name_ok n \<and> value_ok v \<and> headers_ok kvs"
  by (simp add: headers_ok_def)

lemma headers_ok_append [simp]: "headers_ok (xs @ ys) \<longleftrightarrow> headers_ok xs \<and> headers_ok ys"
  by (auto simp: headers_ok_def)

lemma content_length_lookup:
  assumes "headers_wf hs" and "\<lparr>h_name = ''Content-Length'', h_value = show_nat n\<rparr> \<in> set hs"
    and "n < 2 ^ 64" and "m_headers m = hs"
  shows "content_length_of m = n"
proof -
  have "headers_lookup hs ''Content-Length'' = Some (show_nat n)"
    using assms(1,2)
    by (induction hs) (auto simp: headers_wf_def strcaseeq_def rev_image_eqI)
  with assms(3,4) show ?thesis
    by (simp add: content_length_of_def http_get_header_def strtoul_show_nat)
qed

text \<open>Requests that the writer can transmit: a known method, a plain path and plain headers.\<close>

definition body_ok :: "http_t \<Rightarrow> bool" where
  "body_ok r \<longleftrightarrow> m_body_len r < 2 ^ 64 \<and>
     (case m_body r of None \<Rightarrow> m_body_len r = 0 | Some b \<Rightarrow> b \<noteq> [] \<and> m_body_len r = length b)"

definition forwarded_headers :: "http_t \<Rightarrow> http_header_t list" where
  "forwarded_headers r = filter (\<lambda>h. \<not> strcaseeq (h_name h) ''Content-Length'') (m_headers r)"

definition request_ok :: "http_t \<Rightarrow> bool" where
  "request_ok r \<longleftrightarrow>
     http_method_to_str (m_method r) \<noteq> None \<and>
     (case m_path r of None \<Rightarrow> False | Some p \<Rightarrow> set p \<inter> {SP, CR, LF, NUL} = {}) \<and>
     m_code r = 0 \<and> m_reason r = None \<and> m_version r = HTTP_VERSION_1_1 \<and>
     headers_ok (map hdr_pair (m_headers r)) \<and> headers_wf (m_headers r) \<and>
     length (forwarded_headers r) < HTTP_MAX_HEADERS \<and> body_ok r"

definition request_head :: "http_t \<Rightarrow> string" where
  "request_head r = the (http_method_to_str (m_method r)) @ [SP] @ the (m_path r) @ '' HTTP/1.1'' @ [CR, LF]
     @ header_text ((''Content-Length'', show_nat (m_body_len r)) # map hdr_pair (forwarded_headers r)) @ [CR, LF]"

definition body_bytes :: "http_t \<Rightarrow> string" where
  "body_bytes r = (case m_body r of None \<Rightarrow> [] | Some b \<Rightarrow> b)"

lemma forwarded_wf:
  assumes "headers_wf (m_headers r)" and "length (forwarded_headers r) < HTTP_MAX_HEADERS"
  shows "headers_wf (\<lparr>h_name = ''Content-Length'', h_value = v\<rparr> # forwarded_headers r)"
proof -
  have "distinct (map (\<lambda>h. map tolower_c (h_name h)) (forwarded_headers r))"
    using assms(1) by (auto simp: headers_wf_def forwarded_headers_def distinct_map_filter)
  with assms(2) show ?thesis
    by (auto simp: headers_wf_def forwarded_headers_def strcaseeq_def)
qed

lemma forwarded_ok: "headers_ok (map hdr_pair (m_headers r)) \<Longrightarrow> headers_ok (map hdr_pair (forwarded_headers r))"
  by (auto simp: headers_ok_def forwarded_headers_def)

lemma name_ok_own: "name_ok ''Content-Length''" "name_ok ''Date''" "name_ok ''Server''"
  by (simp_all add: name_ok_def)

lemma send_request_bytes:
  assumes "request_ok r" and "length (request_head r) < HEADER_SIZE"
  shows "http_send_request True r = Inr (Some (request_head r @ body_bytes r))"
proof -
  obtain ms where ms: "http_method_to_str (m_method r) = Some ms"
    using assms(1) by (auto simp: request_ok_def)
  obtain p where p: "m_path r = Some p"
    using assms(1) by (auto simp: request_ok_def split: option.splits)
  have head: "request_head r = (ms @ [SP] @ p @ '' HTTP/1.1'' @ [CR, LF] @ header_text [(''Content-Length'', show_nat (m_body_len r))])
      @ header_text (map hdr_pair (forwarded_headers r)) @ [CR, LF]"
    by (simp add: request_head_def ms p)
  have bl: "\<And>b. m_body r = Some b \<Longrightarrow> m_body_len r = length b"
    using assms(1) by (auto simp: request_ok_def body_ok_def)
  show ?thesis
    using send_message_fits [OF assms(2) [unfolded head] _ bl, of True]
    unfolding http_send_request_message [OF ms p] forwarded_headers_def [symmetric] head
    by (simp add: body_bytes_def)
qed

lemma parse_request_head:
  assumes "request_ok r"
  shows "http_request_parse (request_head r @ body_bytes r) =
    Inr (r\<lparr>m_headers := \<lparr>h_name = ''Content-Length'', h_value = show_nat (m_body_len r)\<rparr> # forwarded_headers r\<rparr>)"
proof -
  obtain ms where ms: "http_method_to_str (m_method r) = Some ms"
    using assms by (auto simp: request_ok_def)
  obtain p where p: "m_path r = Some p" and pc: "set p \<inter> {SP, CR, LF, NUL} = {}"
    using assms by (auto simp: request_ok_def split: option.splits)
  define kvs where "kvs = (''Content-Length'', show_nat (m_body_len r)) # map hdr_pair (forwarded_headers r)"
  define z where "z = http_zero\<lparr>m_method := m_method r, m_version := HTTP_VERSION_1_1, m_path := Some p\<rparr>"
  define m where "m = z\<lparr>m_headers := m_headers z @ map mk_header kvs\<rparr>"
  have hdrs: "map mk_header kvs = \<lparr>h_name = ''Content-Length'', h_value = show_nat (m_body_len r)\<rparr> # forwarded_headers r"
    by (simp add: kvs_def mk_header_def [of "(''Content-Length'', show_nat (m_body_len r))"])
  have wf: "headers_wf (m_headers z @ map mk_header kvs)"
    using assms by (simp add: hdrs z_def http_zero_def forwarded_wf request_ok_def)
  have ok: "headers_ok kvs" "kvs \<noteq> []"
    using assms by (simp_all add: kvs_def name_ok_own value_ok_show_nat forwarded_ok request_ok_def)
  have len: "m_body_len r = length (body_bytes r)" "m_body_len r < 2 ^ 64"
    using assms by (auto simp: request_ok_def body_ok_def body_bytes_def split: option.splits)
  have cl: "content_length_of m = length (body_bytes r)"
    using content_length_lookup [OF wf _ len(2), of m] len(1) by (simp add: m_def hdrs)
  have buf: "request_head r @ body_bytes r =
      ms @ SP # p @ SP # ''HTTP/1.1'' @ CR # LF # header_text kvs @ CR # LF # body_bytes r"
    by (simp add: request_head_def ms p kvs_def)
  have "http_request_parse (request_head r @ body_bytes r) =
      Inr (http_parse_headers_and_body z (header_text kvs @ CR # LF # body_bytes r))"
    unfolding buf z_def using pc by (intro request_line_parse [OF ms]) (auto simp: is_cstr_def)
  also have "http_parse_headers_and_body z (header_text kvs @ CR # LF # body_bytes r) =
      (if body_bytes r = [] then m else m\<lparr>m_body := Some (body_bytes r), m_body_len := length (body_bytes r)\<rparr>)"
    by (rule parse_written_headers [OF ok wf m_def cl])
  also have "\<dots> = r\<lparr>m_headers := map mk_header kvs\<rparr>"
    using assms p by (cases "m_body r")
      (auto simp: m_def z_def http_zero_def request_ok_def body_ok_def body_bytes_def intro!: http_t.equality)
  finally show ?thesis by (simp add: hdrs)
qed

text \<open>Responses that the writer can transmit without a name of its own header lines repeated.\<close>

definition all_headers :: "int \<Rightarrow> http_t \<Rightarrow> http_header_t list" where
  "all_headers now r = map mk_header (own_headers now r) @ m_headers (with_content_type r)"

definition response_ok :: "int \<Rightarrow> http_t \<Rightarrow> bool" where
  "response_ok now r \<longleftrightarrow>
     0 \<le> m_code r \<and> m_code r < 10 ^ 9 \<and>
     (case m_reason r of None \<Rightarrow> False | Some rs \<Rightarrow> set rs \<inter> {CR, LF, NUL} = {}) \<and>
     m_method r = 0 \<and> m_path r = None \<and> m_version r = HTTP_VERSION_1_1 \<and>
     headers_ok (map hdr_pair (m_headers r)) \<and> headers_wf (all_headers now r) \<and> body_ok r"

definition response_head :: "int \<Rightarrow> http_t \<Rightarrow> string" where
  "response_head now r = ''HTTP/1.1 '' @ show_int (m_code r) @ [SP] @ the (m_reason r) @ [CR, LF]
     @ header_text (own_headers now r @ map hdr_pair (m_headers (with_content_type r))) @ [CR, LF]"

lemma with_content_type_ok:
  assumes "headers_ok (map hdr_pair (m_headers r))"
  shows "headers_ok (map hdr_pair (m_headers (with_content_type r)))"
proof (cases "http_has_header r ''Content-Type''")
  case True
  with assms show ?thesis by (simp add: with_content_type_def)
next
  case False
  then have "headers_overwrite (m_headers r) ''Content-Type'' (mime_type_str MIME_TEXT_PLAIN) = None"
    by (simp add: headers_overwrite_None http_has_header_def http_get_header_def)
  with False assms show ?thesis
    by (auto simp: with_content_type_def http_set_content_type_def http_set_header_def hdr_pair_def
        name_ok_def value_ok_def mime_type_str_def)
qed

lemma send_response_bytes:
  assumes "m_reason r = Some rs" and bl: "\<And>b. m_body r = Some b \<Longrightarrow> m_body_len r = length b"
    and fits: "length (response_head now r) < HEADER_SIZE"
  shows "http_send_response now True r = Inr (Some (response_head now r @ body_bytes r))"
proof -
  have head: "response_head now r = (''HTTP/1.1 '' @ show_int (m_code r) @ [SP] @ rs @ [CR, LF] @ header_text (own_headers now r))
      @ header_text (map hdr_pair (m_headers (with_content_type r))) @ [CR, LF]"
    by (simp add: response_head_def assms(1) header_text_append)
  show ?thesis
    using send_message_fits [OF fits [unfolded head] _ bl, of True]
    unfolding http_send_response_message [OF assms(1)] head
    by (simp add: body_bytes_def)
qed

lemma parse_response_head:
  assumes "response_ok now r"
  shows "http_response_parse (response_head now r @ body_bytes r) =
    Inr (r\<lparr>m_headers := all_headers now r\<rparr>)"
proof -
  obtain rs where rs: "m_reason r = Some rs" and rc: "set rs \<inter> {CR, LF, NUL} = {}"
    using assms by (auto simp: response_ok_def split: option.splits)
  obtain c where c: "m_code r = int c" "c < 10 ^ 9"
    using assms by (auto simp: response_ok_def intro: that [of "nat (m_code r)"])
  define kvs where "kvs = own_headers now r @ map hdr_pair (m_headers (with_content_type r))"
  define z where "z = http_zero\<lparr>m_version := HTTP_VERSION_1_1, m_code := int c, m_reason := Some rs\<rparr>"
  define m where "m = z\<lparr>m_headers := m_headers z @ map mk_header kvs\<rparr>"
  have hdrs: "map mk_header kvs = all_headers now r"
    by (simp add: kvs_def all_headers_def)
  have wf: "headers_wf (m_headers z @ map mk_header kvs)"
    using assms by (simp add: hdrs z_def http_zero_def response_ok_def)
  have ok: "headers_ok kvs" "kvs \<noteq> []"
    using assms with_content_type_ok [of r]
    by (auto simp: kvs_def own_headers_def name_ok_own value_ok_show_nat value_ok_http_date response_ok_def)
      (simp_all add: value_ok_def headers_ok_def)
  have len: "m_body_len r = length (body_bytes r)" "m_body_len r < 2 ^ 64"
    using assms by (auto simp: response_ok_def body_ok_def body_bytes_def split: option.splits)
  have cl: "content_length_of m = length (body_bytes r)"
    using content_length_lookup [OF wf _ len(2), of m] len(1)
    by (simp add: m_def z_def http_zero_def hdrs all_headers_def own_headers_def mk_header_def)
  have buf: "response_head now r @ body_bytes r =
      ''HTTP/1.1 '' @ show_nat c @ SP # rs @ CR # LF # header_text kvs @ CR # LF # body_bytes r"
    by (simp add: response_head_def rs kvs_def c show_int_def)
  have "http_response_parse (response_head now r @ body_bytes r) =
      Inr (http_parse_headers_and_body z (header_text kvs @ CR # LF # body_bytes r))"
    unfolding buf z_def using rc c(2) by (intro status_line_parse) (auto simp: is_cstr_def)
  also have "http_parse_headers_and_body z (header_text kvs @ CR # LF # body_bytes r) =
      (if body_bytes r = [] then m else m\<lparr>m_body := Some (body_bytes r), m_body_len := length (body_bytes r)\<rparr>)"
    by (rule parse_written_headers [OF ok wf m_def cl])
  also have "\<dots> = r\<lparr>m_headers := map mk_header kvs\<rparr>"
    using assms rs c by (cases "m_body r")
      (auto simp: m_def z_def http_zero_def response_ok_def body_ok_def body_bytes_def intro!: http_t.equality)
  finally show ?thesis by (simp add: hdrs)
qed

text \<open>
  Responses that come from a backend: their headers may repeat the names of the lines that the writer adds. What
  they need to be read back is a plain table that still has room, and a Content-Length that is true.
\<close>

definition relay_ok :: "http_t \<Rightarrow> bool" where
  "relay_ok r \<longleftrightarrow> 0 \<le> m_code r \<and> m_code r < 10 ^ 9 \<and>
     (case m_reason r of None \<Rightarrow> False | Some rs \<Rightarrow> set rs \<inter> {CR, LF, NUL} = {}) \<and>
     headers_ok (map hdr_pair (m_headers r)) \<and> headers_wf (m_headers r) \<and> length (m_headers r) + 4 \<le> HTTP_MAX_HEADERS \<and>
     body_ok r \<and> content_length_of r = length (body_bytes r)"

lemma last_value_append:
  "last_value (xs @ ys) n = (case last_value ys n of Some v \<Rightarrow> Some v | None \<Rightarrow> last_value xs n)"
  by (induction xs) (auto split: option.splits)

lemma last_value_absent: "headers_lookup hs n = None \<Longrightarrow> last_value (map hdr_pair hs) n = None"
  by (induction hs) (auto simp: hdr_pair_def split: if_splits)

lemma last_value_lookup:
  "distinct (map (\<lambda>h. map tolower_c (h_name h)) hs) \<Longrightarrow> headers_lookup hs n = Some v \<Longrightarrow> last_value (map hdr_pair hs) n = Some v"
proof (induction hs)
  case (Cons h hs)
  show ?case
  proof (cases "strcaseeq (h_name h) n")
    case True
    then have "headers_lookup hs n = None" using Cons.prems(1) by (auto simp: headers_lookup_None strcaseeq_def)
    with True Cons.prems(2) last_value_absent [of hs n] show ?thesis by (simp add: hdr_pair_def [of h])
  next
    case False
    with Cons show ?thesis by (simp add: hdr_pair_def)
  qed
qed simp

lemma with_content_type_cases:
  "m_headers (with_content_type r) = m_headers r \<or> http_get_header r ''Content-Type'' = None \<and>
   m_headers (with_content_type r) = m_headers r @ [\<lparr>h_name = ''Content-Type'', h_value = mime_type_str MIME_TEXT_PLAIN\<rparr>]"
  by (auto simp: with_content_type_def http_has_header_def http_set_content_type_def http_set_header_def http_get_header_def
      split: option.splits dest: headers_overwrite_SomeD)

lemma with_content_type_keeps:
  assumes "headers_wf (m_headers r)" and "http_get_header r n = Some v"
  shows "last_value (map hdr_pair (m_headers (with_content_type r))) n = Some v"
proof -
  have lv: "last_value (map hdr_pair (m_headers r)) n = Some v"
    using assms by (intro last_value_lookup) (simp_all add: headers_wf_def http_get_header_def)
  have "\<not> strcaseeq ''Content-Type'' n" if "http_get_header r ''Content-Type'' = None"
    using headers_lookup_cong [of "''Content-Type''" n "m_headers r"] that assms(2) by (auto simp: http_get_header_def)
  with with_content_type_cases [of r] lv show ?thesis by (auto simp: last_value_append hdr_pair_def)
qed

text \<open>The last Content-Length line of a relayed response tells the length of its body.\<close>

lemma relayed_length:
  assumes "relay_ok r"
    and "http_get_header m ''Content-Length'' = last_value (own_headers now r @ map hdr_pair (m_headers (with_content_type r))) ''Content-Length''"
  shows "content_length_of m = length (body_bytes r)"
proof (cases "http_get_header r ''Content-Length''")
  case (Some v)
  have "headers_wf (m_headers r)" and len: "content_length_of r = length (body_bytes r)" using assms(1) by (simp_all add: relay_ok_def)
  from with_content_type_keeps [OF this(1) Some] assms(2) len Some show ?thesis by (simp add: last_value_append content_length_of_def)
next
  case None
  then have "body_bytes r = []" using assms(1) by (simp add: relay_ok_def content_length_of_def)
  then have "m_body_len r = 0" using assms(1) by (auto simp: relay_ok_def body_ok_def body_bytes_def split: option.splits)
  moreover have "last_value (map hdr_pair (m_headers (with_content_type r))) ''Content-Length'' = None"
    using with_content_type_cases [of r] last_value_absent None
    by (auto simp: last_value_append hdr_pair_def http_get_header_def strcaseeq_def tolower_c_def)
  ultimately show ?thesis
    using assms(2) \<open>body_bytes r = []\<close> strtoul_show_nat [of 0]
    by (simp add: last_value_append content_length_of_def own_headers_def strcaseeq_def tolower_c_def)
qed

lemma parse_relayed:
  assumes "relay_ok r"
  shows "\<exists>m. http_response_parse (response_head now r @ body_bytes r) = Inr m \<and> m_code m = m_code r \<and> m_reason m = m_reason r \<and>
    m_body m = m_body r \<and> (\<forall>n v. http_get_header r n = Some v \<longrightarrow> http_get_header m n = Some v)"
proof -
  obtain rs where rs: "m_reason r = Some rs" and rc: "set rs \<inter> {CR, LF, NUL} = {}"
    using assms by (auto simp: relay_ok_def split: option.splits)
  obtain c where c: "m_code r = int c" "c < 10 ^ 9"
    using assms by (auto simp: relay_ok_def intro: that [of "nat (m_code r)"])
  define kvs where "kvs = own_headers now r @ map hdr_pair (m_headers (with_content_type r))"
  define z where "z = http_zero\<lparr>m_version := HTTP_VERSION_1_1, m_code := int c, m_reason := Some rs\<rparr>"
  define m where "m = fold (\<lambda>(n, v) m. snd (http_set_header m n v)) kvs z"
  have ok: "headers_ok kvs" "kvs \<noteq> []"
    using assms with_content_type_ok [of r]
    by (auto simp: kvs_def own_headers_def name_ok_own value_ok_show_nat value_ok_http_date relay_ok_def)
      (simp_all add: value_ok_def headers_ok_def)
  have room: "length (m_headers z) + length kvs \<le> HTTP_MAX_HEADERS"
    using assms with_content_type_cases [of r] by (auto simp: z_def http_zero_def kvs_def own_headers_def relay_ok_def)
  have get: "http_get_header m n = last_value kvs n" for n
    using hdrs.get_fold [OF room, of n] by (auto simp: m_def z_def http_zero_def http_get_header_def split: option.splits)
  have keeps: "http_get_header m n = Some v" if "http_get_header r n = Some v" for n v
    using with_content_type_keeps [OF _ that] assms by (simp add: get kvs_def last_value_append relay_ok_def)
  have cl: "content_length_of m = length (body_bytes r)"
    by (rule relayed_length [OF assms]) (simp add: get kvs_def)
  have buf: "response_head now r @ body_bytes r =
      ''HTTP/1.1 '' @ show_nat c @ SP # rs @ CR # LF # header_text kvs @ CR # LF # body_bytes r"
    by (simp add: response_head_def rs kvs_def c show_int_def)
  have "http_response_parse (response_head now r @ body_bytes r) =
      Inr (http_parse_headers_and_body z (header_text kvs @ CR # LF # body_bytes r))"
    unfolding buf z_def using rc c(2) by (intro status_line_parse) (auto simp: is_cstr_def)
  also have "http_parse_headers_and_body z (header_text kvs @ CR # LF # body_bytes r) =
      (if body_bytes r = [] then m else m\<lparr>m_body := Some (body_bytes r), m_body_len := length (body_bytes r)\<rparr>)"
    by (rule parse_written_lines [OF ok m_def cl])
  finally show ?thesis
    using keeps assms rs c by (cases "m_body r")
      (auto simp: m_def fold_set_frame z_def http_zero_def relay_ok_def body_ok_def body_bytes_def http_get_header_def)
qed

section \<open>Short responses\<close>

lemma div_bounds: "0 < k \<Longrightarrow> k * (x div k) \<le> x \<and> x < k * (x div k) + (k :: int)"
  by (metis add.commute add_less_cancel_left mult_div_mod_eq pos_mod_bound pos_mod_sign le_add_same_cancel1)

lemma civil_from_days_bounds:
  assumes "0 \<le> days" and "days < 12000000" and "civil_from_days days = (y, m, d)"
  shows "0 \<le> y \<and> y < 100000 \<and> d < 1000000"
proof -
  define z where "z = days + 719468"
  define era where "era = z div 146097"
  define doe where "doe = z mod 146097"
  define yoe where "yoe = (doe - doe div 1460 + doe div 36524 - doe div 146096) div 365"
  define doy where "doy = doe - (365 * yoe + yoe div 4 - yoe div 100)"
  define mp where "mp = (5 * doy + 2) div 153"
  have yd: "y = (if mp + 3 \<le> 2 \<and> mp < 10 \<or> mp - 9 \<le> 2 \<and> \<not> mp < 10 then yoe + era * 400 + 1 else yoe + era * 400)"
    "d = doy - (153 * mp + 2) div 5 + 1"
    using assms(3)
    unfolding civil_from_days_def Let_def z_def [symmetric] era_def [symmetric] doe_def [symmetric] yoe_def [symmetric]
      doy_def [symmetric] mp_def [symmetric]
    by (auto split: if_splits)
  have doe: "0 \<le> doe" "doe < 146097" by (simp_all add: doe_def)
  have era: "146097 * era \<le> z" "z < 146097 * era + 146097" using div_bounds [of 146097 z] by (simp_all add: era_def)
  have q: "1460 * (doe div 1460) \<le> doe" "doe < 36524 * (doe div 36524) + 36524" "36524 * (doe div 36524) \<le> doe"
      "146096 * (doe div 146096) \<le> doe" "doe < 146096 * (doe div 146096) + 146096" "doe < 1460 * (doe div 1460) + 1460"
    using div_bounds [of 1460 doe] div_bounds [of 36524 doe] div_bounds [of 146096 doe] by simp_all
  have yoe: "365 * yoe \<le> doe - doe div 1460 + doe div 36524 - doe div 146096"
    "doe - doe div 1460 + doe div 36524 - doe div 146096 < 365 * yoe + 365"
    using div_bounds [of 365] by (simp_all add: yoe_def)
  have y4: "4 * (yoe div 4) \<le> yoe" "yoe < 4 * (yoe div 4) + 4" "100 * (yoe div 100) \<le> yoe" "yoe < 100 * (yoe div 100) + 100"
    using div_bounds [of 4 yoe] div_bounds [of 100 yoe] by simp_all
  have mp: "153 * mp \<le> 5 * doy + 2" "5 * doy + 2 < 153 * mp + 153" using div_bounds [of 153 "5 * doy + 2"] by (simp_all add: mp_def)
  have m5: "153 * mp + 2 < 5 * ((153 * mp + 2) div 5) + 5" using div_bounds [of 5 "153 * mp + 2"] by simp
  have "0 \<le> yoe" "yoe \<le> 401" using yoe q doe by linarith+
  moreover have "0 \<le> era" "era \<le> 88" using era assms(1,2) by (simp_all add: z_def)
  moreover have "d < 100" using yd(2) mp m5 by linarith
  ultimately show ?thesis using yd(1) by (auto split: if_splits)
qed

lemma pad2_length: "n < 1000000 \<Longrightarrow> length (pad2 n) \<le> 7"
  using show_nat_length [of n 6] by (simp add: pad2_def)

lemma http_date_short:
  assumes "0 \<le> now" and "now < 1000000000000"
  shows "length (http_date now) \<le> 60"
proof -
  obtain y m d where ymd: "civil_from_days (now div 86400) = (y, m, d)" by (metis surj_pair)
  have days: "0 \<le> now div 86400" "now div 86400 < 12000000"
    using assms div_bounds [of 86400 now] by linarith+
  from civil_from_days_bounds [OF days ymd] have b: "0 \<le> y" "nat y < 100000" "nat d < 1000000" by linarith+
  define hh where "hh = nat (now mod 86400 div 3600)"
  define mm where "mm = nat (now mod 86400 mod 3600 div 60)"
  define ss where "ss = nat (now mod 86400 mod 60)"
  define wd where "wd = (now div 86400 + 4) mod 7"
  have t: "hh < 1000000" "mm < 1000000" "ss < 1000000"
    unfolding hh_def mm_def ss_def
    using div_bounds [of 3600 "now mod 86400"] div_bounds [of 60 "now mod 86400 mod 3600"]
      pos_mod_bound [of 86400 now] pos_mod_bound [of 3600 "now mod 86400"] pos_mod_bound [of 60 "now mod 86400"]
    by linarith+
  have date: "http_date now = weekday_name wd @ '', '' @ pad2 (nat d) @ [SP] @ month_name m @ [SP]
      @ show_int y @ [SP] @ pad2 hh @ '':'' @ pad2 mm @ '':'' @ pad2 ss @ '' GMT''"
    unfolding http_date_def Let_def ymd hh_def mm_def ss_def wd_def by (simp only: prod.case)
  have "length (show_int y) \<le> 5" using b show_nat_length [of "nat y" 5] by (simp add: show_int_def)
  moreover have "length (weekday_name wd) = 3" "length (month_name m) = 3"
    by (simp_all add: weekday_name_def month_name_def)
  ultimately show ?thesis
    using pad2_length [OF b(3)] pad2_length [OF t(1)] pad2_length [OF t(2)] pad2_length [OF t(3)]
    unfolding date by simp
qed

text \<open>
  A response whose reason and headers are short is always sent, or given up when the buffer for
  header and body cannot be allocated.
\<close>

lemma short_response_sent:
  assumes "0 \<le> now" and "now < 1000000000000" and "m_reason r = Some rs" and "0 \<le> m_code r" and "m_code r < 100000"
    and "\<And>b. m_body r = Some b \<Longrightarrow> m_body_len r = length b" and "m_body_len r < 10 ^ 20"
    and "length rs + length (header_text (map hdr_pair (m_headers (with_content_type r)))) \<le> 3800"
  shows "length (response_head now r) < HEADER_SIZE"
    and "http_send_response now alloc_ok r =
      Inr (if alloc_ok \<or> m_body r = None then Some (response_head now r @ body_bytes r) else None)"
proof -
  have "length (show_int (m_code r)) \<le> 5"
    using assms(4,5) show_nat_length [of "nat (m_code r)" 5] by (simp add: show_int_def)
  moreover have "length (show_nat (m_body_len r)) \<le> 20" using show_nat_length [OF assms(7)] by simp
  ultimately show fits: "length (response_head now r) < HEADER_SIZE"
    using assms(3,8) http_date_short [OF assms(1,2)]
    by (simp add: response_head_def header_text_append own_headers_def HEADER_SIZE_def)
  have sent: "http_send_response now True r = Inr (Some (response_head now r @ body_bytes r))"
    by (rule send_response_bytes [OF assms(3,6) fits])
  have eq: "send_header_body alloc_ok bd bl st = (if alloc_ok \<or> bd = None then send_header_body True bd bl st else Inr None)" for bd bl st
    by (auto simp: send_header_body_def split: option.splits prod.splits)
  show "http_send_response now alloc_ok r =
      Inr (if alloc_ok \<or> m_body r = None then Some (response_head now r @ body_bytes r) else None)"
    using sent unfolding http_send_response_message [OF assms(3)] send_message_def
    by (auto simp: eq bind_res_Inr)
qed

lemma error_response_sent:
  assumes "0 \<le> now" and "now < 1000000000000"
    and "r \<in> {REQUEST_TIMEOUT, BAD_REQUEST, NOT_IMPLEMENTED, VERSION_NOT_SUPPORTED, NOT_FOUND, NOT_ALLOWED, BAD_GATEWAY}"
  shows "http_send_response now True r = Inr (Some (response_head now r @ body_bytes r))"
proof -
  have "\<exists>rs. m_reason r = Some rs \<and> length rs + length (header_text (map hdr_pair (m_headers (with_content_type r)))) \<le> 3800"
    and "0 \<le> m_code r \<and> m_code r < 100000 \<and> m_body r = m_reason r \<and> m_body_len r = length (the (m_reason r)) \<and> m_body_len r < 10 ^ 20"
    using assms(3) by (auto simp: status_defs text_plain_header_def allow_header_def hdr_pair_def with_content_type_def
        http_has_header_def http_get_header_def strcaseeq_def)
  then obtain rs where "m_reason r = Some rs" "length rs + length (header_text (map hdr_pair (m_headers (with_content_type r)))) \<le> 3800"
    "0 \<le> m_code r" "m_code r < 100000" "m_body r = Some rs" "m_body_len r = length rs" "m_body_len r < 10 ^ 20" by auto
  with short_response_sent(2) [OF assms(1,2), of r rs True] show ?thesis by simp
qed

section \<open>Properties of the writers\<close>

text \<open>
  C10: A request that \<open>http_send_request\<close> writes is read back by \<open>http_request_parse\<close> as the same
  request, whose headers are the writer's own Content-Length followed by the request's other
  headers in order: the proxy forwards what the client asked. The hypotheses are that method,
  path and headers are printable as one line each, and that the header fits the 4096-byte array.
\<close>

theorem request_roundtrip:
  assumes "request_ok r" and "length (request_head r) < HEADER_SIZE"
  shows "\<exists>bytes. http_send_request True r = Inr (Some bytes) \<and>
    http_request_parse bytes = Inr (r\<lparr>m_headers :=
      \<lparr>h_name = ''Content-Length'', h_value = show_nat (m_body_len r)\<rparr> # forwarded_headers r\<rparr>)"
  using send_request_bytes [OF assms] parse_request_head [OF assms(1)] by blast

definition sample_request :: http_t where
  "sample_request = \<lparr>m_method = REQUEST_POST, m_path = Some ''/api/x'', m_code = 0, m_reason = None,
     m_version = HTTP_VERSION_1_1,
     m_headers = [\<lparr>h_name = ''Host'', h_value = ''a.b:80''\<rparr>, \<lparr>h_name = ''content-length'', h_value = ''2''\<rparr>],
     m_body = Some ''hi'', m_body_len = 2\<rparr>"

lemmas ok_defs = request_ok_def response_ok_def body_ok_def headers_ok_def name_ok_def value_ok_def
  headers_wf_def forwarded_headers_def hdr_pair_def strcaseeq_def tolower_c_def HTTP_MAX_HEADERS_def
  http_method_to_str_def

lemma sample_request_ok: "request_ok sample_request"
  by (simp add: sample_request_def ok_defs request_defs)

lemma sample_request_fits: "length (request_head sample_request) < HEADER_SIZE"
  by code_simp

theorem request_roundtrip_witness:
  "\<exists>bytes. http_send_request True sample_request = Inr (Some bytes) \<and>
    http_request_parse bytes = Inr (sample_request\<lparr>m_headers :=
      \<lparr>h_name = ''Content-Length'', h_value = show_nat (m_body_len sample_request)\<rparr> # forwarded_headers sample_request\<rparr>)"
  by (rule request_roundtrip [OF sample_request_ok sample_request_fits])

text \<open>
  C17: A response that \<open>http_send_response\<close> writes is read back by \<open>http_response_parse\<close> with the
  same status, reason and body, and with the headers Date, Server and Content-Length before
  the response's own (Content-Type added when it was missing).
\<close>

theorem response_roundtrip:
  assumes "response_ok now r" and "length (response_head now r) < HEADER_SIZE"
  shows "\<exists>bytes. http_send_response now True r = Inr (Some bytes) \<and>
    http_response_parse bytes = Inr (r\<lparr>m_headers := all_headers now r\<rparr>)"
proof -
  obtain rs where rs: "m_reason r = Some rs"
    using assms(1) by (auto simp: response_ok_def split: option.splits)
  have "\<And>b. m_body r = Some b \<Longrightarrow> m_body_len r = length b"
    using assms(1) by (auto simp: response_ok_def body_ok_def)
  from send_response_bytes [OF rs this assms(2)] parse_response_head [OF assms(1)]
  show ?thesis by blast
qed

definition sample_response :: http_t where
  "sample_response = \<lparr>m_method = 0, m_path = None, m_code = 200, m_reason = Some ''OK'',
     m_version = HTTP_VERSION_1_1, m_headers = [\<lparr>h_name = ''X-A'', h_value = ''1''\<rparr>],
     m_body = Some ''hello'', m_body_len = 5\<rparr>"

lemma sample_response_ok: "response_ok 784111777 sample_response"
  by (simp add: sample_response_def ok_defs all_headers_def own_headers_def mk_header_def
      with_content_type_def http_has_header_def http_get_header_def http_set_content_type_def
      http_set_header_def)

lemma sample_response_fits: "length (response_head 784111777 sample_response) < HEADER_SIZE"
  by code_simp

theorem response_roundtrip_witness:
  "\<exists>bytes. http_send_response 784111777 True sample_response = Inr (Some bytes) \<and>
    http_response_parse bytes = Inr (sample_response\<lparr>m_headers := all_headers 784111777 sample_response\<rparr>)"
  by (rule response_roundtrip [OF sample_response_ok sample_response_fits])

text \<open>
  C35: A response whose header is longer than the 4096-byte array makes \<open>http_send_response\<close> leave
  the array: \<open>snprintf\<close> returns the untruncated length, so the sum passes the size of the array
  and is then used as the number of bytes to read from it. Here the length comes from a header
  value, as with a long redirect target.
\<close>

theorem response_header_overflow:
  assumes "m_reason r = Some rs" and "h \<in> set (m_headers r)" and "HEADER_SIZE \<le> length (h_value h)"
    and "http_has_header r ''Content-Type''" and "m_body r = None \<or> alloc_ok"
  shows "http_send_response now alloc_ok r = Inl Undefined"
proof -
  have "h \<in> set hs \<Longrightarrow> length (h_value h) \<le> length (header_text (map hdr_pair hs))" for hs
    by (induction hs) (auto simp: hdr_pair_def)
  from this [OF assms(2)] assms(3) show ?thesis
    unfolding http_send_response_message [OF assms(1)]
    by (intro send_message_overflow [OF _ assms(5)]) (simp add: with_content_type_def assms(4))
qed

theorem response_header_overflow_witness:
  "http_send_response 0 True (HTTP_MOVED (replicate 5000 CHR ''a'')) = Inl Undefined"
  by (rule response_header_overflow [where h = "\<lparr>h_name = ''Location'', h_value = replicate 5000 CHR ''a''\<rparr>"])
     (simp_all add: status_defs HEADER_SIZE_def http_has_header_def http_get_header_def text_plain_header_def strcaseeq_def)

text \<open>
  \<open>http_send_response\<close> writes its own Content-Length line and then every header of the response,
  a Content-Length among them too: a response that carries one, as every parsed backend
  response does, goes out with two Content-Length lines. (\<open>http_send_request\<close> leaves the second out.)
\<close>

theorem content_length_sent_twice:
  assumes "m_reason r = Some rs" and "m_headers r = hs1 @ \<lparr>h_name = ''Content-Length'', h_value = v\<rparr> # hs2"
    and "http_has_header r ''Content-Type''" and "\<And>b. m_body r = Some b \<Longrightarrow> m_body_len r = length b"
    and "length (response_head now r) < HEADER_SIZE"
  shows "\<exists>a b c. http_send_response now True r = Inr (Some (a
    @ ''Content-Length: '' @ show_nat (m_body_len r) @ [CR, LF] @ b @ ''Content-Length: '' @ v @ [CR, LF] @ c))"
proof -
  have "response_head now r @ body_bytes r = (''HTTP/1.1 '' @ show_int (m_code r) @ [SP] @ rs @ [CR, LF]
      @ header_text [(''Date'', http_date now), (''Server'', ''Foxtails'')])
      @ ''Content-Length: '' @ show_nat (m_body_len r) @ [CR, LF] @ header_text (map hdr_pair hs1)
      @ ''Content-Length: '' @ v @ [CR, LF] @ (header_text (map hdr_pair hs2) @ [CR, LF] @ body_bytes r)"
    by (simp add: response_head_def assms(1,2,3) with_content_type_def own_headers_def header_text_append hdr_pair_def [of "\<lparr>h_name = _, h_value = _\<rparr>"])
  with send_response_bytes [OF assms(1,4,5)] show ?thesis by metis
qed

definition backend_response :: http_t where
  "backend_response = http_zero\<lparr>m_code := 200, m_reason := Some ''OK'', m_headers :=
     [text_plain_header, \<lparr>h_name = ''Content-Length'', h_value = ''2''\<rparr>], m_body := Some ''hi'', m_body_len := 2\<rparr>"

theorem content_length_sent_twice_witness:
  "\<exists>a b c. http_send_response 0 True backend_response = Inr (Some (a
    @ ''Content-Length: '' @ show_nat 2 @ [CR, LF] @ b @ ''Content-Length: '' @ ''2'' @ [CR, LF] @ c))"
proof -
  have "length (response_head 0 backend_response) < HEADER_SIZE"
    by (rule short_response_sent(1) [where rs = "''OK''"]) (simp_all add: backend_response_def http_zero_def text_plain_header_def hdr_pair_def with_content_type_def
      http_has_header_def http_get_header_def strcaseeq_def)
  from content_length_sent_twice [OF _ _ _ _ this, of "''OK''" "[text_plain_header]" "''2''" "[]"] show ?thesis
    by (simp add: backend_response_def text_plain_header_def http_has_header_def http_get_header_def strcaseeq_def)
qed

lemma http_date_sample: "http_date 784111777 = ''Sun, 06 Nov 1994 08:49:37 GMT''"
  by code_simp

end
