(* ===== verification/Workers.thy ===== *)
theory Workers
  imports Foxtails_Prelude
begin

text \<open>
  The command queue of the worker pool (\<open>include/workers.h\<close>, \<open>utils/workers.c\<close>): a ring buffer
  that doubles when it is nearly full. Indices are 32-bit words as in the code. The lock is the
  subject of the theory \<open>Worker_Threads\<close>; here each operation is the part between lock and unlock.
\<close>

section \<open>Definitions\<close>

definition WORKER_ACTION_NOOP :: int where "WORKER_ACTION_NOOP = 0"
definition WORKER_ACTION_NEW_CLIENT :: int where "WORKER_ACTION_NEW_CLIENT = 1"

definition WORKER_ACTION_PAYLOAD_SIZE :: nat where "WORKER_ACTION_PAYLOAD_SIZE = 128"

text \<open>\<open>sizeof(client_t)\<close> on a 64-bit system; see \<open>include/server.h\<close>.\<close>

definition CLIENT_SIZE :: nat where "CLIENT_SIZE = 64"

record worker_action_t =
  a_lock :: bool
  a_exists :: bool
  a_type :: int
  a_payload :: string

definition zero_action :: worker_action_t where
  "zero_action = \<lparr>a_lock = False, a_exists = False, a_type = 0,
     a_payload = replicate WORKER_ACTION_PAYLOAD_SIZE NUL\<rparr>"

record worker_queue =
  q_data :: "worker_action_t list"
  q_head :: "32 word"
  q_count :: "32 word"
  q_capacity :: "32 word"
  q_shutting_down :: bool

definition init_queue :: "bool \<Rightarrow> worker_queue res" where
  "init_queue alloc_ok =
     (if \<not> alloc_ok then Inl Exit_fail
      else Inr \<lparr>q_data = replicate 8 zero_action, q_head = 0, q_count = 0, q_capacity = 8,
             q_shutting_down = False\<rparr>)"

text \<open>The copy into the doubled array, slot 0 upwards.\<close>

definition resized_data :: "worker_queue \<Rightarrow> 32 word \<Rightarrow> worker_action_t list" where
  "resized_data q new_capacity =
     map (\<lambda>i. q_data q ! unat ((q_head q + of_nat i) mod q_capacity q)) [0..<unat (q_count q)]
     @ replicate (unat new_capacity - unat (q_count q)) zero_action"

text \<open>
  The resize of \<open>dispatch_command\<close>: \<open>None\<close> when the allocation fails and the command is given up.
  A doubled capacity that wraps to zero fails the assertion of \<open>palloc\<close>.
\<close>

definition queue_reserve :: "bool \<Rightarrow> worker_queue \<Rightarrow> worker_queue option res" where
  "queue_reserve alloc_ok q =
     (if q_count q + 1 \<ge> q_capacity q then
        let new_capacity = q_capacity q * 2 in
        if new_capacity = 0 then Inl Assert_fail
        else if \<not> alloc_ok then Inr None
        else Inr (Some (q\<lparr>q_data := resized_data q new_capacity, q_head := 0,
                          q_capacity := new_capacity\<rparr>))
      else Inr (Some q))"

definition store_payload :: "string option \<Rightarrow> nat \<Rightarrow> string \<Rightarrow> string" where
  "store_payload payload payload_size old =
     (case payload of
        None \<Rightarrow> old
      | Some p \<Rightarrow> if payload_size > 0 then take payload_size p @ drop payload_size old else old)"

definition queue_put :: "int \<Rightarrow> string option \<Rightarrow> nat \<Rightarrow> worker_queue \<Rightarrow> worker_queue" where
  "queue_put action payload payload_size q =
     (let tail = unat ((q_head q + q_count q) mod q_capacity q);
          slot = q_data q ! tail
      in q\<lparr>q_data := (q_data q)[tail := slot\<lparr>a_exists := True, a_lock := False, a_type := action,
              a_payload := store_payload payload payload_size (a_payload slot)\<rparr>],
           q_count := q_count q + 1\<rparr>)"

text \<open>A payload pointer must lead to at least \<open>payload_size\<close> bytes.\<close>

definition dispatch_command ::
  "bool \<Rightarrow> worker_queue \<Rightarrow> int \<Rightarrow> string option \<Rightarrow> nat \<Rightarrow> worker_queue res" where
  "dispatch_command alloc_ok q action payload payload_size =
     (if payload_size > WORKER_ACTION_PAYLOAD_SIZE then Inl Assert_fail
      else if (case payload of None \<Rightarrow> False | Some p \<Rightarrow> length p < payload_size) then Inl Undefined
      else bind_res (queue_reserve alloc_ok q) (\<lambda>r.
        case r of None \<Rightarrow> Inr q | Some q' \<Rightarrow> Inr (queue_put action payload payload_size q')))"

definition dispatch_client :: "bool \<Rightarrow> worker_queue \<Rightarrow> string \<Rightarrow> worker_queue res" where
  "dispatch_client alloc_ok q client =
     dispatch_command alloc_ok q WORKER_ACTION_NEW_CLIENT (Some client) CLIENT_SIZE"

text \<open>\<open>worker_loop\<close>: what a worker does to the queue before and after the callback.\<close>

definition queue_take :: "worker_queue \<Rightarrow> nat \<times> worker_queue" where
  "queue_take q =
     (let idx = unat (q_head q); slot = q_data q ! idx
      in (idx, q\<lparr>q_data := (q_data q)[idx := slot\<lparr>a_lock := True, a_exists := False\<rparr>],
              q_head := (q_head q + 1) mod q_capacity q, q_count := q_count q - 1\<rparr>))"

definition queue_release :: "nat \<Rightarrow> worker_queue \<Rightarrow> worker_queue" where
  "queue_release idx q = q\<lparr>q_data := (q_data q)[idx := (q_data q ! idx)\<lparr>a_lock := False\<rparr>]\<rparr>"

section \<open>Invariant and abstraction\<close>

definition queue_inv :: "worker_queue \<Rightarrow> bool" where
  "queue_inv q \<longleftrightarrow> length (q_data q) = unat (q_capacity q) \<and> 8 \<le> unat (q_capacity q) \<and>
     unat (q_capacity q) \<le> 2 ^ 31 \<and> (\<exists>k. unat (q_capacity q) = 2 ^ k) \<and> unat (q_head q) < unat (q_capacity q) \<and>
     unat (q_count q) < unat (q_capacity q) \<and>
     (\<forall>a\<in>set (q_data q). length (a_payload a) = WORKER_ACTION_PAYLOAD_SIZE)"

text \<open>The queued commands, oldest first.\<close>

definition queue_slots :: "worker_queue \<Rightarrow> worker_action_t list" where
  "queue_slots q = map (\<lambda>i. q_data q ! ((unat (q_head q) + i) mod unat (q_capacity q))) [0..<unat (q_count q)]"

definition queue_items :: "worker_queue \<Rightarrow> (int \<times> string) list" where
  "queue_items q = map (\<lambda>a. (a_type a, take CLIENT_SIZE (a_payload a))) (queue_slots q)"

lemma unat_ring_index:
  assumes "queue_inv q" and "i < unat (q_capacity q)"
  shows "unat ((q_head q + of_nat i) mod q_capacity q) = (unat (q_head q) + i) mod unat (q_capacity q)"
proof -
  have bound: "i < 2 ^ 32" "unat (q_head q) + i < 2 ^ 32"
    using assms by (auto simp: queue_inv_def)
  then have "unat (of_nat i :: 32 word) = i"
    by (simp add: unsigned_of_nat take_bit_nat_eq_self)
  with bound(2) have "unat (q_head q + of_nat i) = unat (q_head q) + i"
    by (simp add: unat_word_ariths)
  then show ?thesis by (simp add: unat_mod)
qed

lemma mod_add_eq_iff:
  fixes h i j n :: nat
  assumes "i < n" and "j < n"
  shows "(h + i) mod n = (h + j) mod n \<longleftrightarrow> i = j"
proof -
  have "i = j" if le: "i \<le> j" and eq: "(h + i) mod n = (h + j) mod n" and "j < n" for i j
  proof -
    have "n dvd (h + j) - (h + i)" using eq le by (metis add_left_mono mod_eq_dvd_iff_nat)
    then have "n dvd j - i" by simp
    then show ?thesis using le that(3) by (metis dvd_imp_le diff_is_0_eq le_antisym less_imp_diff_less not_less zero_less_diff)
  qed
  with assms show ?thesis by (metis nat_le_linear)
qed

lemma resized_data_slots:
  "queue_inv q \<Longrightarrow> resized_data q c = queue_slots q @ replicate (unat c - unat (q_count q)) zero_action"
  by (auto simp: resized_data_def queue_slots_def queue_inv_def unat_ring_index intro!: map_cong)

lemma ring_index_less: "queue_inv q \<Longrightarrow> (unat (q_head q) + i) mod unat (q_capacity q) < length (q_data q)"
  by (simp add: queue_inv_def)

lemma queue_slots_mem: "queue_inv q \<Longrightarrow> a \<in> set (queue_slots q) \<Longrightarrow> a \<in> set (q_data q)"
  by (auto simp: queue_slots_def ring_index_less)

lemma queue_slots_length [simp]: "length (queue_slots q) = unat (q_count q)"
  by (simp add: queue_slots_def)

section \<open>Operations keep the invariant and act as a queue\<close>

lemma init_queue_inv:
  assumes "init_queue True = Inr q"
  shows "queue_inv q" and "queue_slots q = []" and "unat (q_capacity q) = 8"
  using assms
  by (auto simp: init_queue_def queue_inv_def queue_slots_def zero_action_def intro!: exI [of _ 3])

lemma doubled_capacity:
  assumes "queue_inv q" and "q_capacity q * 2 \<noteq> 0"
  shows "unat (q_capacity q * 2) = 2 * unat (q_capacity q)" and "2 * unat (q_capacity q) \<le> 2 ^ 31"
    and "\<exists>k. 2 * unat (q_capacity q) = 2 ^ k"
proof -
  have cap: "unat (q_capacity q) \<le> 2 ^ 31" using assms(1) by (simp add: queue_inv_def)
  obtain k where k: "unat (q_capacity q) = 2 ^ k" using assms(1) by (auto simp: queue_inv_def)
  show c: "unat (q_capacity q * 2) = 2 * unat (q_capacity q)"
  proof (cases "unat (q_capacity q) = 2 ^ 31")
    case True
    then have "unat (q_capacity q * 2) = 0" by (simp add: unat_word_ariths)
    with assms(2) show ?thesis by (simp add: unat_eq_0)
  next
    case False
    with cap show ?thesis by (simp add: unat_word_ariths)
  qed
  have "2 ^ Suc k < (2 ^ 32 :: nat)" using c k unsigned_less [of "q_capacity q * 2", where ?'a = nat] by simp
  then have "Suc k \<le> 31" by (simp only: power_strict_increasing_iff)
  then have "2 ^ Suc k \<le> (2 ^ 31 :: nat)" by (rule power_increasing) simp
  then show "2 * unat (q_capacity q) \<le> 2 ^ 31" and "\<exists>k. 2 * unat (q_capacity q) = 2 ^ k"
    using k by (auto intro!: exI [of _ "Suc k"])
qed

lemma queue_resize:
  assumes "queue_inv q" and "q_capacity q * 2 \<noteq> 0"
    and "q' = q\<lparr>q_data := resized_data q (q_capacity q * 2), q_head := 0, q_capacity := q_capacity q * 2\<rparr>"
  shows "queue_inv q'" and "queue_slots q' = queue_slots q" and "unat (q_count q') + 1 < unat (q_capacity q')"
proof -
  note c = doubled_capacity [OF assms(1,2)]
  have inv: "8 \<le> unat (q_capacity q)" "unat (q_count q) < unat (q_capacity q)"
    using assms(1) by (auto simp: queue_inv_def)
  have "length (a_payload a) = WORKER_ACTION_PAYLOAD_SIZE" if "a \<in> set (queue_slots q)" for a
    using queue_slots_mem [OF assms(1) that] assms(1) by (simp add: queue_inv_def)
  with c inv show "queue_inv q'"
    by (auto simp: assms(3) queue_inv_def resized_data_slots [OF assms(1)] zero_action_def)
  show "queue_slots q' = queue_slots q"
    using inv c by (auto simp: assms(3) queue_slots_def [of "q\<lparr>q_data := d, q_head := h, q_capacity := e\<rparr>" for d h e]
        resized_data_slots [OF assms(1)] nth_append intro!: nth_equalityI)
  show "unat (q_count q') + 1 < unat (q_capacity q')" using c inv by (simp add: assms(3))
qed

lemma queue_reserve_inv:
  assumes "queue_inv q" and "queue_reserve alloc_ok q = Inr (Some q')"
  shows "queue_inv q'" and "queue_slots q' = queue_slots q" and "unat (q_count q') + 1 < unat (q_capacity q')"
    and "q_shutting_down q' = q_shutting_down q"
proof -
  have "unat (q_count q) < 2 ^ 31" using assms(1) by (auto simp: queue_inv_def)
  then have suc: "unat (q_count q + 1) = unat (q_count q) + 1" by (simp add: unat_word_ariths)
  have "queue_inv q' \<and> queue_slots q' = queue_slots q \<and>
      unat (q_count q') + 1 < unat (q_capacity q') \<and> q_shutting_down q' = q_shutting_down q"
  proof (cases "q_count q + 1 \<ge> q_capacity q")
    case True
    with assms(2) have nz: "q_capacity q * 2 \<noteq> 0"
      and q': "q' = q\<lparr>q_data := resized_data q (q_capacity q * 2), q_head := 0, q_capacity := q_capacity q * 2\<rparr>"
      by (simp_all add: queue_reserve_def Let_def split: if_splits)
    from queue_resize [OF assms(1) nz q'] show ?thesis by (simp add: q')
  next
    case False
    with assms suc show ?thesis by (simp add: queue_reserve_def word_le_nat_alt)
  qed
  then show "queue_inv q'" and "queue_slots q' = queue_slots q" and "unat (q_count q') + 1 < unat (q_capacity q')"
    and "q_shutting_down q' = q_shutting_down q" by simp_all
qed

lemma store_payload_length:
  "length old = WORKER_ACTION_PAYLOAD_SIZE \<Longrightarrow> n \<le> WORKER_ACTION_PAYLOAD_SIZE \<Longrightarrow>
   (case payload of None \<Rightarrow> True | Some p \<Rightarrow> n \<le> length p) \<Longrightarrow>
   length (store_payload payload n old) = WORKER_ACTION_PAYLOAD_SIZE"
  by (auto simp: store_payload_def split: option.splits)

lemma queue_put_slots:
  assumes "queue_inv q" and "unat (q_count q) + 1 < unat (q_capacity q)" and "q' = queue_put action payload n q"
    and "n \<le> WORKER_ACTION_PAYLOAD_SIZE" and "case payload of None \<Rightarrow> True | Some p \<Rightarrow> n \<le> length p"
  shows "queue_inv q'" and "\<exists>old. queue_slots q' = queue_slots q @ [\<lparr>a_lock = False, a_exists = True,
      a_type = action, a_payload = store_payload payload n old\<rparr>]"
proof -
  let ?c = "unat (q_capacity q)" and ?h = "unat (q_head q)" and ?k = "unat (q_count q)"
  have inv: "length (q_data q) = ?c" "?k < ?c" "?h < ?c" "?c \<le> 2 ^ 31"
    "\<forall>a\<in>set (q_data q). length (a_payload a) = WORKER_ACTION_PAYLOAD_SIZE"
    using assms(1) by (auto simp: queue_inv_def)
  have tail: "unat ((q_head q + q_count q) mod q_capacity q) = (?h + ?k) mod ?c"
    using unat_ring_index [OF assms(1) inv(2)] by simp
  define t where "t = (?h + ?k) mod ?c"
  define new where "new = (q_data q ! t)\<lparr>a_exists := True, a_lock := False, a_type := action,
    a_payload := store_payload payload n (a_payload (q_data q ! t))\<rparr>"
  have t: "t < length (q_data q)" using inv by (simp add: t_def)
  have q': "q' = q\<lparr>q_data := (q_data q)[t := new], q_count := q_count q + 1\<rparr>"
    by (simp add: assms(3) queue_put_def tail t_def new_def Let_def)
  have suc: "unat (q_count q + 1) = ?k + 1" using inv(2,4) by (simp add: unat_word_ariths)
  have "length (a_payload (q_data q ! t)) = WORKER_ACTION_PAYLOAD_SIZE" using inv(5) t by simp
  then have "length (a_payload new) = WORKER_ACTION_PAYLOAD_SIZE"
    using store_payload_length assms(4,5) by (simp add: new_def)
  then show "queue_inv q'"
    using assms(1,2) suc by (auto simp: q' queue_inv_def dest!: set_update_subset_insert [THEN subsetD])
  have "(q_data q)[t := new] ! ((?h + i) mod ?c) = q_data q ! ((?h + i) mod ?c)" if "i < ?k" for i
    using that inv(2) mod_add_eq_iff [of i ?c ?k ?h] by (simp add: t_def nth_list_update)
  then have "queue_slots q' = queue_slots q @ [new]"
    using t by (simp add: q' queue_slots_def suc t_def [symmetric])
  then show "\<exists>old. queue_slots q' = queue_slots q @ [\<lparr>a_lock = False, a_exists = True,
      a_type = action, a_payload = store_payload payload n old\<rparr>]"
    by (auto simp: new_def intro!: exI [of _ "a_payload (q_data q ! t)"])
qed

lemma queue_take_slots:
  assumes "queue_inv q" and "q_count q \<noteq> 0" and "queue_take q = (idx, q')"
  shows "queue_inv q'" and "idx < length (q_data q')" and "queue_slots q = q_data q ! idx # queue_slots q'"
    and "q_data q' ! idx = (q_data q ! idx)\<lparr>a_lock := True, a_exists := False\<rparr>"
proof -
  let ?c = "unat (q_capacity q)" and ?h = "unat (q_head q)" and ?k = "unat (q_count q)"
  let ?new = "(q_data q ! ?h)\<lparr>a_lock := True, a_exists := False\<rparr>"
  have inv: "length (q_data q) = ?c" "?k < ?c" "?h < ?c" "?c \<le> 2 ^ 31"
    using assms(1) by (auto simp: queue_inv_def)
  have q': "q' = q\<lparr>q_data := (q_data q)[?h := ?new], q_head := (q_head q + 1) mod q_capacity q,
      q_count := q_count q - 1\<rparr>" and idx: "idx = ?h"
    using assms(3) by (auto simp: queue_take_def Let_def)
  have pos: "0 < ?k" using assms(2) by (simp add: unat_gt_0)
  then have pred: "unat (q_count q - 1) = ?k - 1" using assms(2) by (simp add: unat_minus_one)
  have hd: "unat ((q_head q + 1) mod q_capacity q) = (?h + 1) mod ?c"
    using unat_ring_index [OF assms(1), of 1] inv(2) pos by simp
  have "length (a_payload (q_data q ! ?h)) = WORKER_ACTION_PAYLOAD_SIZE"
    using assms(1) inv(1,3) by (simp add: queue_inv_def)
  then show "queue_inv q'"
    using assms(1) inv hd pred
    by (auto simp: q' queue_inv_def dest!: set_update_subset_insert [THEN subsetD])
  show "idx < length (q_data q')" and "q_data q' ! idx = (q_data q ! idx)\<lparr>a_lock := True, a_exists := False\<rparr>"
    using inv by (simp_all add: q' idx)
  obtain m where m: "?k = Suc m" using pos by (cases ?k) auto
  have "(q_data q)[?h := ?new] ! (((?h + 1) mod ?c + i) mod ?c) = q_data q ! ((?h + Suc i) mod ?c)" if "i < m" for i
  proof -
    have "((?h + 1) mod ?c + i) mod ?c = (?h + Suc i) mod ?c" by (simp add: mod_simps)
    moreover have "(?h + Suc i) mod ?c \<noteq> (?h + 0) mod ?c"
      using that m inv(2) mod_add_eq_iff [of "Suc i" ?c 0 ?h] by simp
    ultimately show ?thesis using inv(3) by (simp add: nth_list_update)
  qed
  then have "queue_slots q' = map (\<lambda>i. q_data q ! ((?h + Suc i) mod ?c)) [0..<m]"
    by (simp add: q' queue_slots_def hd pred m)
  also have "q_data q ! ?h # \<dots> = queue_slots q"
    using inv(3) by (simp add: queue_slots_def m upt_conv_Cons map_Suc_upt [symmetric] comp_def del: upt_Suc)
  finally show "queue_slots q = q_data q ! idx # queue_slots q'" by (simp add: idx)
qed

section \<open>The contract of a queue\<close>

text \<open>A schedule of operations, and what it hands out.\<close>

datatype 'a queue_op = Enq 'a | Deq

fun enqueued :: "'a queue_op list \<Rightarrow> 'a list" where
  "enqueued [] = []"
| "enqueued (Enq x # ops) = x # enqueued ops"
| "enqueued (Deq # ops) = enqueued ops"

fun run_queue :: "('a \<Rightarrow> 'q \<Rightarrow> 'q) \<Rightarrow> ('q \<Rightarrow> bool) \<Rightarrow> ('q \<Rightarrow> 'a \<times> 'q) \<Rightarrow> 'a queue_op list \<Rightarrow> 'q \<Rightarrow> 'a list \<times> 'q" where
  "run_queue enq is_empty deq [] q = ([], q)"
| "run_queue enq is_empty deq (Enq x # ops) q = run_queue enq is_empty deq ops (enq x q)"
| "run_queue enq is_empty deq (Deq # ops) q =
     (if is_empty q then run_queue enq is_empty deq ops q
      else let (x, q1) = deq q; (xs, q2) = run_queue enq is_empty deq ops q1 in (x # xs, q2))"

locale fifo =
  fixes enq :: "'a \<Rightarrow> 'q \<Rightarrow> 'q"
    and is_empty :: "'q \<Rightarrow> bool"
    and deq :: "'q \<Rightarrow> 'a \<times> 'q"
    and items :: "'q \<Rightarrow> 'a list"
    and inv :: "'q \<Rightarrow> bool"
    and okay :: "'a \<Rightarrow> bool"
    and limit :: nat
  assumes enq_inv: "inv q \<Longrightarrow> okay x \<Longrightarrow> length (items q) < limit \<Longrightarrow> inv (enq x q)"
    and enq_items: "inv q \<Longrightarrow> okay x \<Longrightarrow> length (items q) < limit \<Longrightarrow> items (enq x q) = items q @ [x]"
    and is_empty_items: "inv q \<Longrightarrow> is_empty q \<longleftrightarrow> items q = []"
    and deq_inv: "inv q \<Longrightarrow> items q \<noteq> [] \<Longrightarrow> inv (snd (deq q))"
    and deq_items: "inv q \<Longrightarrow> items q \<noteq> [] \<Longrightarrow> items q = fst (deq q) # items (snd (deq q))"
begin

lemma deq_later:
  "inv q \<Longrightarrow> n \<le> length (items q) \<Longrightarrow> inv (((\<lambda>q. snd (deq q)) ^^ n) q) \<and> items (((\<lambda>q. snd (deq q)) ^^ n) q) = drop n (items q)"
proof (induction n)
  case (Suc n)
  let ?q = "((\<lambda>q. snd (deq q)) ^^ n) q"
  have q: "inv ?q" "items ?q = drop n (items q)" "items ?q \<noteq> []" using Suc by auto
  with deq_items [OF q(1,3)] deq_inv [OF q(1,3)] show ?case by (metis drop_Suc funpow.simps(2) list.sel(3) o_apply tl_drop)
qed simp

lemma deq_nth:
  assumes "inv q" and "n < length (items q)"
  shows "fst (deq (((\<lambda>q. snd (deq q)) ^^ n) q)) = items q ! n"
proof -
  let ?q = "((\<lambda>q. snd (deq q)) ^^ n) q"
  have q: "inv ?q" "items ?q = drop n (items q)" using deq_later [OF assms(1), of n] assms(2) by auto
  with assms(2) deq_items [of ?q] show ?thesis by (metis Cons_nth_drop_Suc list.distinct(1) list.inject)
qed

lemma run_order:
  "inv q \<Longrightarrow> \<forall>x\<in>set (enqueued ops). okay x \<Longrightarrow> length (items q) + length (enqueued ops) \<le> limit \<Longrightarrow>
   run_queue enq is_empty deq ops q = (out, q') \<Longrightarrow>
   inv q' \<and> out @ items q' = items q @ enqueued ops"
proof (induction ops arbitrary: q out q')
  case (Cons op ops)
  show ?case
  proof (cases op)
    case (Enq x)
    with Cons.prems have "inv (enq x q)" "items (enq x q) = items q @ [x]"
      by (simp_all add: enq_inv enq_items)
    with Cons.IH [of "enq x q" out q'] Cons.prems Enq show ?thesis by simp
  next
    case Deq
    show ?thesis
    proof (cases "is_empty q")
      case True
      with Cons.IH [of q out q'] Cons.prems Deq show ?thesis by simp
    next
      case False
      then have ne: "items q \<noteq> []" using Cons.prems(1) by (simp add: is_empty_items)
      obtain x q1 where d: "deq q = (x, q1)" by (cases "deq q")
      obtain xs q2 where r: "run_queue enq is_empty deq ops q1 = (xs, q2)" by (metis surj_pair)
      have it: "items q = x # items q1" and inv: "inv q1"
        using deq_items [OF Cons.prems(1) ne] deq_inv [OF Cons.prems(1) ne] by (simp_all add: d)
      have "inv q2 \<and> xs @ items q2 = items q1 @ enqueued ops"
        using Cons.prems(2,3) Deq it by (intro Cons.IH [OF inv _ _ r]) auto
      with Cons.prems(4) Deq False d r it show ?thesis by auto
    qed
  qed
qed simp

lemma drained:
  assumes "inv q" and "items q = []" and "\<forall>x\<in>set (enqueued ops). okay x"
    and "length (enqueued ops) \<le> limit" and "run_queue enq is_empty deq ops q = (out, q')"
  shows "prefix out (enqueued ops)"
proof -
  have "enqueued ops = out @ items q'"
    using run_order [OF assms(1,3) _ assms(5)] assms(2,4) by simp
  then show ?thesis by (rule prefixI)
qed

end

section \<open>The ring buffer is a queue of clients\<close>

definition put_client :: "string \<Rightarrow> worker_queue \<Rightarrow> worker_queue" where
  "put_client x q = (case dispatch_client True q x of Inr q' \<Rightarrow> q' | Inl _ \<Rightarrow> q)"

definition take_client :: "worker_queue \<Rightarrow> string \<times> worker_queue" where
  "take_client q =
     (let (idx, q') = queue_take q
      in (take CLIENT_SIZE (a_payload (q_data q' ! idx)), queue_release idx q'))"

definition queue_clients :: "worker_queue \<Rightarrow> string list" where
  "queue_clients q = map (\<lambda>a. take CLIENT_SIZE (a_payload a)) (queue_slots q)"

lemma queue_reserve_ok:
  assumes "queue_inv q" and "unat (q_count q) < 2 ^ 30"
  shows "\<exists>q'. queue_reserve True q = Inr (Some q')"
proof -
  have "q_capacity q * 2 \<noteq> 0" if "q_count q + 1 \<ge> q_capacity q"
  proof -
    have "unat (q_count q + 1) = unat (q_count q) + 1" using assms(2) by (simp add: unat_word_ariths)
    with that have "unat (q_capacity q) \<le> 2 ^ 30" "8 \<le> unat (q_capacity q)"
      using assms by (auto simp: word_le_nat_alt queue_inv_def)
    then have "unat (q_capacity q * 2) \<noteq> 0" by (simp add: unat_word_ariths)
    then show ?thesis by (metis unat_0)
  qed
  then show ?thesis by (simp add: queue_reserve_def Let_def)
qed

lemma dispatch_command_ok:
  assumes "queue_inv q" and "unat (q_count q) < 2 ^ 30" and "n \<le> WORKER_ACTION_PAYLOAD_SIZE"
    and "case payload of None \<Rightarrow> True | Some p \<Rightarrow> n \<le> length p"
  shows "\<exists>q' old. dispatch_command True q action payload n = Inr q' \<and> queue_inv q' \<and>
    q_shutting_down q' = q_shutting_down q \<and>
    queue_slots q' = queue_slots q @ [\<lparr>a_lock = False, a_exists = True, a_type = action,
      a_payload = store_payload payload n old\<rparr>]"
proof -
  obtain q1 where q1: "queue_reserve True q = Inr (Some q1)" using queue_reserve_ok [OF assms(1,2)] by blast
  note r = queue_reserve_inv [OF assms(1) q1]
  have "dispatch_command True q action payload n = Inr (queue_put action payload n q1)"
    using assms(3,4) q1 by (auto simp: dispatch_command_def split: option.splits)
  moreover have "q_shutting_down (queue_put action payload n q1) = q_shutting_down q1"
    by (simp add: queue_put_def Let_def)
  ultimately show ?thesis
    using queue_put_slots [OF r(1,3) refl assms(3,4)] r(2,4) by auto
qed

lemma put_client_queue:
  assumes "queue_inv q" and "length x = CLIENT_SIZE" and "length (queue_clients q) < 2 ^ 30"
  shows "queue_inv (put_client x q)" and "queue_clients (put_client x q) = queue_clients q @ [x]"
proof -
  have "unat (q_count q) < 2 ^ 30" using assms(3) by (simp add: queue_clients_def)
  from dispatch_command_ok [OF assms(1) this, of CLIENT_SIZE "Some x" WORKER_ACTION_NEW_CLIENT] assms(2)
  obtain q' old where q': "dispatch_client True q x = Inr q'" "queue_inv q'"
    "queue_slots q' = queue_slots q @ [\<lparr>a_lock = False, a_exists = True, a_type = WORKER_ACTION_NEW_CLIENT,
      a_payload = store_payload (Some x) CLIENT_SIZE old\<rparr>]"
    by (auto simp: dispatch_client_def CLIENT_SIZE_def WORKER_ACTION_PAYLOAD_SIZE_def)
  have "take CLIENT_SIZE (store_payload (Some x) CLIENT_SIZE old) = x"
    using assms(2) by (simp add: store_payload_def CLIENT_SIZE_def)
  with q' show "queue_inv (put_client x q)" and "queue_clients (put_client x q) = queue_clients q @ [x]"
    by (simp_all add: put_client_def queue_clients_def)
qed

lemma queue_release_inv:
  assumes "queue_inv q" and "idx < length (q_data q)"
  shows "queue_inv (queue_release idx q)"
    and "map (\<lambda>a. (a_type a, a_payload a)) (queue_slots (queue_release idx q)) = map (\<lambda>a. (a_type a, a_payload a)) (queue_slots q)"
proof -
  show "queue_inv (queue_release idx q)"
    using assms by (auto simp: queue_release_def queue_inv_def dest!: set_update_subset_insert [THEN subsetD])
  have "(q_data q)[idx := (q_data q ! idx)\<lparr>a_lock := False\<rparr>] ! i =
      (if i = idx then (q_data q ! idx)\<lparr>a_lock := False\<rparr> else q_data q ! i)" for i
    using assms(2) by (simp add: nth_list_update)
  then show "map (\<lambda>a. (a_type a, a_payload a)) (queue_slots (queue_release idx q)) = map (\<lambda>a. (a_type a, a_payload a)) (queue_slots q)"
    by (simp add: queue_release_def queue_slots_def comp_def)
qed

lemma take_client_queue:
  assumes "queue_inv q" and "queue_clients q \<noteq> []"
  shows "queue_inv (snd (take_client q))" and "queue_clients q = fst (take_client q) # queue_clients (snd (take_client q))"
proof -
  have "q_count q \<noteq> 0" using assms(2) by (auto simp: queue_clients_def queue_slots_def)
  obtain idx q' where t: "queue_take q = (idx, q')" by (cases "queue_take q")
  note qt = queue_take_slots [OF assms(1) \<open>q_count q \<noteq> 0\<close> t]
  note qr = queue_release_inv [OF qt(1,2)]
  have "map (take CLIENT_SIZE \<circ> snd) (map (\<lambda>a. (a_type a, a_payload a)) (queue_slots (queue_release idx q'))) =
      map (take CLIENT_SIZE \<circ> snd) (map (\<lambda>a. (a_type a, a_payload a)) (queue_slots q'))"
    using qr(2) by simp
  then have "queue_clients (queue_release idx q') = queue_clients q'"
    by (simp add: queue_clients_def comp_def)
  with qr(1) qt(3,4) show "queue_inv (snd (take_client q))"
    and "queue_clients q = fst (take_client q) # queue_clients (snd (take_client q))"
    by (simp_all add: take_client_def t, simp add: queue_clients_def)
qed

interpretation ring: fifo put_client "\<lambda>q. q_count q = 0" take_client queue_clients queue_inv
  "\<lambda>x. length x = CLIENT_SIZE" "2 ^ 30"
proof (unfold_locales, goal_cases)
  case (1 q x)
  then show ?case by (rule put_client_queue(1))
next
  case (2 q x)
  then show ?case by (rule put_client_queue(2))
next
  case (3 q)
  then show ?case by (auto simp: queue_clients_def queue_slots_def unat_eq_0)
next
  case (4 q)
  then show ?case by (rule take_client_queue(1))
next
  case (5 q)
  then show ?case by (rule take_client_queue(2))
qed

section \<open>Properties of the command queue\<close>

text \<open>
  C15: The ring buffer is a first-in first-out queue. For every schedule of dispatches and pick-ups
  on a fresh queue, the clients handed to workers followed by those still queued are exactly the
  dispatched clients in order, across every wrap-around and every doubling of the buffer.
\<close>

theorem dispatch_fifo:
  assumes "init_queue True = Inr q0" and "\<forall>x\<in>set (enqueued ops). length x = CLIENT_SIZE"
    and "length (enqueued ops) \<le> 2 ^ 30"
    and "run_queue put_client (\<lambda>q. q_count q = 0) take_client ops q0 = (out, q)"
  shows "queue_inv q \<and> out @ queue_clients q = enqueued ops"
  using ring.run_order [OF init_queue_inv(1) [OF assms(1)] assms(2) _ assms(4)] assms(3)
    init_queue_inv(2) [OF assms(1)]
  by (simp add: queue_clients_def)

theorem dispatch_fifo_witness:
  "\<exists>q0 out q. init_queue True = Inr q0 \<and>
     run_queue put_client (\<lambda>q. q_count q = 0) take_client [Enq (replicate 64 CHR ''a''), Deq] q0 = (out, q) \<and>
     out @ queue_clients q = [replicate 64 CHR ''a'']"
proof -
  obtain q0 where q0: "init_queue True = Inr q0" by (simp add: init_queue_def)
  obtain out q where r: "run_queue put_client (\<lambda>q. q_count q = 0) take_client [Enq (replicate 64 CHR ''a''), Deq] q0 = (out, q)"
    by (metis surj_pair)
  have "queue_inv q \<and> out @ queue_clients q = enqueued [Enq (replicate 64 CHR ''a''), Deq]"
    by (rule dispatch_fifo [OF q0 _ _ r]) (simp_all add: CLIENT_SIZE_def)
  then show ?thesis using q0 r by auto
qed

text \<open>
  \<open>dispatch_command\<close> with memory available appends exactly one slot with the given action and
  payload, keeps every queued slot and the invariant (indices in range, a power-of-two
  capacity, full-size payloads), for every queue below a billion commands.
\<close>

theorem dispatch_command_appends:
  assumes "queue_inv q" and "unat (q_count q) < 2 ^ 30" and "n \<le> WORKER_ACTION_PAYLOAD_SIZE" and "n \<le> length p"
  shows "\<exists>q' old. dispatch_command True q action (Some p) n = Inr q' \<and> queue_inv q' \<and>
    queue_slots q' = queue_slots q @ [\<lparr>a_lock = False, a_exists = True, a_type = action,
      a_payload = (if n > 0 then take n p @ drop n old else old)\<rparr>]"
  using dispatch_command_ok [OF assms(1-3), of "Some p" action] assms(4) by (auto simp: store_payload_def)

theorem dispatch_command_appends_witness:
  "\<exists>q q' old. init_queue True = Inr q \<and> dispatch_command True q 1 (Some ''ab'') 2 = Inr q' \<and> queue_inv q' \<and>
    queue_slots q' = queue_slots q @ [\<lparr>a_lock = False, a_exists = True, a_type = 1,
      a_payload = (if (2::nat) > 0 then take 2 ''ab'' @ drop 2 old else old)\<rparr>]"
proof -
  obtain q where q: "init_queue True = Inr q" by (simp add: init_queue_def)
  then have "q_count q = 0" by (auto simp: init_queue_def)
  then have "unat (q_count q) < 2 ^ 30" by simp
  from dispatch_command_appends [OF init_queue_inv(1) [OF q] this, of 2 "''ab''" 1] q show ?thesis
    by (auto simp: WORKER_ACTION_PAYLOAD_SIZE_def)
qed

text \<open>
  C24: When the buffer is nearly full and the larger array cannot be allocated, \<open>dispatch_command\<close>
  returns with the queue unchanged: the command is lost and the caller is not told.
\<close>

theorem dispatch_command_lost:
  assumes "queue_inv q" and "q_count q + 1 \<ge> q_capacity q" and "q_capacity q * 2 \<noteq> 0"
    and "n \<le> WORKER_ACTION_PAYLOAD_SIZE" and "n \<le> length p"
  shows "dispatch_command False q action (Some p) n = Inr q"
  using assms by (simp add: dispatch_command_def queue_reserve_def Let_def)

definition full_queue :: worker_queue where
  "full_queue = \<lparr>q_data = replicate 8 zero_action, q_head = 0, q_count = 7, q_capacity = 8, q_shutting_down = False\<rparr>"

lemma full_queue_inv: "queue_inv full_queue"
  by (auto simp: full_queue_def queue_inv_def zero_action_def intro!: exI [of _ 3])

theorem dispatch_command_lost_witness:
  "dispatch_command False full_queue 1 (Some ''ab'') 2 = Inr full_queue"
  by (rule dispatch_command_lost [OF full_queue_inv])
    (simp_all add: full_queue_def WORKER_ACTION_PAYLOAD_SIZE_def word_le_nat_alt)

end
