(* ===== verification/Worker_Threads.thy ===== *)
theory Worker_Threads
  imports Workers
begin

text \<open>
  The threads around the command queue: \<open>worker_loop\<close>, the locking part of \<open>dispatch_command\<close> and
  \<open>worker_pool_delete\<close> of \<open>utils/workers.c\<close>, as a step relation over any interleaving.
  A step is what one thread does between two points where another thread can run; a section
  of the main thread between lock and unlock is one step that needs the lock to be free.
  \<open>pthread_cond_wait\<close> may wake without a signal, as POSIX allows.
\<close>

section \<open>States and steps\<close>

text \<open>
  Where a worker is: before the lock, holding it at the test of the inner loop, blocked in
  \<open>pthread_cond_wait\<close>, woken and about to take the lock again, in the callback (with the lock)
  for the slot it took, or returned.
\<close>

datatype wpc = W_start | W_check | W_wait | W_woken | W_run nat | W_exit

text \<open>
  Where the main thread is: anywhere outside these functions, between the unlock and the signal of
  \<open>dispatch_command\<close>, between the unlock and the broadcast of \<open>worker_pool_delete\<close>, joining the
  workers, and behind the joins.
\<close>

datatype mpc = M_run | M_signal | M_broadcast | M_join | M_done

text \<open>\<open>s_sent\<close> and \<open>s_handled\<close> record the clients dispatched and those a callback was started for.\<close>

record wsys =
  s_queue :: worker_queue
  s_owner :: "nat option"
  s_pc :: "nat \<Rightarrow> wpc"
  s_main :: mpc
  s_sent :: "string list"
  s_handled :: "string list"

definition holds_lock :: "wpc \<Rightarrow> bool" where
  "holds_lock p \<longleftrightarrow> (case p of W_check \<Rightarrow> True | W_run _ \<Rightarrow> True | _ \<Rightarrow> False)"

definition wsys_init :: "nat \<Rightarrow> worker_queue \<Rightarrow> wsys" where
  "wsys_init n q = \<lparr>s_queue = q, s_owner = None, s_pc = (\<lambda>i. if i < n then W_start else W_exit),
     s_main = M_run, s_sent = [], s_handled = []\<rparr>"

text \<open>
  \<open>worker_pool_init\<close>. The inputs are the results of the allocations (thread array, queue, slots,
  the arguments of each thread) and of each \<open>pthread_create\<close>. The lock is held until every
  thread is created, so no worker gets behind its first lock before that.
\<close>

definition worker_pool_init ::
  "bool \<Rightarrow> bool \<Rightarrow> bool \<Rightarrow> (nat \<Rightarrow> bool) \<Rightarrow> (nat \<Rightarrow> bool) \<Rightarrow> 32 word \<Rightarrow> (nat \<times> wsys) res" where
  "worker_pool_init threads_ok queue_ok slots_ok args_ok create_ok num_workers =
     (let n = unat num_workers in
      if n = 0 then Inl Assert_fail
      else if \<not> threads_ok \<or> \<not> queue_ok then Inl Exit_fail
      else bind_res (init_queue slots_ok) (\<lambda>q.
        if list_all (\<lambda>i. args_ok i \<and> create_ok i) [0..<n] then Inr (n, wsys_init n q) else Inl Exit_fail))"

inductive wstep :: "nat \<Rightarrow> wsys \<Rightarrow> wsys \<Rightarrow> bool" for n :: nat where
  w_lock: "i < n \<Longrightarrow> s_pc s i = W_start \<or> s_pc s i = W_woken \<Longrightarrow> s_owner s = None \<Longrightarrow>
    wstep n s (s\<lparr>s_owner := Some i, s_pc := (s_pc s)(i := W_check)\<rparr>)"
| w_sleep: "i < n \<Longrightarrow> s_pc s i = W_check \<Longrightarrow> q_count (s_queue s) = 0 \<Longrightarrow> \<not> q_shutting_down (s_queue s) \<Longrightarrow>
    wstep n s (s\<lparr>s_owner := None, s_pc := (s_pc s)(i := W_wait)\<rparr>)"
| w_leave: "i < n \<Longrightarrow> s_pc s i = W_check \<Longrightarrow> q_shutting_down (s_queue s) \<Longrightarrow>
    wstep n s (s\<lparr>s_owner := None, s_pc := (s_pc s)(i := W_exit)\<rparr>)"
| w_take: "i < n \<Longrightarrow> s_pc s i = W_check \<Longrightarrow> q_count (s_queue s) \<noteq> 0 \<Longrightarrow> \<not> q_shutting_down (s_queue s) \<Longrightarrow>
    queue_take (s_queue s) = (idx, q') \<Longrightarrow>
    wstep n s (s\<lparr>s_queue := q', s_pc := (s_pc s)(i := W_run idx),
      s_handled := s_handled s @ [take CLIENT_SIZE (a_payload (q_data q' ! idx))]\<rparr>)"
| w_finish: "i < n \<Longrightarrow> s_pc s i = W_run idx \<Longrightarrow>
    wstep n s (s\<lparr>s_queue := queue_release idx (s_queue s), s_owner := None, s_pc := (s_pc s)(i := W_start)\<rparr>)"
| w_spurious: "i < n \<Longrightarrow> s_pc s i = W_wait \<Longrightarrow> wstep n s (s\<lparr>s_pc := (s_pc s)(i := W_woken)\<rparr>)"
| m_dispatch: "s_main s = M_run \<Longrightarrow> s_owner s = None \<Longrightarrow> length x = CLIENT_SIZE \<Longrightarrow>
    queue_reserve alloc_ok (s_queue s) = Inr (Some q1) \<Longrightarrow>
    dispatch_client alloc_ok (s_queue s) x = Inr q' \<Longrightarrow>
    wstep n s (s\<lparr>s_queue := q', s_main := M_signal, s_sent := s_sent s @ [x]\<rparr>)"
| m_dispatch_lost: "s_main s = M_run \<Longrightarrow> s_owner s = None \<Longrightarrow>
    queue_reserve alloc_ok (s_queue s) = Inr None \<Longrightarrow> wstep n s s"
| m_signal: "s_main s = M_signal \<Longrightarrow> i < n \<Longrightarrow> s_pc s i = W_wait \<Longrightarrow>
    wstep n s (s\<lparr>s_main := M_run, s_pc := (s_pc s)(i := W_woken)\<rparr>)"
| m_signal_none: "s_main s = M_signal \<Longrightarrow> \<forall>i<n. s_pc s i \<noteq> W_wait \<Longrightarrow> wstep n s (s\<lparr>s_main := M_run\<rparr>)"
| m_shutdown: "s_main s = M_run \<Longrightarrow> s_owner s = None \<Longrightarrow>
    wstep n s (s\<lparr>s_queue := (s_queue s)\<lparr>q_shutting_down := True\<rparr>, s_main := M_broadcast\<rparr>)"
| m_broadcast: "s_main s = M_broadcast \<Longrightarrow>
    wstep n s (s\<lparr>s_main := M_join, s_pc := (\<lambda>i. if s_pc s i = W_wait then W_woken else s_pc s i)\<rparr>)"
| m_join: "s_main s = M_join \<Longrightarrow> \<forall>i<n. s_pc s i = W_exit \<Longrightarrow> wstep n s (s\<lparr>s_main := M_done\<rparr>)"

inductive wreach :: "nat \<Rightarrow> wsys \<Rightarrow> bool" for n :: nat where
  start: "init_queue True = Inr q \<Longrightarrow> wreach n (wsys_init n q)"
| step: "wreach n s \<Longrightarrow> wstep n s t \<Longrightarrow> wreach n t"

section \<open>Invariant\<close>

text \<open>The lock: its owner is exactly the worker at a point where the code holds it.\<close>

definition lock_inv :: "wsys \<Rightarrow> bool" where
  "lock_inv s \<longleftrightarrow> (\<forall>i. holds_lock (s_pc s i) \<longleftrightarrow> s_owner s = Some i)"

definition data_inv :: "wsys \<Rightarrow> bool" where
  "data_inv s \<longleftrightarrow> queue_inv (s_queue s) \<and> s_handled s @ queue_clients (s_queue s) = s_sent s \<and>
     (\<forall>i idx. s_pc s i = W_run idx \<longrightarrow> idx < length (q_data (s_queue s)))"

text \<open>No wake-up is lost: where a worker sleeps and a command waits, somebody is awake or about to signal.\<close>

definition wake_inv :: "nat \<Rightarrow> wsys \<Rightarrow> bool" where
  "wake_inv n s \<longleftrightarrow>
     (q_shutting_down (s_queue s) \<longleftrightarrow> s_main s \<in> {M_broadcast, M_join, M_done}) \<and>
     (\<forall>i\<ge>n. s_pc s i = W_exit) \<and>
     ((\<exists>i<n. s_pc s i = W_wait) \<longrightarrow>
        (if q_shutting_down (s_queue s) then s_main s = M_broadcast
         else q_count (s_queue s) = 0 \<or> s_main s = M_signal \<or> (\<exists>i<n. s_pc s i \<notin> {W_wait, W_exit})))"

lemma lock_inv_step: "wstep n s t \<Longrightarrow> lock_inv s \<Longrightarrow> lock_inv t"
  by (induction rule: wstep.induct) (auto simp: lock_inv_def holds_lock_def split: wpc.splits if_splits)

lemma dispatch_client_reserved:
  assumes "queue_inv q" and "length x = CLIENT_SIZE" and "queue_reserve ok q = Inr (Some q1)"
    and "dispatch_client ok q x = Inr q'"
  shows "queue_inv q'" and "queue_clients q' = queue_clients q @ [x]" and "q_shutting_down q' = q_shutting_down q"
proof -
  note r = queue_reserve_inv [OF assms(1,3)]
  have n: "CLIENT_SIZE \<le> WORKER_ACTION_PAYLOAD_SIZE" "case Some x of None \<Rightarrow> True | Some p \<Rightarrow> CLIENT_SIZE \<le> length p"
    using assms(2) by (simp_all add: CLIENT_SIZE_def WORKER_ACTION_PAYLOAD_SIZE_def)
  have q': "q' = queue_put WORKER_ACTION_NEW_CLIENT (Some x) CLIENT_SIZE q1"
    using assms(2-4) n(1) by (simp add: dispatch_client_def dispatch_command_def)
  note p = queue_put_slots [OF r(1,3) q' n]
  show "queue_inv q'" by (rule p(1))
  show "q_shutting_down q' = q_shutting_down q" using r(4) by (simp add: q' queue_put_def Let_def)
  have "take CLIENT_SIZE (store_payload (Some x) CLIENT_SIZE old) = x" for old
    using assms(2) by (simp add: store_payload_def CLIENT_SIZE_def)
  with p(2) r(2) show "queue_clients q' = queue_clients q @ [x]" by (auto simp: queue_clients_def)
qed

lemma queue_take_clients:
  assumes "queue_inv q" and "q_count q \<noteq> 0" and "queue_take q = (idx, q')"
  shows "queue_clients q = take CLIENT_SIZE (a_payload (q_data q' ! idx)) # queue_clients q'"
    and "queue_inv q'" and "idx < length (q_data q')" and "length (q_data q') = length (q_data q)"
    and "q_shutting_down q' = q_shutting_down q"
  using queue_take_slots [OF assms] assms(3)
  by (auto simp: queue_clients_def queue_take_def Let_def)

lemma queue_release_clients:
  assumes "queue_inv q" and "idx < length (q_data q)"
  shows "queue_clients (queue_release idx q) = queue_clients q"
proof -
  have "map (take CLIENT_SIZE \<circ> snd) (map (\<lambda>a. (a_type a, a_payload a)) (queue_slots (queue_release idx q))) =
      map (take CLIENT_SIZE \<circ> snd) (map (\<lambda>a. (a_type a, a_payload a)) (queue_slots q))"
    using queue_release_inv(2) [OF assms] by simp
  then show ?thesis by (simp add: queue_clients_def comp_def)
qed

lemma queue_release_frame [simp]:
  "length (q_data (queue_release idx q)) = length (q_data q)"
  "q_shutting_down (queue_release idx q) = q_shutting_down q" "q_count (queue_release idx q) = q_count q"
  by (simp_all add: queue_release_def)

lemma shutting_down_queue [simp]:
  "queue_inv (q\<lparr>q_shutting_down := b\<rparr>) \<longleftrightarrow> queue_inv q"
  "queue_clients (q\<lparr>q_shutting_down := b\<rparr>) = queue_clients q"
  by (simp_all add: queue_inv_def queue_clients_def queue_slots_def)

lemma unlocked_not_running:
  assumes "lock_inv s" and "s_owner s = None"
  shows "s_pc s i \<noteq> W_run idx"
proof
  assume "s_pc s i = W_run idx"
  then have "holds_lock (s_pc s i)" by (simp add: holds_lock_def)
  with assms show False by (simp add: lock_inv_def)
qed

lemma data_inv_step: "wstep n s t \<Longrightarrow> lock_inv s \<Longrightarrow> data_inv s \<Longrightarrow> data_inv t"
proof (induction rule: wstep.induct)
  case (w_take i s idx q')
  then have q: "queue_inv (s_queue s)" by (simp add: data_inv_def)
  from queue_take_clients [OF q w_take(3,5)] w_take.prems show ?case
    by (auto simp: data_inv_def)
next
  case (w_finish i s idx)
  then have q: "queue_inv (s_queue s)" "idx < length (q_data (s_queue s))" by (auto simp: data_inv_def)
  from queue_release_clients [OF q] queue_release_inv(1) [OF q] w_finish.prems show ?case
    by (auto simp: data_inv_def)
next
  case (m_dispatch s x ok q1 q')
  then have q: "queue_inv (s_queue s)" by (simp add: data_inv_def)
  from dispatch_client_reserved [OF q m_dispatch(3,4,5)] m_dispatch show ?case
    by (auto simp: data_inv_def unlocked_not_running append_assoc [symmetric] simp del: append_assoc)
qed (auto simp: data_inv_def)

lemma wake_inv_step:
  "wstep n s t \<Longrightarrow> lock_inv s \<Longrightarrow> data_inv s \<Longrightarrow> wake_inv n s \<Longrightarrow> wake_inv n t"
proof (induction rule: wstep.induct)
  case (w_take i s idx q')
  then have q: "queue_inv (s_queue s)" by (simp add: data_inv_def)
  from queue_take_clients(5) [OF q w_take(3,5)] w_take show ?case
    by (auto simp: wake_inv_def)
next
  case (m_dispatch s x ok q1 q')
  then have q: "queue_inv (s_queue s)" by (simp add: data_inv_def)
  from dispatch_client_reserved(3) [OF q m_dispatch(3,4,5)] m_dispatch show ?case
    by (auto simp: wake_inv_def)
qed (auto simp: wake_inv_def split: if_splits)

lemma wreach_inv: "wreach n s \<Longrightarrow> lock_inv s \<and> data_inv s \<and> wake_inv n s"
proof (induction rule: wreach.induct)
  case (start q)
  then show ?case
    using init_queue_inv [OF start]
    by (auto simp: lock_inv_def data_inv_def wake_inv_def wsys_init_def holds_lock_def queue_clients_def init_queue_def)
next
  case (step s t)
  then show ?case using lock_inv_step data_inv_step wake_inv_step by blast
qed

text \<open>A pool that starts is in a reachable state of its step relation.\<close>

lemma worker_pool_init_reach:
  assumes "worker_pool_init a b c d e k = Inr (n, s)"
  shows "wreach n s \<and> n = unat k \<and> n \<noteq> 0"
proof -
  from assms obtain q where "init_queue c = Inr q" "s = wsys_init n q" "n = unat k" "n \<noteq> 0"
    by (auto simp: worker_pool_init_def Let_def bind_res_Inr split: if_splits)
  moreover from this have "init_queue True = Inr q" by (simp add: init_queue_def split: if_splits)
  ultimately show ?thesis by (auto intro: wreach.start)
qed

section \<open>Sample runs\<close>

text \<open>One worker goes to sleep, a client is dispatched, the worker is signalled and takes it.\<close>

definition sample_client :: string where "sample_client = replicate CLIENT_SIZE CHR ''c''"

definition empty_queue :: worker_queue where
  "empty_queue = \<lparr>q_data = replicate 8 zero_action, q_head = 0, q_count = 0, q_capacity = 8, q_shutting_down = False\<rparr>"

definition one_queued :: worker_queue where
  "one_queued = queue_put WORKER_ACTION_NEW_CLIENT (Some sample_client) CLIENT_SIZE empty_queue"

definition asleep_state :: wsys where
  "asleep_state = \<lparr>s_queue = empty_queue, s_owner = None, s_pc = (\<lambda>i. W_exit)(0 := W_wait),
     s_main = M_run, s_sent = [], s_handled = []\<rparr>"

definition signal_state :: wsys where
  "signal_state = asleep_state\<lparr>s_queue := one_queued, s_main := M_signal, s_sent := [sample_client]\<rparr>"

definition running_state :: wsys where
  "running_state = \<lparr>s_queue = snd (queue_take one_queued), s_owner = Some 0, s_pc = (\<lambda>i. W_exit)(0 := W_run 0),
     s_main = M_run, s_sent = [sample_client], s_handled = [sample_client]\<rparr>"

definition join_state :: wsys where
  "join_state = \<lparr>s_queue = empty_queue\<lparr>q_shutting_down := True\<rparr>, s_owner = None,
     s_pc = (\<lambda>i. W_exit)(0 := W_woken), s_main = M_join, s_sent = [], s_handled = []\<rparr>"

lemma wstep_eq: "wstep n s t' \<Longrightarrow> t' = t \<Longrightarrow> wstep n s t"
  by simp

lemma asleep_reach: "wreach 1 asleep_state"
proof -
  have "wreach 1 (wsys_init 1 empty_queue)"
    by (rule wreach.start) (simp add: init_queue_def empty_queue_def)
  then have "wreach 1 ((wsys_init 1 empty_queue)\<lparr>s_owner := Some 0,
      s_pc := (s_pc (wsys_init 1 empty_queue))(0 := W_check)\<rparr>)" (is "wreach 1 ?b")
    by (rule wreach.step) (rule wstep.w_lock, simp_all add: wsys_init_def)
  moreover have "wstep 1 ?b asleep_state"
    by (rule wstep_eq, rule wstep.w_sleep [of 0])
       (auto simp: wsys_init_def empty_queue_def asleep_state_def fun_eq_iff)
  ultimately show ?thesis by (rule wreach.step)
qed

lemma sample_client_length: "length sample_client = CLIENT_SIZE"
  by (simp add: sample_client_def)

lemma signal_reach: "wreach 1 signal_state"
proof -
  have "queue_reserve True empty_queue = Inr (Some empty_queue)"
    by (simp add: queue_reserve_def empty_queue_def word_le_nat_alt)
  then have "wstep 1 asleep_state signal_state"
    by (intro wstep_eq [OF wstep.m_dispatch [of _ sample_client True empty_queue one_queued]])
       (simp_all add: signal_state_def asleep_state_def dispatch_client_def dispatch_command_def
         sample_client_length one_queued_def CLIENT_SIZE_def WORKER_ACTION_PAYLOAD_SIZE_def)
  with asleep_reach show ?thesis by (rule wreach.step)
qed

lemma running_reach: "wreach 1 running_state"
proof -
  let ?b = "signal_state\<lparr>s_main := M_run, s_pc := (s_pc signal_state)(0 := W_woken)\<rparr>"
  let ?c = "?b\<lparr>s_owner := Some 0, s_pc := (s_pc ?b)(0 := W_check)\<rparr>"
  have "wreach 1 ?b"
    using signal_reach by (rule wreach.step)
      (rule wstep.m_signal, simp_all add: signal_state_def asleep_state_def)
  then have "wreach 1 ?c"
    by (rule wreach.step) (rule wstep.w_lock, simp_all add: signal_state_def asleep_state_def)
  moreover have "wstep 1 ?c running_state"
    by (rule wstep_eq, rule wstep.w_take [of 0 _ _ 0 "snd (queue_take one_queued)"])
       (simp_all add: running_state_def signal_state_def asleep_state_def one_queued_def empty_queue_def
         queue_put_def queue_take_def store_payload_def sample_client_def CLIENT_SIZE_def zero_action_def)
  ultimately show ?thesis by (rule wreach.step)
qed

lemma join_reach: "wreach 1 join_state"
proof -
  let ?b = "asleep_state\<lparr>s_queue := (s_queue asleep_state)\<lparr>q_shutting_down := True\<rparr>, s_main := M_broadcast\<rparr>"
  have "wreach 1 ?b"
    using asleep_reach by (rule wreach.step) (rule wstep.m_shutdown, simp_all add: asleep_state_def)
  moreover have "wstep 1 ?b join_state"
    by (rule wstep_eq, rule wstep.m_broadcast) (auto simp: join_state_def asleep_state_def fun_eq_iff)
  ultimately show ?thesis by (rule wreach.step)
qed

section \<open>Properties of the worker pool\<close>

text \<open>
  C19: At most one worker runs \<open>worker_callback\<close> at any time, whatever the interleaving: the code
  keeps the queue lock during the callback. This is what makes the static state of \<open>strtok\<close>,
  used by the request parser, safe; it also means that the workers never work in parallel.
\<close>

theorem one_callback_at_a_time:
  assumes "wreach n s" and "s_pc s i = W_run a" and "s_pc s j = W_run b"
  shows "i = j \<and> s_owner s = Some i"
proof -
  have "lock_inv s" using wreach_inv [OF assms(1)] by simp
  moreover have "holds_lock (s_pc s i)" "holds_lock (s_pc s j)"
    using assms(2,3) by (simp_all add: holds_lock_def)
  ultimately show ?thesis by (auto simp: lock_inv_def)
qed

theorem one_callback_at_a_time_witness: "s_owner running_state = Some 0"
  using one_callback_at_a_time [OF running_reach, of 0 0 0 0] by (simp add: running_state_def)

text \<open>
  C12: Every dispatched client is handled at most once and in the order of dispatch: in every
  reachable state the clients whose callback was started, followed by those in the queue, are
  the clients dispatched so far.
\<close>

theorem clients_handled_in_order:
  assumes "wreach n s"
  shows "s_handled s @ queue_clients (s_queue s) = s_sent s"
  using wreach_inv [OF assms] by (simp add: data_inv_def)

theorem clients_handled_in_order_witness:
  "[sample_client] @ queue_clients (snd (queue_take one_queued)) = [sample_client]"
  using clients_handled_in_order [OF running_reach] by (simp add: running_state_def)

text \<open>
  C18: No wake-up is lost. If a command is queued while the pool is not shutting down, then there
  is a worker that is neither asleep nor gone, or the main thread is about to signal, or no
  worker sleeps at all.
\<close>

theorem no_lost_wakeup:
  assumes "wreach n s" and "q_count (s_queue s) \<noteq> 0" and "\<not> q_shutting_down (s_queue s)"
    and "\<exists>i<n. s_pc s i = W_wait"
  shows "s_main s = M_signal \<or> (\<exists>i<n. s_pc s i \<notin> {W_wait, W_exit})"
  using wreach_inv [OF assms(1)] assms(2-4) by (auto simp: wake_inv_def)

theorem no_lost_wakeup_witness:
  "s_main signal_state = M_signal \<or> (\<exists>i<1. s_pc signal_state i \<notin> {W_wait, W_exit})"
  by (rule no_lost_wakeup [OF signal_reach])
     (simp_all add: signal_state_def asleep_state_def one_queued_def empty_queue_def queue_put_def)

text \<open>How far the workers still are from their return.\<close>

definition wrank :: "wpc \<Rightarrow> nat" where
  "wrank p = (case p of W_run _ \<Rightarrow> 4 | W_wait \<Rightarrow> 3 | W_start \<Rightarrow> 2 | W_woken \<Rightarrow> 2 | W_check \<Rightarrow> 1 | W_exit \<Rightarrow> 0)"

definition work_left :: "nat \<Rightarrow> wsys \<Rightarrow> nat" where
  "work_left n s = (\<Sum>i<n. wrank (s_pc s i))"

lemma work_left_less:
  assumes "i < n" and "wrank p < wrank (s_pc s i)" and "s_pc t = (s_pc s)(i := p)"
  shows "work_left n t < work_left n s"
  unfolding work_left_def
  by (rule sum_strict_mono_ex1) (use assms in \<open>auto intro!: bexI [of _ i]\<close>)

text \<open>Together with what the main thread still has to do: the broadcast and the joins.\<close>

definition stop_left :: "nat \<Rightarrow> wsys \<Rightarrow> nat" where
  "stop_left n s = work_left n s + (case s_main s of M_broadcast \<Rightarrow> 2 | M_join \<Rightarrow> 1 | _ \<Rightarrow> 0)"

lemma work_left_woken: "work_left n (s\<lparr>s_main := m, s_pc := (\<lambda>i. if s_pc s i = W_wait then W_woken else s_pc s i)\<rparr>) \<le> work_left n s"
  unfolding work_left_def by (rule sum_mono) (simp add: wrank_def)

lemma stop_steps_down:
  assumes "wstep n s t" and "wreach n s" and "q_shutting_down (s_queue s)"
  shows "q_shutting_down (s_queue t) \<and> stop_left n t < stop_left n s"
proof -
  have main: "s_main s \<in> {M_broadcast, M_join, M_done}" using wreach_inv [OF assms(2)] assms(3) by (auto simp: wake_inv_def)
  from assms(1) show ?thesis
  proof (cases rule: wstep.cases)
    case m_broadcast
    with assms(3) work_left_woken [of n s M_join] show ?thesis by (simp add: stop_left_def)
  next
    case (w_lock i)
    with assms(3) show ?thesis by (auto intro!: work_left_less simp: stop_left_def wrank_def)
  next
    case (w_leave i)
    with assms(3) show ?thesis by (auto intro!: work_left_less simp: stop_left_def wrank_def)
  next
    case (w_finish i idx)
    with assms(3) show ?thesis by (auto intro!: work_left_less simp: stop_left_def wrank_def queue_release_def)
  next
    case (w_spurious i)
    with assms(3) show ?thesis by (auto intro!: work_left_less simp: stop_left_def wrank_def)
  next
    case m_join
    with assms(3) show ?thesis by (simp add: stop_left_def work_left_def)
  qed (use main assms(3) in auto)
qed

lemma stop_enabled:
  assumes "wreach n s" and "q_shutting_down (s_queue s)" and "s_main s \<noteq> M_done"
  shows "\<exists>t. wstep n s t"
proof (cases "s_main s = M_broadcast")
  case True
  then show ?thesis by (blast intro: wstep.m_broadcast)
next
  case False
  have inv: "lock_inv s" "s_main s = M_join" "\<forall>i<n. s_pc s i \<noteq> W_wait" "\<forall>i\<ge>n. s_pc s i = W_exit"
    using wreach_inv [OF assms(1)] assms(2,3) False by (auto simp: wake_inv_def split: if_splits)
  show ?thesis
  proof (cases "s_owner s")
    case None
    then have nh: "\<not> holds_lock (s_pc s i)" for i using inv(1) by (simp add: lock_inv_def)
    have "s_pc s i \<in> {W_start, W_woken, W_exit}" if "i < n" for i
      using nh [of i] inv(3) that by (cases "s_pc s i") (auto simp: holds_lock_def)
    with None inv(2) show ?thesis by (cases "\<forall>i<n. s_pc s i = W_exit") (blast intro: wstep.m_join wstep.w_lock)+
  next
    case (Some j)
    then have h: "holds_lock (s_pc s j)" using inv(1) by (simp add: lock_inv_def)
    then have "j < n" using inv(4) by (cases "j < n") (auto simp: holds_lock_def)
    with h assms(2) show ?thesis
      by (cases "s_pc s j") (auto simp: holds_lock_def intro: wstep.w_leave wstep.w_finish)
  qed
qed

lemma done_all_exited: "wreach n s \<Longrightarrow> s_main s = M_done \<Longrightarrow> \<forall>i<n. s_pc s i = W_exit"
proof (induction rule: wreach.induct)
  case (start q)
  then show ?case by (simp add: wsys_init_def)
next
  case (step s t)
  from step.hyps(2) step show ?case by (cases rule: wstep.cases) auto
qed

lemma stop_run:
  "(wstep n ^^ k) s t \<Longrightarrow> wreach n s \<Longrightarrow> q_shutting_down (s_queue s) \<Longrightarrow>
   k + stop_left n t \<le> stop_left n s \<and> wreach n t \<and> q_shutting_down (s_queue t)"
proof (induction k arbitrary: s)
  case (Suc k)
  from Suc.prems(1) obtain u where u: "wstep n s u" "(wstep n ^^ k) u t" by (metis relpowp_Suc_D2)
  have "wreach n u" using Suc.prems(2) u(1) by (rule wreach.step)
  with stop_steps_down [OF u(1) Suc.prems(2,3)] Suc.IH [OF u(2)] show ?case by fastforce
qed simp

text \<open>
  C16: From the moment \<open>worker_pool_delete\<close> has set \<open>shutting_down\<close> it terminates: every run has at most as
  many steps as the workers (a callback in progress, a lock to take) and the main thread (broadcast
  and joins) have left, whatever the schedule and however often \<open>pthread_cond_wait\<close> wakes spuriously, and a
  run can only stop with every worker returned and the joins done. The shutdown cannot deadlock and no worker stays
  asleep. How long the main thread waits for the lock before it sets the flag is up to the scheduler.
\<close>

theorem pool_delete_terminates:
  assumes "wreach n s" and "q_shutting_down (s_queue s)" and "(wstep n ^^ k) s t"
  shows "k \<le> stop_left n s \<and>
    ((\<nexists>u. wstep n t u) \<longrightarrow> s_main t = M_done \<and> (\<forall>i<n. s_pc t i = W_exit))"
proof -
  from stop_run [OF assms(3,1,2)] have "k \<le> stop_left n s" "wreach n t" "q_shutting_down (s_queue t)" by auto
  then show ?thesis using stop_enabled [of n t] done_all_exited [of n t] by blast
qed

text \<open>A worker that sleeps when the flag is set, the broadcast, and its way out.\<close>

theorem pool_delete_terminates_witness:
  "\<exists>t. (wstep 1 ^^ 4) (asleep_state\<lparr>s_queue := (s_queue asleep_state)\<lparr>q_shutting_down := True\<rparr>, s_main := M_broadcast\<rparr>) t \<and>
     4 \<le> stop_left 1 (asleep_state\<lparr>s_queue := (s_queue asleep_state)\<lparr>q_shutting_down := True\<rparr>, s_main := M_broadcast\<rparr>) \<and> s_main t = M_done"
proof -
  let ?a = "asleep_state\<lparr>s_queue := (s_queue asleep_state)\<lparr>q_shutting_down := True\<rparr>, s_main := M_broadcast\<rparr>"
  let ?b = "join_state\<lparr>s_owner := Some 0, s_pc := (s_pc join_state)(0 := W_check)\<rparr>"
  let ?c = "?b\<lparr>s_owner := None, s_pc := (s_pc ?b)(0 := W_exit)\<rparr>"
  let ?d = "?c\<lparr>s_main := M_done\<rparr>"
  have ra: "wreach 1 ?a" using asleep_reach by (rule wreach.step) (rule wstep.m_shutdown, simp_all add: asleep_state_def)
  have "wstep 1 ?a join_state"
    by (rule wstep_eq, rule wstep.m_broadcast) (auto simp: join_state_def asleep_state_def fun_eq_iff)
  moreover have "wstep 1 join_state ?b" by (rule wstep.w_lock) (simp_all add: join_state_def)
  moreover have "wstep 1 ?b ?c" by (rule wstep.w_leave) (simp_all add: join_state_def)
  moreover have "wstep 1 ?c ?d" by (rule wstep.m_join) (simp_all add: join_state_def)
  ultimately have run: "(wstep 1 ^^ 4) ?a ?d"
    by (auto simp: eval_nat_numeral relcompp_apply intro!: exI)
  have "4 \<le> stop_left 1 ?a" using pool_delete_terminates [OF ra _ run] by simp
  with run show ?thesis by (intro exI [of _ ?d]) simp
qed

end
