(* ===== verification/Os_World.thy ===== *)
theory Os_World
  imports Foxtails_Prelude
begin

text \<open>
  What the operating system keeps for the process, as far as the program depends on it: the
  open file descriptors, the blocks obtained from \<open>malloc\<close>, the interest list of the one epoll
  instance, the bytes handed to \<open>send\<close> and the paths unlinked. A pointer is a number, 0 is the null pointer.
\<close>

section \<open>State\<close>

text \<open>
  \<open>w_epoll\<close>: for a registered descriptor, the slot its \<open>data.ptr\<close> leads to (\<open>None\<close> for the null
  pointer of the listening socket) and whether it is armed; \<open>EPOLLONESHOT\<close> disarms it with the
  first event. \<open>w_timeo\<close>: the receive and send timeout of a socket, where one is set.
\<close>

record os_world =
  w_open :: "int set"
  w_heap :: "nat set"
  w_epoll :: "int \<Rightarrow> (nat option \<times> bool) option"
  w_nonblock :: "int set"
  w_sent :: "(int \<times> string) list"
  w_unlinked :: "string list"
  w_timeo :: "int \<Rightarrow> int option"

section \<open>Calls\<close>

text \<open>\<open>close\<close>: on a descriptor that is not open it only sets \<open>errno\<close>. Closing also ends the registration.\<close>

definition os_close :: "int \<Rightarrow> os_world \<Rightarrow> os_world" where
  "os_close fd w = w\<lparr>w_open := w_open w - {fd}, w_nonblock := w_nonblock w - {fd},
     w_epoll := (w_epoll w)(fd := None), w_timeo := (w_timeo w)(fd := None)\<rparr>"

definition os_open :: "int \<Rightarrow> os_world \<Rightarrow> os_world" where
  "os_open fd w = w\<lparr>w_open := insert fd (w_open w)\<rparr>"

definition os_set_nonblock :: "int \<Rightarrow> os_world \<Rightarrow> os_world" where
  "os_set_nonblock fd w = w\<lparr>w_nonblock := insert fd (w_nonblock w)\<rparr>"

definition os_set_timeout :: "int \<Rightarrow> int \<Rightarrow> os_world \<Rightarrow> os_world" where
  "os_set_timeout fd t w = w\<lparr>w_timeo := (w_timeo w)(fd \<mapsto> t)\<rparr>"

definition os_malloc :: "nat \<Rightarrow> os_world \<Rightarrow> os_world" where
  "os_malloc p w = w\<lparr>w_heap := insert p (w_heap w)\<rparr>"

text \<open>What a successful \<open>socket_accept\<close> leaves: a new block, a new non-blocking descriptor.\<close>

definition os_accept :: "int \<Rightarrow> nat \<Rightarrow> os_world \<Rightarrow> os_world" where
  "os_accept fd address w = os_set_nonblock fd (os_open fd (os_malloc address w))"

text \<open>\<open>free\<close>: the null pointer is ignored, a block that is not allocated (any more) is undefined.\<close>

definition os_free :: "nat \<Rightarrow> os_world \<Rightarrow> os_world res" where
  "os_free p w =
     (if p = 0 then Inr w
      else if p \<in> w_heap w then Inr (w\<lparr>w_heap := w_heap w - {p}\<rparr>) else Inl Undefined)"

text \<open>\<open>EPOLL_CTL_ADD\<close> and \<open>EPOLL_CTL_MOD\<close> when they succeed, and \<open>EPOLL_CTL_DEL\<close>, whose failure changes nothing.\<close>

definition os_epoll_set :: "int \<Rightarrow> nat option \<Rightarrow> os_world \<Rightarrow> os_world" where
  "os_epoll_set fd d w = w\<lparr>w_epoll := (w_epoll w)(fd \<mapsto> (d, True))\<rparr>"

definition os_epoll_del :: "int \<Rightarrow> os_world \<Rightarrow> os_world" where
  "os_epoll_del fd w = w\<lparr>w_epoll := (w_epoll w)(fd := None)\<rparr>"

text \<open>\<open>send\<close>; its result is only logged. \<open>None\<close> stands for a message that was not built.\<close>

definition os_send :: "int \<Rightarrow> string option \<Rightarrow> os_world \<Rightarrow> os_world" where
  "os_send fd out w = (case out of None \<Rightarrow> w | Some bytes \<Rightarrow> w\<lparr>w_sent := w_sent w @ [(fd, bytes)]\<rparr>)"

lemmas os_defs = os_close_def os_open_def os_set_nonblock_def os_set_timeout_def os_malloc_def os_accept_def os_epoll_set_def os_epoll_del_def

lemma os_send_frame [simp]:
  "w_open (os_send fd out w) = w_open w" "w_heap (os_send fd out w) = w_heap w"
  "w_epoll (os_send fd out w) = w_epoll w" "w_nonblock (os_send fd out w) = w_nonblock w"
  by (simp_all add: os_send_def split: option.splits)

lemma os_free_ok: "p \<in> w_heap w \<Longrightarrow> p \<noteq> 0 \<Longrightarrow> os_free p w = Inr (w\<lparr>w_heap := w_heap w - {p}\<rparr>)"
  by (simp add: os_free_def)

text \<open>A second \<open>free\<close> of the same block is undefined.\<close>

lemma os_free_twice: "p \<noteq> 0 \<Longrightarrow> os_free p w = Inr w' \<Longrightarrow> os_free p w' = Inl Undefined"
  by (auto simp: os_free_def split: if_splits)

end
