(* ===== verification/Server.thy ===== *)
theory Server
  imports Http_Send Worker_Threads Os_World
begin

text \<open>
  The client slots of \<open>utils/server.c\<close>: the stack of free slot numbers, the slot table, and how
  the server takes in, drops and finally releases clients. The invariant ties the slots to the
  descriptors, address blocks and epoll registrations they own.
\<close>

section \<open>The stack of free slots\<close>

text \<open>\<open>st_data\<close> is the allocated array; the invariant gives it \<open>st_capacity\<close> elements.\<close>

record int_stack_t =
  st_data :: "int list"
  st_head :: "32 word"
  st_capacity :: "32 word"

definition int_stack_push :: "int_stack_t \<Rightarrow> int \<Rightarrow> bool \<times> int_stack_t" where
  "int_stack_push st v =
     (if st_head st \<ge> st_capacity st then (False, st)
      else (True, st\<lparr>st_data := (st_data st)[unat (st_head st) := v], st_head := st_head st + 1\<rparr>))"

definition int_stack_pop :: "int_stack_t \<Rightarrow> int \<times> int_stack_t" where
  "int_stack_pop st =
     (if st_head st = 0 then (-1, st)
      else let h = st_head st - 1 in (st_data st ! unat h, st\<lparr>st_head := h\<rparr>))"

definition stack_inv :: "int_stack_t \<Rightarrow> bool" where
  "stack_inv st \<longleftrightarrow> length (st_data st) = unat (st_capacity st) \<and> st_head st \<le> st_capacity st"

text \<open>The stacked numbers, top first.\<close>

definition stack_items :: "int_stack_t \<Rightarrow> int list" where
  "stack_items st = rev (take (unat (st_head st)) (st_data st))"

section \<open>Contract of a bounded stack\<close>

text \<open>The loop that fills the free list: the numbers below \<open>k\<close>, largest first; a failed push exits.\<close>

fun push_down :: "('s \<Rightarrow> int \<Rightarrow> bool \<times> 's) \<Rightarrow> nat \<Rightarrow> 's \<Rightarrow> 's res" where
  "push_down push 0 s = Inr s"
| "push_down push (Suc i) s =
     (case push s (int i) of (ok, s') \<Rightarrow> if ok then push_down push i s' else Inl Exit_fail)"

locale bounded_stack =
  fixes push :: "'s \<Rightarrow> int \<Rightarrow> bool \<times> 's"
    and pop :: "'s \<Rightarrow> int \<times> 's"
    and items :: "'s \<Rightarrow> int list"
    and room :: "'s \<Rightarrow> nat"
    and inv :: "'s \<Rightarrow> bool"
  assumes push_ok: "inv s \<Longrightarrow> length (items s) < room s \<Longrightarrow>
      \<exists>s'. push s v = (True, s') \<and> inv s' \<and> items s' = v # items s \<and> room s' = room s"
    and push_full: "inv s \<Longrightarrow> length (items s) \<ge> room s \<Longrightarrow> push s v = (False, s)"
    and pop_ok: "inv s \<Longrightarrow> items s = v # vs \<Longrightarrow>
      \<exists>s'. pop s = (v, s') \<and> inv s' \<and> items s' = vs \<and> room s' = room s"
    and pop_empty: "inv s \<Longrightarrow> items s = [] \<Longrightarrow> pop s = (-1, s)"
    and within: "inv s \<Longrightarrow> length (items s) \<le> room s"
begin

text \<open>What was popped can be pushed back, which restores the stack.\<close>

lemma pop_push:
  assumes "inv s" and "items s = v # vs"
  shows "\<exists>s' s''. pop s = (v, s') \<and> push s' v = (True, s'') \<and> inv s'' \<and> items s'' = items s"
proof -
  from pop_ok [OF assms] obtain s' where s': "pop s = (v, s')" "inv s'" "items s' = vs" "room s' = room s" by blast
  have "length (items s') < room s'" using within [OF assms(1)] assms(2) s' by simp
  from push_ok [OF s'(2) this] s' assms(2) show ?thesis by force
qed

lemma push_down_ok:
  assumes "inv s" and "length (items s) + k \<le> room s"
  shows "\<exists>s'. push_down push k s = Inr s' \<and> inv s' \<and> items s' = map int [0..<k] @ items s \<and> room s' = room s"
  using assms
proof (induction k arbitrary: s)
  case (Suc k)
  then have "length (items s) < room s" by simp
  from push_ok [OF Suc.prems(1) this, of "int k"] obtain s1
    where s1: "push s (int k) = (True, s1)" "inv s1" "items s1 = int k # items s" "room s1 = room s" by blast
  with Suc.prems(2) have "length (items s1) + k \<le> room s1" by simp
  from Suc.IH [OF s1(2) this] s1 show ?case by simp
qed simp

end

lemma unat_pred: "w \<noteq> 0 \<Longrightarrow> unat (w - 1) = unat (w :: 32 word) - 1"
  by (rule unat_minus_one)

lemma unat_succ: "(w :: 32 word) < v \<Longrightarrow> unat (w + 1) = Suc (unat w)"
  using unsigned_less [of v, where ?'a = nat] by (simp add: unat_word_ariths word_less_nat_alt)

interpretation fls: bounded_stack int_stack_push int_stack_pop stack_items "\<lambda>st. unat (st_capacity st)" stack_inv
proof (unfold_locales, goal_cases)
  case (1 s v)
  then have lt: "st_head s < st_capacity s" and le: "unat (st_head s) < length (st_data s)"
    by (auto simp: stack_inv_def stack_items_def word_less_nat_alt word_le_nat_alt)
  have "unat (st_head s + 1) = Suc (unat (st_head s))" by (rule unat_succ [OF lt])
  moreover from this lt have "st_head s + 1 \<le> st_capacity s" by (simp add: word_le_nat_alt word_less_nat_alt)
  ultimately show ?case
    using 1 lt le by (simp add: int_stack_push_def stack_inv_def stack_items_def take_Suc_conv_app_nth)
next
  case (2 s v)
  then have "st_head s \<ge> st_capacity s"
    by (auto simp: stack_inv_def stack_items_def word_le_nat_alt)
  then show ?case by (simp add: int_stack_push_def)
next
  case (3 s v vs)
  then have nz: "st_head s \<noteq> 0" by (auto simp: stack_items_def)
  then obtain k where k: "unat (st_head s) = Suc k" by (metis not0_implies_Suc unat_eq_zero)
  then have k': "unat (st_head s - 1) = k" by (simp add: unat_pred nz)
  have lt: "k < length (st_data s)" using 3(1) k by (simp add: stack_inv_def word_le_nat_alt)
  have "v = st_data s ! k" "vs = rev (take k (st_data s))"
    using 3(2) k lt by (auto simp: stack_items_def take_Suc_conv_app_nth)
  then show ?case
    using nz k k' 3(1) by (simp add: int_stack_pop_def stack_inv_def stack_items_def Let_def word_le_nat_alt)
next
  case (4 s)
  then have "take (unat (st_head s)) (st_data s) = []" "st_head s \<le> st_capacity s" "length (st_data s) = unat (st_capacity s)"
    by (simp_all add: stack_items_def stack_inv_def)
  then have "st_head s = 0" by (auto simp: word_le_nat_alt unat_eq_zero)
  then show ?case by (simp add: int_stack_pop_def)
next
  case (5 s)
  then show ?case by (simp add: stack_inv_def stack_items_def word_le_nat_alt)
qed

section \<open>Clients and server\<close>

text \<open>
  \<open>c_serv\<close>, the pointer to the one server, is left out. \<open>c_address\<close> and \<open>sv_address\<close> are the pointers to
  the socket addresses.
\<close>

record client_t =
  c_fd :: int
  c_address :: nat
  c_last_recv :: int
  c_idx :: int
  c_is_alive :: bool
  c_in_flight :: bool
  c_ip_addr :: string

definition client_zero :: client_t where
  "client_zero = \<lparr>c_fd = 0, c_address = 0, c_last_recv = 0, c_idx = 0, c_is_alive = False, c_in_flight = False,
     c_ip_addr = []\<rparr>"

record server_t =
  sv_fd :: int
  sv_address :: nat
  sv_num_workers :: nat
  sv_workers :: wsys
  sv_clients :: "client_t list"
  sv_epoll :: int
  sv_free_list :: int_stack_t

text \<open>
  \<open>server_init_common\<close>; the pool is the result of \<open>worker_pool_init\<close>. \<open>pcalloc\<close> of no elements fails the
  assertion of \<open>palloc\<close>, of a negative number (a huge \<open>size_t\<close>) gives null.
\<close>

definition server_init_common ::
  "(nat \<times> wsys) res \<Rightarrow> bool \<Rightarrow> int \<Rightarrow> bool \<Rightarrow> bool \<Rightarrow> int \<Rightarrow> int \<Rightarrow> nat \<Rightarrow> os_world \<Rightarrow> (server_t \<times> os_world) res" where
  "server_init_common pool clients_ok epoll_fd ctl_ok stack_ok max_connections fd address w =
     bind_res pool (\<lambda>(n, ws).
       if max_connections = 0 then Inl Assert_fail
       else if max_connections < 0 \<or> \<not> clients_ok then Inl Exit_fail
       else if epoll_fd < 0 \<or> \<not> ctl_ok then Inl Exit_fail
       else if \<not> stack_ok then Inl Exit_fail
       else let m = nat max_connections;
                empty = \<lparr>st_data = replicate m 0, st_head = 0, st_capacity = word_of_int max_connections\<rparr>
            in bind_res (push_down int_stack_push m empty) (\<lambda>fl.
              Inr (\<lparr>sv_fd = fd, sv_address = address, sv_num_workers = n, sv_workers = ws,
                     sv_clients = replicate m client_zero, sv_epoll = epoll_fd, sv_free_list = fl\<rparr>,
                   os_epoll_set fd None (os_open epoll_fd w))))"

text \<open>
  What \<open>server_append_client\<close> asks the system for: the time, the text of the address, whether
  \<open>epoll_ctl\<close> succeeds and whether \<open>http_send_response\<close> gets its buffer.
\<close>

record append_env =
  e_now :: int
  e_ntop :: "nat \<Rightarrow> string option"
  e_ctl_ok :: bool
  e_alloc_ok :: bool

definition service_unavailable :: "int \<Rightarrow> http_t" where
  "service_unavailable retry_in =
     snd (http_set_header
       (http_zero\<lparr>m_code := 503, m_reason := Some ''Service Unavailable'', m_body := Some ''Service Unavailable'',
         m_body_len := length ''Service Unavailable'', m_headers := [text_plain_header]\<rparr>)
       ''Retry-After'' (show_int retry_in))"

definition new_client :: "append_env \<Rightarrow> int \<Rightarrow> nat \<Rightarrow> int \<Rightarrow> client_t" where
  "new_client env fd address idx =
     client_zero\<lparr>c_fd := fd, c_address := address, c_last_recv := e_now env, c_idx := idx,
       c_ip_addr := (case e_ntop env address of None \<Rightarrow> [] | Some s \<Rightarrow> s)\<rparr>"

definition server_append_client ::
  "append_env \<Rightarrow> server_t \<Rightarrow> os_world \<Rightarrow> int \<Rightarrow> nat \<Rightarrow> int \<Rightarrow> (server_t \<times> os_world) res" where
  "server_append_client env sv w fd address oldest_client =
     (let (free_idx, fl) = int_stack_pop (sv_free_list sv) in
      if free_idx < 0 then
        bind_res (http_send_response (e_now env) (e_alloc_ok env) (service_unavailable (e_now env - oldest_client))) (\<lambda>out.
        bind_res (os_free address (os_close fd (os_send fd out w))) (\<lambda>w'.
          Inr (sv\<lparr>sv_free_list := fl\<rparr>, w')))
      else if nat free_idx \<ge> length (sv_clients sv) then Inl Undefined
      else
        let i = nat free_idx;
            cl = new_client env fd address free_idx;
            sv1 = sv\<lparr>sv_free_list := fl, sv_clients := (sv_clients sv)[i := cl]\<rparr>
        in if \<not> e_ctl_ok env then
             bind_res (os_free address (os_close fd w)) (\<lambda>w'.
               Inr (sv1\<lparr>sv_free_list := snd (int_stack_push fl free_idx)\<rparr>, w'))
           else Inr (sv1\<lparr>sv_clients := (sv_clients sv1)[i := (sv_clients sv1 ! i)\<lparr>c_is_alive := True\<rparr>]\<rparr>,
                     os_epoll_set fd (Some i) w))"

definition server_remove_client :: "server_t \<Rightarrow> os_world \<Rightarrow> client_t \<Rightarrow> (server_t \<times> os_world) res" where
  "server_remove_client sv w client =
     (let w1 = os_epoll_del (c_fd client) w;
          fl = snd (int_stack_push (sv_free_list sv) (c_idx client))
      in bind_res (os_free (c_address client) (os_close (c_fd client) w1)) (\<lambda>w2.
           if c_idx client < 0 \<or> nat (c_idx client) \<ge> length (sv_clients sv) then Inl Undefined
           else let i = nat (c_idx client)
                in Inr (sv\<lparr>sv_free_list := fl, sv_clients := (sv_clients sv)[i := (sv_clients sv ! i)\<lparr>c_is_alive := False\<rparr>]\<rparr>, w2)))"

text \<open>\<open>server_delete\<close>, up to \<open>worker_pool_delete\<close>, whose steps are in \<open>Worker_Threads\<close>.\<close>

fun delete_clients :: "client_t list \<Rightarrow> os_world \<Rightarrow> os_world res" where
  "delete_clients [] w = Inr w"
| "delete_clients (c # cs) w =
     (if \<not> c_is_alive c then delete_clients cs w
      else bind_res (os_free (c_address c) (os_close (c_fd c) w)) (delete_clients cs))"

definition server_delete :: "server_t \<Rightarrow> os_world \<Rightarrow> os_world res" where
  "server_delete sv w =
     (if length (sv_clients sv) < unat (st_capacity (sv_free_list sv)) then Inl Undefined
      else bind_res (delete_clients (take (unat (st_capacity (sv_free_list sv))) (sv_clients sv)) w) (\<lambda>w1.
        bind_res (os_free (sv_address sv) (os_close (sv_fd sv) w1)) (\<lambda>w2.
          Inr (os_close (sv_epoll sv) w2))))"

section \<open>Invariant\<close>

definition alive_slots :: "server_t \<Rightarrow> nat set" where
  "alive_slots sv = {i. i < length (sv_clients sv) \<and> c_is_alive (sv_clients sv ! i)}"

text \<open>Every slot is either alive or on the free list, once.\<close>

definition slots_inv :: "server_t \<Rightarrow> bool" where
  "slots_inv sv \<longleftrightarrow> stack_inv (sv_free_list sv) \<and>
     length (sv_clients sv) = unat (st_capacity (sv_free_list sv)) \<and>
     distinct (stack_items (sv_free_list sv)) \<and>
     set (stack_items (sv_free_list sv)) = int ` ({..<length (sv_clients sv)} - alive_slots sv) \<and>
     (\<forall>i\<in>alive_slots sv. c_idx (sv_clients sv ! i) = int i)"

definition client_fds :: "server_t \<Rightarrow> int set" where
  "client_fds sv = (\<lambda>i. c_fd (sv_clients sv ! i)) ` alive_slots sv"

definition client_blocks :: "server_t \<Rightarrow> nat set" where
  "client_blocks sv = (\<lambda>i. c_address (sv_clients sv ! i)) ` alive_slots sv"

text \<open>
  Ownership: every live slot owns a descriptor and an address block of its own and is registered
  under its slot; beside them the process holds the listening socket, the epoll instance and
  what is counted in \<open>F\<close> and \<open>H\<close>.
\<close>

definition owns_inv :: "int set \<Rightarrow> nat set \<Rightarrow> server_t \<Rightarrow> os_world \<Rightarrow> bool" where
  "owns_inv F H sv w \<longleftrightarrow>
     w_open w = client_fds sv \<union> {sv_fd sv, sv_epoll sv} \<union> F \<and>
     w_heap w = client_blocks sv \<union> {sv_address sv} \<union> H \<and>
     client_fds sv \<inter> ({sv_fd sv, sv_epoll sv} \<union> F) = {} \<and> client_blocks sv \<inter> ({sv_address sv, 0} \<union> H) = {} \<and>
     inj_on (\<lambda>i. c_fd (sv_clients sv ! i)) (alive_slots sv) \<and> inj_on (\<lambda>i. c_address (sv_clients sv ! i)) (alive_slots sv) \<and>
     (\<forall>i\<in>alive_slots sv. \<exists>b. w_epoll w (c_fd (sv_clients sv ! i)) = Some (Some i, b)) \<and>
     sv_fd sv \<noteq> sv_epoll sv \<and> sv_fd sv \<notin> F \<and> sv_epoll sv \<notin> F \<and> sv_address sv \<noteq> 0 \<and> sv_address sv \<notin> H"

definition server_inv :: "int set \<Rightarrow> nat set \<Rightarrow> server_t \<Rightarrow> os_world \<Rightarrow> bool" where
  "server_inv F H sv w \<longleftrightarrow> slots_inv sv \<and> owns_inv F H sv w"

lemma alive_slots_update:
  assumes "i < length (sv_clients sv)" and "c_is_alive c"
  shows "alive_slots (sv\<lparr>sv_free_list := fl, sv_clients := (sv_clients sv)[i := c]\<rparr>) = insert i (alive_slots sv)"
  using assms by (auto simp: alive_slots_def nth_list_update)

lemma alive_slots_clear:
  assumes "\<not> c_is_alive c"
  shows "alive_slots (sv\<lparr>sv_free_list := fl, sv_clients := (sv_clients sv)[i := c]\<rparr>) = alive_slots sv - {i}"
  using assms by (cases "i < length (sv_clients sv)")
    (auto simp: alive_slots_def nth_list_update list_update_beyond split: if_splits)

text \<open>Taking a slot from the free list and giving one back.\<close>

lemma pop_slot:
  assumes "slots_inv sv" and "stack_items (sv_free_list sv) = v # vs"
  obtains fl where "int_stack_pop (sv_free_list sv) = (v, fl)" and "stack_inv fl" and "stack_items fl = vs"
    and "st_capacity fl = st_capacity (sv_free_list sv)" and "0 \<le> v" and "nat v < length (sv_clients sv)"
    and "nat v \<notin> alive_slots sv"
proof -
  have inv: "stack_inv (sv_free_list sv)" using assms(1) by (simp add: slots_inv_def)
  from fls.pop_ok [OF inv assms(2)] obtain fl where fl: "int_stack_pop (sv_free_list sv) = (v, fl)" "stack_inv fl"
    "stack_items fl = vs" "unat (st_capacity fl) = unat (st_capacity (sv_free_list sv))" by blast
  have "v \<in> int ` ({..<length (sv_clients sv)} - alive_slots sv)"
    using assms by (metis list.set_intros(1) slots_inv_def)
  with fl show ?thesis by (intro that [of fl]) (auto simp: word_unat_eq_iff)
qed

lemma slots_occupy:
  assumes "slots_inv sv" and "stack_items (sv_free_list sv) = v # vs" and "stack_inv fl" and "stack_items fl = vs"
    and "st_capacity fl = st_capacity (sv_free_list sv)" and "c_is_alive c" and "c_idx c = v"
  shows "slots_inv (sv\<lparr>sv_free_list := fl, sv_clients := (sv_clients sv)[nat v := c]\<rparr>)"
proof -
  from assms(1,2) obtain v: "0 \<le> v" "nat v < length (sv_clients sv)" "nat v \<notin> alive_slots sv" by (rule pop_slot)
  let ?n = "{..<length (sv_clients sv)}"
  have s: "insert v (set vs) = int ` (?n - alive_slots sv)" "v \<notin> set vs" "distinct vs"
    using assms(1,2) by (auto simp: slots_inv_def)
  have "int ` (?n - insert (nat v) (alive_slots sv)) = int ` (?n - alive_slots sv) - {v}"
    using v(1) by (auto simp: image_iff)
  also have "\<dots> = set vs" using s by auto
  finally show ?thesis
    using assms v s(3) unfolding slots_inv_def alive_slots_update [OF v(2) assms(6)]
    by (auto simp: nth_list_update)
qed

lemma push_slot:
  assumes "slots_inv sv" and "i \<in> alive_slots sv"
  obtains fl where "int_stack_push (sv_free_list sv) (int i) = (True, fl)" and "stack_inv fl"
    and "stack_items fl = int i # stack_items (sv_free_list sv)" and "st_capacity fl = st_capacity (sv_free_list sv)"
proof -
  have inv: "stack_inv (sv_free_list sv)" and d: "distinct (stack_items (sv_free_list sv))"
    and set: "set (stack_items (sv_free_list sv)) = int ` ({..<length (sv_clients sv)} - alive_slots sv)"
    and len: "length (sv_clients sv) = unat (st_capacity (sv_free_list sv))"
    using assms(1) by (simp_all add: slots_inv_def)
  have "length (stack_items (sv_free_list sv)) = card ({..<length (sv_clients sv)} - alive_slots sv)"
    using distinct_card [OF d] by (simp add: set card_image)
  also have "\<dots> < card {..<length (sv_clients sv)}"
    using assms(2) by (intro psubset_card_mono) (auto simp: alive_slots_def)
  finally have "length (stack_items (sv_free_list sv)) < unat (st_capacity (sv_free_list sv))" by (simp add: len)
  from fls.push_ok [OF inv this, of "int i"] that show ?thesis by (auto simp: word_unat_eq_iff)
qed

lemma slots_release:
  assumes "slots_inv sv" and "i \<in> alive_slots sv" and "stack_inv fl"
    and "stack_items fl = int i # stack_items (sv_free_list sv)" and "st_capacity fl = st_capacity (sv_free_list sv)"
    and "\<not> c_is_alive c"
  shows "slots_inv (sv\<lparr>sv_free_list := fl, sv_clients := (sv_clients sv)[i := c]\<rparr>)"
proof -
  let ?n = "{..<length (sv_clients sv)}"
  have "?n - (alive_slots sv - {i}) = insert i (?n - alive_slots sv)"
    using assms(2) by (auto simp: alive_slots_def)
  then show ?thesis
    using assms unfolding slots_inv_def alive_slots_clear [OF assms(6)]
    by (auto simp: nth_list_update)
qed

section \<open>Resources of the operations\<close>

lemma nth_update_fresh: "i \<notin> A \<Longrightarrow> j \<in> A \<Longrightarrow> xs[i := c] ! j = xs ! j"
  by (cases "i = j") auto

lemma image_update_fresh:
  "i \<notin> A \<Longrightarrow> (\<lambda>j. f ((xs[i := c]) ! j)) ` A = (\<lambda>j. f (xs ! j)) ` A"
  by (intro image_cong) (auto simp: nth_update_fresh)

lemma inj_on_update_fresh:
  "i \<notin> A \<Longrightarrow> inj_on (\<lambda>j. f ((xs[i := c]) ! j)) A \<longleftrightarrow> inj_on (\<lambda>j. f (xs ! j)) A"
  by (intro inj_on_cong) (auto simp: nth_update_fresh)

lemma owns_occupy:
  assumes "owns_inv F H sv w" and "i < length (sv_clients sv)" and "i \<notin> alive_slots sv" and "c_is_alive c"
    and "c_fd c \<notin> w_open w" and "c_address c \<notin> w_heap w" and "c_address c \<noteq> 0"
    and "w_open w' = insert (c_fd c) (w_open w)" and "w_heap w' = insert (c_address c) (w_heap w)"
    and "w_epoll w' = (w_epoll w)(c_fd c \<mapsto> (Some i, True))"
  shows "owns_inv F H (sv\<lparr>sv_free_list := fl, sv_clients := (sv_clients sv)[i := c]\<rparr>) w'" (is "owns_inv F H ?sv w'")
proof -
  note upd = alive_slots_update [OF assms(2,4)]
  have fds: "client_fds ?sv = insert (c_fd c) (client_fds sv)"
    and blocks: "client_blocks ?sv = insert (c_address c) (client_blocks sv)"
    using assms(2,3) unfolding client_fds_def client_blocks_def upd by (simp_all add: image_update_fresh)
  have nfd: "c_fd c \<notin> client_fds sv \<union> {sv_fd sv, sv_epoll sv} \<union> F"
    and nad: "c_address c \<notin> client_blocks sv \<union> {sv_address sv} \<union> H"
    using assms(1,5,6) by (simp_all add: owns_inv_def)
  have inj: "inj_on (\<lambda>j. c_fd (sv_clients ?sv ! j)) (alive_slots ?sv)"
    "inj_on (\<lambda>j. c_address (sv_clients ?sv ! j)) (alive_slots ?sv)"
    using assms(1,2,3) nfd nad unfolding upd
    by (auto simp: owns_inv_def inj_on_update_fresh image_update_fresh client_fds_def client_blocks_def)
  have ep: "\<forall>j\<in>alive_slots ?sv. \<exists>b. w_epoll w' (c_fd (sv_clients ?sv ! j)) = Some (Some j, b)"
  proof
    fix j
    assume "j \<in> alive_slots ?sv"
    then consider "j = i" | "j \<noteq> i" "j \<in> alive_slots sv" unfolding upd by blast
    then show "\<exists>b. w_epoll w' (c_fd (sv_clients ?sv ! j)) = Some (Some j, b)"
    proof cases
      case 2
      then have "c_fd (sv_clients sv ! j) \<noteq> c_fd c" using nfd by (metis UnCI client_fds_def imageI)
      with 2 assms(1,10) show ?thesis by (simp add: owns_inv_def)
    qed (auto simp: assms(2,10))
  qed
  show ?thesis
    using assms(1) nfd nad inj ep assms(7,8,9) unfolding owns_inv_def fds blocks by auto
qed

lemma owns_release:
  assumes "owns_inv F H sv w" and "i \<in> alive_slots sv" and "\<not> c_is_alive c"
    and "w_open w' = w_open w - {c_fd (sv_clients sv ! i)}" and "w_heap w' = w_heap w - {c_address (sv_clients sv ! i)}"
    and "w_epoll w' = (w_epoll w)(c_fd (sv_clients sv ! i) := None)"
  shows "owns_inv F H (sv\<lparr>sv_free_list := fl, sv_clients := (sv_clients sv)[i := c]\<rparr>) w'" (is "owns_inv F H ?sv w'")
proof -
  note upd = alive_slots_clear [OF assms(3)]
  have inj: "inj_on (\<lambda>j. c_fd (sv_clients sv ! j)) (alive_slots sv)" "inj_on (\<lambda>j. c_address (sv_clients sv ! j)) (alive_slots sv)"
    using assms(1) by (simp_all add: owns_inv_def)
  have fds: "client_fds ?sv = client_fds sv - {c_fd (sv_clients sv ! i)}"
    and blocks: "client_blocks ?sv = client_blocks sv - {c_address (sv_clients sv ! i)}"
    using inj_on_image_set_diff [OF inj(1), of "alive_slots sv" "{i}"] inj_on_image_set_diff [OF inj(2), of "alive_slots sv" "{i}"] assms(2)
    unfolding client_fds_def client_blocks_def upd by (simp_all add: image_update_fresh)
  have inj': "inj_on (\<lambda>j. c_fd (sv_clients ?sv ! j)) (alive_slots ?sv)" "inj_on (\<lambda>j. c_address (sv_clients ?sv ! j)) (alive_slots ?sv)"
    unfolding upd using inj by (auto simp: inj_on_update_fresh intro: inj_on_diff)
  have ep: "\<forall>j\<in>alive_slots ?sv. \<exists>b. w_epoll w' (c_fd (sv_clients ?sv ! j)) = Some (Some j, b)"
  proof
    fix j
    assume "j \<in> alive_slots ?sv"
    then have j: "j \<noteq> i" "j \<in> alive_slots sv" unfolding upd by auto
    then have "c_fd (sv_clients sv ! j) \<noteq> c_fd (sv_clients sv ! i)" using inj_onD [OF inj(1)] assms(2) by blast
    with j assms(1,6) show "\<exists>b. w_epoll w' (c_fd (sv_clients ?sv ! j)) = Some (Some j, b)" by (simp add: owns_inv_def)
  qed
  have mem: "c_fd (sv_clients sv ! i) \<in> client_fds sv" "c_address (sv_clients sv ! i) \<in> client_blocks sv"
    using assms(2) by (auto simp: client_fds_def client_blocks_def)
  show ?thesis
    using assms(1,4,5) inj' ep mem unfolding owns_inv_def fds blocks by auto
qed

lemma owns_frame:
  assumes "owns_inv F H sv w" and "alive_slots sv' = alive_slots sv"
    and "\<forall>j\<in>alive_slots sv. c_fd (sv_clients sv' ! j) = c_fd (sv_clients sv ! j) \<and>
      c_address (sv_clients sv' ! j) = c_address (sv_clients sv ! j)"
    and "sv_fd sv' = sv_fd sv" and "sv_epoll sv' = sv_epoll sv" and "sv_address sv' = sv_address sv"
    and "w_open w' = w_open w" and "w_heap w' = w_heap w"
    and "\<forall>j\<in>alive_slots sv. w_epoll w' (c_fd (sv_clients sv ! j)) = w_epoll w (c_fd (sv_clients sv ! j))"
  shows "owns_inv F H sv' w'"
proof -
  have fds: "client_fds sv' = client_fds sv" "client_blocks sv' = client_blocks sv"
    using assms(3) by (simp_all add: client_fds_def client_blocks_def assms(2))
  have inj: "inj_on (\<lambda>j. c_fd (sv_clients sv' ! j)) (alive_slots sv)" "inj_on (\<lambda>j. c_address (sv_clients sv' ! j)) (alive_slots sv)"
    using assms(1,3) by (auto simp: owns_inv_def inj_on_def)
  show ?thesis using assms(1,3,9) inj unfolding owns_inv_def fds assms(2,4-8) by simp
qed

lemma service_unavailable_sent:
  assumes "0 \<le> now" and "now < 1000000000000" and "\<bar>retry\<bar> < 10 ^ 19"
  shows "http_send_response now alloc_ok (service_unavailable retry) =
    Inr (if alloc_ok then Some (response_head now (service_unavailable retry) @ ''Service Unavailable'') else None)"
proof -
  have "nat (- retry) < 10 ^ 19" "nat retry < 10 ^ 19" using assms(3) by auto
  then have "length (show_int retry) \<le> 20"
    using show_nat_length [of "nat (- retry)" 19] show_nat_length [of "nat retry" 19] by (auto simp: show_int_def)
  moreover have "service_unavailable retry = http_zero\<lparr>m_code := 503, m_reason := Some ''Service Unavailable'', m_body := Some ''Service Unavailable'',
         m_body_len := length ''Service Unavailable'', m_headers := [text_plain_header, \<lparr>h_name = ''Retry-After'', h_value = show_int retry\<rparr>]\<rparr>"
    by (simp add: service_unavailable_def http_set_header_def text_plain_header_def strcaseeq_def HTTP_MAX_HEADERS_def http_zero_def)
  ultimately show ?thesis
    by (subst short_response_sent(2) [where rs = "''Service Unavailable''", OF assms(1,2)])
      (auto simp: http_zero_def text_plain_header_def hdr_pair_def with_content_type_def http_has_header_def
        http_get_header_def strcaseeq_def body_bytes_def)
qed

text \<open>What a client that is turned away reads.\<close>

lemma service_unavailable_parsed:
  "\<exists>resp. http_response_parse (response_head now (service_unavailable retry) @ ''Service Unavailable'') = Inr resp \<and>
    m_code resp = 503 \<and> m_reason resp = Some ''Service Unavailable'' \<and> m_body resp = Some ''Service Unavailable'' \<and>
    http_get_header resp ''Retry-After'' = Some (show_int retry)"
proof -
  let ?r = "service_unavailable retry"
  have r: "?r = http_zero\<lparr>m_code := 503, m_reason := Some ''Service Unavailable'', m_body := Some ''Service Unavailable'',
         m_body_len := length ''Service Unavailable'', m_headers := [text_plain_header, \<lparr>h_name = ''Retry-After'', h_value = show_int retry\<rparr>]\<rparr>"
    by (simp add: service_unavailable_def http_set_header_def text_plain_header_def strcaseeq_def HTTP_MAX_HEADERS_def http_zero_def)
  have ct: "with_content_type ?r = ?r"
    by (simp add: r with_content_type_def http_has_header_def http_get_header_def strcaseeq_def text_plain_header_def)
  have "response_ok now ?r"
    unfolding response_ok_def all_headers_def ct using value_ok_show_int [of retry]
    by (simp add: r own_headers_def headers_ok_def hdr_pair_def body_ok_def headers_wf_def mk_header_def http_zero_def
        text_plain_header_def name_ok_def tolower_c_def HTTP_MAX_HEADERS_def HTTP_VERSION_1_1_def value_ok_def [of "''text/plain''"])
  from parse_response_head [OF this]
  have "http_response_parse (response_head now ?r @ ''Service Unavailable'') = Inr (?r\<lparr>m_headers := all_headers now ?r\<rparr>)"
    by (simp add: r body_bytes_def)
  moreover have "http_get_header (?r\<lparr>m_headers := all_headers now ?r\<rparr>) ''Retry-After'' = Some (show_int retry)"
    unfolding all_headers_def ct by (simp add: r own_headers_def http_get_header_def mk_header_def strcaseeq_def tolower_c_def text_plain_header_def)
  ultimately show ?thesis by (simp add: r)
qed

section \<open>The operations keep the invariant\<close>

text \<open>Time stamps as they occur: a system clock before the year 33658 and stamps taken from it.\<close>

definition clock_ok :: "int \<Rightarrow> int \<Rightarrow> bool" where
  "clock_ok now oldest \<longleftrightarrow> 0 \<le> now \<and> now < 1000000000000 \<and> 0 \<le> oldest \<and> oldest < 1000000000000"

lemma append_exhausted:
  assumes "slots_inv sv" and "stack_items (sv_free_list sv) = []" and "fd \<notin> w_open w" and "address \<notin> w_heap w"
    and "address \<noteq> 0" and "clock_ok (e_now env) oldest"
  shows "\<exists>w'. server_append_client env sv (os_accept fd address w) fd address oldest = Inr (sv, w') \<and>
    w_open w' = w_open w \<and> w_heap w' = w_heap w \<and> w_epoll w' = (w_epoll w)(fd := None) \<and>
    w_sent w' = w_sent w @ (if e_alloc_ok env
      then [(fd, response_head (e_now env) (service_unavailable (e_now env - oldest)) @ ''Service Unavailable'')] else [])"
proof -
  have "int_stack_pop (sv_free_list sv) = (-1, sv_free_list sv)"
    using assms(1,2) by (intro fls.pop_empty) (simp_all add: slots_inv_def)
  moreover have "\<bar>e_now env - oldest\<bar> < 10 ^ 19" using assms(6) by (simp add: clock_ok_def abs_less_iff)
  ultimately show ?thesis
    using assms(3-6) service_unavailable_sent [of "e_now env" "e_now env - oldest" "e_alloc_ok env"]
    by (simp add: server_append_client_def clock_ok_def os_free_def os_defs os_send_def insert_absorb)
qed

lemma append_accepted:
  assumes "server_inv F H sv w" and "stack_items (sv_free_list sv) = v # vs" and "fd \<notin> w_open w"
    and "address \<notin> w_heap w" and "address \<noteq> 0" and "e_ctl_ok env"
  shows "\<exists>sv' w'. server_append_client env sv (os_accept fd address w) fd address oldest = Inr (sv', w') \<and>
    server_inv F H sv' w' \<and> nat v \<notin> alive_slots sv \<and> alive_slots sv' = insert (nat v) (alive_slots sv) \<and>
    sv_clients sv' = (sv_clients sv)[nat v := (new_client env fd address v)\<lparr>c_is_alive := True\<rparr>] \<and>
    w_epoll w' fd = Some (Some (nat v), True)"
proof -
  have slots: "slots_inv sv" and owns: "owns_inv F H sv w" using assms(1) by (simp_all add: server_inv_def)
  obtain fl where fl: "int_stack_pop (sv_free_list sv) = (v, fl)" "stack_inv fl" "stack_items fl = vs"
    "st_capacity fl = st_capacity (sv_free_list sv)" and v: "0 \<le> v" "nat v < length (sv_clients sv)" "nat v \<notin> alive_slots sv"
    using slots assms(2) by (rule pop_slot)
  define c where "c = (new_client env fd address v)\<lparr>c_is_alive := True\<rparr>"
  define sv' where "sv' = sv\<lparr>sv_free_list := fl, sv_clients := (sv_clients sv)[nat v := c]\<rparr>"
  define w' where "w' = os_epoll_set fd (Some (nat v)) (os_accept fd address w)"
  have c: "c_is_alive c" "c_idx c = v" "c_fd c = fd" "c_address c = address" by (simp_all add: c_def new_client_def)
  have run: "server_append_client env sv (os_accept fd address w) fd address oldest = Inr (sv', w')"
    using fl(1) v(1,2) assms(6) by (simp add: server_append_client_def sv'_def w'_def c_def Let_def)
  have "slots_inv sv'" unfolding sv'_def by (rule slots_occupy [OF slots assms(2) fl(2-4) c(1,2)])
  moreover have "owns_inv F H sv' w'"
    unfolding sv'_def by (rule owns_occupy [OF owns v(2,3) c(1)]) (use assms(3-5) in \<open>simp_all add: c w'_def os_defs\<close>)
  ultimately show ?thesis
    using run v(3) alive_slots_update [OF v(2) c(1), where fl = fl]
    by (auto simp: server_inv_def sv'_def w'_def c_def os_defs)
qed

lemma append_ctl_failed:
  assumes "server_inv F H sv w" and "stack_items (sv_free_list sv) = v # vs" and "fd \<notin> w_open w"
    and "address \<notin> w_heap w" and "address \<noteq> 0" and "\<not> e_ctl_ok env"
  shows "\<exists>sv' w'. server_append_client env sv (os_accept fd address w) fd address oldest = Inr (sv', w') \<and>
    server_inv F H sv' w' \<and> alive_slots sv' = alive_slots sv \<and> stack_items (sv_free_list sv') = v # vs \<and>
    w_open w' = w_open w \<and> w_heap w' = w_heap w"
proof -
  have slots: "slots_inv sv" and owns: "owns_inv F H sv w" using assms(1) by (simp_all add: server_inv_def)
  obtain fl where fl: "int_stack_pop (sv_free_list sv) = (v, fl)" "stack_inv fl" "stack_items fl = vs"
    "st_capacity fl = st_capacity (sv_free_list sv)" and v: "0 \<le> v" "nat v < length (sv_clients sv)" "nat v \<notin> alive_slots sv"
    using slots assms(2) by (rule pop_slot)
  have inv: "stack_inv (sv_free_list sv)" using slots by (simp add: slots_inv_def)
  have "length (stack_items fl) < unat (st_capacity fl)" using fls.within [OF inv] assms(2) fl(3,4) by simp
  from fls.push_ok [OF fl(2) this, of v] obtain fl' where fl': "int_stack_push fl v = (True, fl')" "stack_inv fl'"
    "stack_items fl' = v # vs" "st_capacity fl' = st_capacity fl" using fl(3) by (auto simp: word_unat_eq_iff)
  define c where "c = new_client env fd address v"
  define sv' where "sv' = sv\<lparr>sv_free_list := fl', sv_clients := (sv_clients sv)[nat v := c]\<rparr>"
  define w' where "w' = (os_close fd (os_accept fd address w))\<lparr>w_heap := w_heap w\<rparr>"
  have c: "\<not> c_is_alive c" by (simp add: c_def new_client_def client_zero_def)
  have run: "server_append_client env sv (os_accept fd address w) fd address oldest = Inr (sv', w')"
    using fl(1) fl'(1) v(1,2) assms(3-6)
    by (simp add: server_append_client_def sv'_def w'_def c_def os_free_def os_defs Let_def)
  have al: "alive_slots sv' = alive_slots sv" using alive_slots_clear [OF c, where sv = sv and fl = fl' and i = "nat v"] v(3) by (simp add: sv'_def)
  have same: "\<forall>j\<in>alive_slots sv. sv_clients sv' ! j = sv_clients sv ! j"
    using v(3) by (auto simp: sv'_def nth_update_fresh)
  have "slots_inv sv'" using slots fl' fl(4) assms(2) same al by (simp add: slots_inv_def sv'_def)
  moreover have frame: "w_open w' = w_open w" "w_heap w' = w_heap w" "w_epoll w' = (w_epoll w)(fd := None)"
    using assms(3) by (auto simp: w'_def os_defs)
  moreover have "owns_inv F H sv' w'"
  proof (rule owns_frame [OF owns al])
    show "\<forall>j\<in>alive_slots sv. w_epoll w' (c_fd (sv_clients sv ! j)) = w_epoll w (c_fd (sv_clients sv ! j))"
      using assms(3) owns frame(3) by (auto simp: owns_inv_def client_fds_def)
  qed (use same frame in \<open>simp_all add: sv'_def\<close>)
  ultimately show ?thesis using run al fl'(3) by (auto simp: server_inv_def sv'_def)
qed

lemma remove_alive:
  assumes "server_inv F H sv w" and "i \<in> alive_slots sv"
  shows "\<exists>sv' w'. server_remove_client sv w (sv_clients sv ! i) = Inr (sv', w') \<and> server_inv F H sv' w' \<and>
    alive_slots sv' = alive_slots sv - {i} \<and> stack_items (sv_free_list sv') = int i # stack_items (sv_free_list sv) \<and>
    w_open w' = w_open w - {c_fd (sv_clients sv ! i)} \<and> w_heap w' = w_heap w - {c_address (sv_clients sv ! i)}"
proof -
  have slots: "slots_inv sv" and owns: "owns_inv F H sv w" using assms(1) by (simp_all add: server_inv_def)
  obtain fl where fl: "int_stack_push (sv_free_list sv) (int i) = (True, fl)" "stack_inv fl"
    "stack_items fl = int i # stack_items (sv_free_list sv)" "st_capacity fl = st_capacity (sv_free_list sv)"
    using slots assms(2) by (rule push_slot)
  define c where "c = sv_clients sv ! i"
  define c' where "c' = c\<lparr>c_is_alive := False\<rparr>"
  define sv' where "sv' = sv\<lparr>sv_free_list := fl, sv_clients := (sv_clients sv)[i := c']\<rparr>"
  define w' where "w' = (os_close (c_fd c) (os_epoll_del (c_fd c) w))\<lparr>w_heap := w_heap w - {c_address c}\<rparr>"
  have i: "i < length (sv_clients sv)" using assms(2) by (simp add: alive_slots_def)
  have idx: "c_idx c = int i" using slots assms(2) by (simp add: slots_inv_def c_def)
  have "c_address c \<in> client_blocks sv" using assms(2) by (simp add: client_blocks_def c_def)
  then have ad: "c_address c \<in> w_heap w" "c_address c \<noteq> 0" using owns by (auto simp: owns_inv_def)
  have run: "server_remove_client sv w c = Inr (sv', w')"
    using ad i fl(1) by (simp add: server_remove_client_def idx sv'_def w'_def c'_def c_def [symmetric] os_free_def os_defs Let_def)
  have c': "\<not> c_is_alive c'" by (simp add: c'_def)
  have "slots_inv sv'" unfolding sv'_def by (rule slots_release [OF slots assms(2) fl(2-4) c'])
  moreover have "owns_inv F H sv' w'"
    unfolding sv'_def by (rule owns_release [OF owns assms(2) c']) (simp_all add: w'_def c_def os_defs)
  ultimately show ?thesis
    using run fl(3) alive_slots_clear [OF c', where sv = sv and fl = fl and i = i]
    by (auto simp: server_inv_def sv'_def w'_def c_def [symmetric] os_defs)
qed

lemma server_init_ok:
  assumes "0 < max_connections" and "max_connections < 2 ^ 31" and "0 \<le> epoll_fd" and "epoll_fd \<notin> w_open w"
    and "fd \<in> w_open w" and "address \<in> w_heap w" and "address \<noteq> 0"
  shows "\<exists>sv w'. server_init_common (Inr (n, ws)) True epoll_fd True True max_connections fd address w = Inr (sv, w') \<and>
    server_inv (w_open w - {fd}) (w_heap w - {address}) sv w' \<and> alive_slots sv = {} \<and> sv_workers sv = ws \<and>
    stack_items (sv_free_list sv) = map int [0..<nat max_connections] \<and> w_epoll w' fd = Some (None, True)"
proof -
  define m where "m = nat max_connections"
  define empty where "empty = \<lparr>st_data = replicate m 0, st_head = 0, st_capacity = word_of_int max_connections :: 32 word\<rparr>"
  have m: "unat (word_of_int max_connections :: 32 word) = m"
    using assms(1,2) by (simp add: m_def unsigned_of_int take_bit_int_eq_self)
  then have "stack_inv empty" "length (stack_items empty) + m \<le> unat (st_capacity empty)"
    by (simp_all add: empty_def stack_inv_def stack_items_def)
  from fls.push_down_ok [OF this] obtain fl where fl: "push_down int_stack_push m empty = Inr fl" "stack_inv fl"
    "stack_items fl = map int [0..<m]" "unat (st_capacity fl) = m"
    by (auto simp: empty_def m stack_items_def)
  define sv where "sv = \<lparr>sv_fd = fd, sv_address = address, sv_num_workers = n, sv_workers = ws,
    sv_clients = replicate m client_zero, sv_epoll = epoll_fd, sv_free_list = fl\<rparr>"
  define w' where "w' = os_epoll_set fd None (os_open epoll_fd w)"
  have run: "server_init_common (Inr (n, ws)) True epoll_fd True True max_connections fd address w = Inr (sv, w')"
    using assms(1,3) fl(1) by (simp add: server_init_common_def Let_def m_def [symmetric] empty_def sv_def w'_def)
  have al: "alive_slots sv = {}" by (auto simp: alive_slots_def sv_def client_zero_def)
  have "slots_inv sv" unfolding slots_inv_def al using fl(2-4) by (simp add: sv_def distinct_map atLeast0LessThan)
  moreover have "owns_inv (w_open w - {fd}) (w_heap w - {address}) sv w'"
    using assms(4-7) unfolding owns_inv_def client_fds_def client_blocks_def al by (auto simp: sv_def w'_def os_defs)
  ultimately show ?thesis
    using run al fl(3) by (auto simp: server_inv_def m_def sv_def w'_def os_defs)
qed

section \<open>Release of everything\<close>

lemma subset_drop: "a \<notin> A \<Longrightarrow> insert a A \<subseteq> B - C \<Longrightarrow> A \<subseteq> B - {a} - C"
  by blast

lemma delete_clients_frees:
  assumes "distinct (map c_address (filter c_is_alive cs))" and "c_address ` {c \<in> set cs. c_is_alive c} \<subseteq> w_heap w - {0}"
  shows "\<exists>w'. delete_clients cs w = Inr w' \<and> w_open w' = w_open w - c_fd ` {c \<in> set cs. c_is_alive c} \<and>
    w_heap w' = w_heap w - c_address ` {c \<in> set cs. c_is_alive c} \<and> w_sent w' = w_sent w"
  using assms
proof (induction cs arbitrary: w)
  case (Cons c cs)
  show ?case
  proof (cases "c_is_alive c")
    case False
    then have "{c' \<in> set (c # cs). c_is_alive c'} = {c' \<in> set cs. c_is_alive c'}" by auto
    with False Cons show ?thesis by simp
  next
    case True
    then have eq: "{c' \<in> set (c # cs). c_is_alive c'} = insert c {c' \<in> set cs. c_is_alive c'}" by auto
    define w1 where "w1 = (os_close (c_fd c) w)\<lparr>w_heap := w_heap w - {c_address c}\<rparr>"
    have free: "os_free (c_address c) (os_close (c_fd c) w) = Inr w1"
      using Cons.prems(2) True by (auto simp: os_free_def w1_def os_defs)
    have "c_address ` {c' \<in> set cs. c_is_alive c'} \<subseteq> w_heap w1 - {0}"
    proof -
      have "c_address c \<notin> c_address ` {c' \<in> set cs. c_is_alive c'}" using Cons.prems(1) True by simp
      from subset_drop [OF this Cons.prems(2) [unfolded eq image_insert]] show ?thesis by (simp add: w1_def)
    qed
    with Cons.IH [of w1] Cons.prems(1) True obtain w' where "delete_clients cs w1 = Inr w'"
      "w_open w' = w_open w1 - c_fd ` {c' \<in> set cs. c_is_alive c'}"
      "w_heap w' = w_heap w1 - c_address ` {c' \<in> set cs. c_is_alive c'}" "w_sent w' = w_sent w1" by auto
    with True free show ?thesis unfolding eq by (auto simp: w1_def os_defs)
  qed
qed simp

lemma alive_clients: "f ` {c \<in> set (sv_clients sv). c_is_alive c} = (\<lambda>i. f (sv_clients sv ! i)) ` alive_slots sv"
  by (auto simp: alive_slots_def in_set_conv_nth image_iff)

lemma alive_addresses_distinct:
  assumes "inj_on (\<lambda>i. c_address (sv_clients sv ! i)) (alive_slots sv)"
  shows "distinct (map c_address (filter c_is_alive (sv_clients sv)))"
proof -
  have "map c_address (filter c_is_alive (sv_clients sv)) =
      map (\<lambda>i. c_address (sv_clients sv ! i)) (filter (\<lambda>i. c_is_alive (sv_clients sv ! i)) [0..<length (sv_clients sv)])"
    by (subst map_nth [symmetric, of "sv_clients sv"]) (simp add: filter_map comp_def)
  moreover have "set (filter (\<lambda>i. c_is_alive (sv_clients sv ! i)) [0..<length (sv_clients sv)]) = alive_slots sv"
    by (auto simp: alive_slots_def)
  ultimately show ?thesis using assms by (simp add: distinct_map)
qed

lemma server_delete_frees:
  assumes "server_inv F H sv w"
  shows "\<exists>w'. server_delete sv w = Inr w' \<and> w_open w' = F \<and> w_heap w' = H"
proof -
  have owns: "owns_inv F H sv w" and len: "length (sv_clients sv) = unat (st_capacity (sv_free_list sv))"
    using assms by (simp_all add: server_inv_def slots_inv_def)
  have d: "distinct (map c_address (filter c_is_alive (sv_clients sv)))"
    using owns by (intro alive_addresses_distinct) (simp add: owns_inv_def)
  have "c_address ` {c \<in> set (sv_clients sv). c_is_alive c} \<subseteq> w_heap w - {0}"
    using owns unfolding alive_clients client_blocks_def [symmetric] by (auto simp: owns_inv_def)
  from delete_clients_frees [OF d this] obtain w1 where w1: "delete_clients (sv_clients sv) w = Inr w1"
    "w_open w1 = w_open w - client_fds sv" "w_heap w1 = w_heap w - client_blocks sv"
    by (auto simp: alive_clients client_fds_def client_blocks_def)
  have "w_open w1 = {sv_fd sv, sv_epoll sv} \<union> F" "w_heap w1 = {sv_address sv} \<union> H"
    using owns unfolding w1 owns_inv_def by auto
  with owns w1(1) show ?thesis
    by (auto simp: server_delete_def len [symmetric] os_free_def os_defs owns_inv_def)
qed

section \<open>Histories\<close>

text \<open>
  What happens to the slots over time: a client is accepted (the system hands out a descriptor
  and a block that are not in use), a live client is removed, or the main loop and the
  callback set \<open>in_flight\<close> and \<open>last_recv\<close> of a slot.
\<close>

inductive sstep :: "server_t \<times> os_world \<Rightarrow> server_t \<times> os_world \<Rightarrow> bool" where
  accept: "fd \<notin> w_open w \<Longrightarrow> address \<notin> w_heap w \<Longrightarrow> address \<noteq> 0 \<Longrightarrow> clock_ok (e_now env) oldest \<Longrightarrow>
    server_append_client env sv (os_accept fd address w) fd address oldest = Inr s' \<Longrightarrow> sstep (sv, w) s'"
| remove: "i \<in> alive_slots sv \<Longrightarrow> server_remove_client sv w (sv_clients sv ! i) = Inr s' \<Longrightarrow> sstep (sv, w) s'"
| touch: "i < length (sv_clients sv) \<Longrightarrow>
    sstep (sv, w) (sv\<lparr>sv_clients := (sv_clients sv)[i := (sv_clients sv ! i)\<lparr>c_last_recv := t, c_in_flight := b\<rparr>]\<rparr>, w)"

inductive_cases sstep_elim: "sstep s t"

lemma touch_inv:
  assumes "server_inv F H sv w" and "i < length (sv_clients sv)"
  shows "server_inv F H (sv\<lparr>sv_clients := (sv_clients sv)[i := (sv_clients sv ! i)\<lparr>c_last_recv := t, c_in_flight := b\<rparr>]\<rparr>) w"
    (is "server_inv F H ?sv w")
proof -
  have al: "alive_slots ?sv = alive_slots sv" using assms(2) by (auto simp: alive_slots_def nth_list_update split: if_splits)
  have "slots_inv ?sv"
    using assms unfolding server_inv_def slots_inv_def al by (auto simp: nth_list_update)
  moreover have "owns_inv F H ?sv w"
    using assms by (intro owns_frame [OF _ al]) (auto simp: server_inv_def nth_list_update)
  ultimately show ?thesis by (simp add: server_inv_def)
qed

text \<open>Accepting never faults.\<close>

lemma append_total:
  assumes "server_inv F H sv w" and "fd \<notin> w_open w" and "address \<notin> w_heap w" and "address \<noteq> 0"
    and "clock_ok (e_now env) oldest"
  shows "\<exists>sv' w'. server_append_client env sv (os_accept fd address w) fd address oldest = Inr (sv', w') \<and> server_inv F H sv' w'"
proof (cases "stack_items (sv_free_list sv)")
  case Nil
  have slots: "slots_inv sv" and owns: "owns_inv F H sv w" using assms(1) by (simp_all add: server_inv_def)
  from append_exhausted [OF slots Nil assms(2-5)] obtain w' where
    w': "server_append_client env sv (os_accept fd address w) fd address oldest = Inr (sv, w')"
      "w_open w' = w_open w" "w_heap w' = w_heap w" "w_epoll w' = (w_epoll w)(fd := None)" by blast
  have "\<forall>j\<in>alive_slots sv. w_epoll w' (c_fd (sv_clients sv ! j)) = w_epoll w (c_fd (sv_clients sv ! j))"
    using assms(2) owns w'(4) by (auto simp: owns_inv_def client_fds_def)
  with w' owns have "owns_inv F H sv w'" by (intro owns_frame [OF owns refl]) simp_all
  with w'(1) slots show ?thesis by (auto simp: server_inv_def)
next
  case (Cons v vs)
  show ?thesis
  proof (cases "e_ctl_ok env")
    case True
    from append_accepted [OF assms(1) Cons assms(2-4) True] show ?thesis by blast
  next
    case False
    from append_ctl_failed [OF assms(1) Cons assms(2-4) False] show ?thesis by blast
  qed
qed

lemma sstep_inv: "sstep s t \<Longrightarrow> server_inv F H (fst s) (snd s) \<Longrightarrow> server_inv F H (fst t) (snd t)"
proof (induction rule: sstep.induct)
  case (accept fd w address env oldest sv s')
  from append_total [of F H sv w fd address env oldest] accept show ?case by auto
next
  case (remove i sv w s')
  from remove_alive [of F H sv w i] remove show ?case by auto
next
  case (touch i sv w b t)
  then show ?case by (simp add: touch_inv)
qed

interpretation srv: invariant_steps sstep "\<lambda>s. server_inv F H (fst s) (snd s)"
  by unfold_locales (rule sstep_inv)

section \<open>Properties of the server\<close>

text \<open>A system that holds a listening socket and nothing else.\<close>

definition world0 :: os_world where
  "world0 = \<lparr>w_open = {3}, w_heap = {7}, w_epoll = (\<lambda>_. None), w_nonblock = {3}, w_sent = [], w_unlinked = [],
     w_timeo = (\<lambda>_. None)\<rparr>"

definition sample_env :: append_env where
  "sample_env = \<lparr>e_now = 100, e_ntop = (\<lambda>_. Some ''10.0.0.1''), e_ctl_ok = True, e_alloc_ok = True\<rparr>"

definition idle_server :: server_t where
  "idle_server = \<lparr>sv_fd = 3, sv_address = 7, sv_num_workers = 1, sv_workers = wsys_init 1 empty_queue,
     sv_clients = [client_zero], sv_epoll = 4, sv_free_list = \<lparr>st_data = [0], st_head = 1, st_capacity = 1\<rparr>\<rparr>"

definition idle_world :: os_world where
  "idle_world = \<lparr>w_open = {4, 3}, w_heap = {7}, w_epoll = [3 \<mapsto> (None, True)], w_nonblock = {3}, w_sent = [], w_unlinked = [],
     w_timeo = (\<lambda>_. None)\<rparr>"

text \<open>The same server when its only slot is taken.\<close>

definition full_server :: server_t where
  "full_server = idle_server\<lparr>sv_clients := [\<lparr>c_fd = 5, c_address = 8, c_last_recv = 100, c_idx = 0, c_is_alive = True,
     c_in_flight = False, c_ip_addr = ''10.0.0.1''\<rparr>], sv_free_list := \<lparr>st_data = [0], st_head = 0, st_capacity = 1\<rparr>\<rparr>"

definition full_world :: os_world where
  "full_world = \<lparr>w_open = {3, 4, 5}, w_heap = {7, 8}, w_epoll = [3 \<mapsto> (None, True), 5 \<mapsto> (Some 0, True)],
     w_nonblock = {3, 5}, w_sent = [], w_unlinked = [],
     w_timeo = (\<lambda>_. None)\<rparr>"

lemma full_alive: "alive_slots full_server = {0}"
  by (auto simp: alive_slots_def full_server_def)

lemma full_inv: "server_inv {} {} full_server full_world"
  unfolding server_inv_def slots_inv_def owns_inv_def client_fds_def client_blocks_def full_alive
  by (auto simp: full_server_def full_world_def idle_server_def stack_inv_def stack_items_def)

lemma sample_step: "sstep (idle_server, idle_world) (full_server, full_world)"
  by (rule sstep.accept [of 5 _ 8 sample_env 0])
     (auto simp: idle_server_def idle_world_def sample_env_def clock_ok_def full_server_def full_world_def
       server_append_client_def int_stack_pop_def new_client_def client_zero_def os_defs)

lemma sample_init:
  "\<exists>sv w. server_init_common (Inr (n, ws)) True 4 True True 1 3 7 world0 = Inr (sv, w) \<and>
    server_inv {} {} sv w \<and> alive_slots sv = {} \<and> stack_items (sv_free_list sv) = [0]"
  using server_init_ok [of 1 4 world0 3 7 n ws] by (auto simp: world0_def)

text \<open>
  While a slot is free, an accepted client gets the slot on top of the free list: the slot was
  not alive before and is now, holding the client's descriptor and address, no other slot
  changes, the descriptor is registered under that slot, and the invariant (live and free
  slots partition the table, every live slot owns its own descriptor and block) is kept.
\<close>

theorem append_takes_free_slot:
  assumes "server_inv F H sv w" and "stack_items (sv_free_list sv) = v # vs" and "fd \<notin> w_open w"
    and "address \<notin> w_heap w" and "address \<noteq> 0" and "e_ctl_ok env"
  shows "\<exists>sv' w'. server_append_client env sv (os_accept fd address w) fd address oldest = Inr (sv', w') \<and>
    server_inv F H sv' w' \<and> nat v \<notin> alive_slots sv \<and> alive_slots sv' = insert (nat v) (alive_slots sv) \<and>
    sv_clients sv' = (sv_clients sv)[nat v := (new_client env fd address v)\<lparr>c_is_alive := True\<rparr>] \<and>
    w_epoll w' fd = Some (Some (nat v), True)"
  by (rule append_accepted [OF assms])

theorem append_takes_free_slot_witness:
  "\<exists>sv w sv' w'. server_init_common (Inr (1, wsys_init 1 empty_queue)) True 4 True True 1 3 7 world0 = Inr (sv, w) \<and>
    server_append_client sample_env sv (os_accept 5 8 w) 5 8 0 = Inr (sv', w') \<and> alive_slots sv' = {0} \<and>
    w_epoll w' 5 = Some (Some 0, True)"
proof -
  obtain sv w where init: "server_init_common (Inr (1, wsys_init 1 empty_queue)) True 4 True True 1 3 7 world0 = Inr (sv, w)"
    "server_inv {} {} sv w" "alive_slots sv = {}" "stack_items (sv_free_list sv) = [0]" using sample_init by blast
  then have "5 \<notin> w_open w" "8 \<notin> w_heap w"
    by (auto simp: server_inv_def owns_inv_def client_fds_def client_blocks_def server_init_common_def world0_def bind_res_Inr)
  with append_takes_free_slot [OF init(2,4), of 5 8 sample_env 0] init show ?thesis
    by (auto simp: sample_env_def)
qed

text \<open>
  C29: With no slot free the new client is turned away: one message is sent to it, which a client reads as status
  503 with the reason and the body \<open>Service Unavailable\<close> and a Retry-After header of the seconds since the oldest
  client was heard of; its descriptor is closed and its address block freed, and neither the server nor any other
  descriptor or block is touched.
\<close>

theorem append_rejects_when_full:
  assumes "slots_inv sv" and "stack_items (sv_free_list sv) = []" and "fd \<notin> w_open w" and "address \<notin> w_heap w"
    and "address \<noteq> 0" and "clock_ok (e_now env) oldest" and "e_alloc_ok env"
  shows "\<exists>w' out resp. server_append_client env sv (os_accept fd address w) fd address oldest = Inr (sv, w') \<and>
    w_open w' = w_open w \<and> w_heap w' = w_heap w \<and> w_sent w' = w_sent w @ [(fd, out)] \<and>
    http_response_parse out = Inr resp \<and> m_code resp = 503 \<and> m_reason resp = Some ''Service Unavailable'' \<and>
    m_body resp = Some ''Service Unavailable'' \<and> http_get_header resp ''Retry-After'' = Some (show_int (e_now env - oldest))"
  using append_exhausted [OF assms(1-6)] assms(7) service_unavailable_parsed [of "e_now env" "e_now env - oldest"]
  by auto

theorem append_rejects_when_full_witness:
  "\<exists>w' out resp. server_append_client sample_env full_server (os_accept 6 9 full_world) 6 9 40 = Inr (full_server, w') \<and>
    w_open w' = {3, 4, 5} \<and> w_sent w' = [(6, out)] \<and> http_response_parse out = Inr resp \<and> m_code resp = 503 \<and>
    http_get_header resp ''Retry-After'' = Some ''60''"
proof -
  have "show_int 60 = ''60''" by code_simp
  then show ?thesis
    using append_rejects_when_full [of full_server 6 full_world 9 sample_env 40] full_inv
    by (auto simp: server_inv_def full_server_def full_world_def sample_env_def stack_items_def clock_ok_def)
qed

text \<open>
  Removing a live client closes its descriptor, frees its address block, clears the slot and puts
  it on top of the free list, and keeps the invariant, so that the next client gets this slot.
\<close>

theorem remove_frees_slot:
  assumes "server_inv F H sv w" and "i \<in> alive_slots sv"
  shows "\<exists>sv' w'. server_remove_client sv w (sv_clients sv ! i) = Inr (sv', w') \<and> server_inv F H sv' w' \<and>
    alive_slots sv' = alive_slots sv - {i} \<and> stack_items (sv_free_list sv') = int i # stack_items (sv_free_list sv) \<and>
    w_open w' = w_open w - {c_fd (sv_clients sv ! i)} \<and> w_heap w' = w_heap w - {c_address (sv_clients sv ! i)}"
  by (rule remove_alive [OF assms])

theorem remove_frees_slot_witness:
  "\<exists>sv' w'. server_remove_client full_server full_world (sv_clients full_server ! 0) = Inr (sv', w') \<and>
    alive_slots sv' = {} \<and> w_open w' = {3, 4} \<and> w_heap w' = {7}"
  using remove_frees_slot [OF full_inv, of 0] full_alive by (auto simp: full_server_def full_world_def)

text \<open>
  C28: Over the whole life of a server nothing leaks: after \<open>server_init_common\<close> and any sequence of
  accepted clients (served, turned away or failed to register), removals and slot updates,
  \<open>server_delete\<close> succeeds and leaves exactly the descriptors and blocks that the process had
  before, without the listening socket.
\<close>

theorem server_lifetime_no_leak:
  assumes "server_init_common (Inr (n, ws)) True epoll_fd True True max_connections fd address w = Inr s"
    and "0 < max_connections" and "max_connections < 2 ^ 31" and "0 \<le> epoll_fd" and "epoll_fd \<notin> w_open w"
    and "fd \<in> w_open w" and "address \<in> w_heap w" and "address \<noteq> 0" and "sstep\<^sup>*\<^sup>* s (sv, w')"
  shows "\<exists>w''. server_delete sv w' = Inr w'' \<and> w_open w'' = w_open w - {fd} \<and> w_heap w'' = w_heap w - {address}"
proof -
  have "server_inv (w_open w - {fd}) (w_heap w - {address}) (fst s) (snd s)"
    using server_init_ok [OF assms(2-8), of n ws] assms(1) by auto
  from srv.run_keeps [OF assms(9) this] show ?thesis by (intro server_delete_frees) simp
qed

theorem server_lifetime_no_leak_witness:
  "\<exists>s w''. server_init_common (Inr (1, wsys_init 1 empty_queue)) True 4 True True 1 3 7 world0 = Inr s \<and>
    sstep\<^sup>*\<^sup>* s (full_server, full_world) \<and> server_delete full_server full_world = Inr w'' \<and> w_open w'' = {} \<and> w_heap w'' = {}"
proof -
  have init: "server_init_common (Inr (1, wsys_init 1 empty_queue)) True 4 True True 1 3 7 world0 = Inr (idle_server, idle_world)"
    by (simp add: server_init_common_def idle_server_def idle_world_def world0_def int_stack_push_def os_defs client_zero_def Let_def)
  from sample_step have "sstep\<^sup>*\<^sup>* (idle_server, idle_world) (full_server, full_world)" by (rule r_into_rtranclp)
  with server_lifetime_no_leak [OF init _ _ _ _ _ _ _ this] init show ?thesis
    by (auto simp: world0_def)
qed

text \<open>
  Removing the same client snapshot a second time is undefined: the address block is freed
  twice. Callers have to make sure that no two of them remove the same client.
\<close>

theorem remove_twice_undefined:
  assumes "server_remove_client sv w c = Inr (sv', w')" and "c_address c \<noteq> 0"
  shows "server_remove_client sv' w' c = Inl Undefined"
proof -
  have "c_address c \<notin> w_heap w'"
    using assms by (auto simp: server_remove_client_def bind_res_Inr Let_def os_free_def split: if_splits)
  with assms(2) show ?thesis by (simp add: server_remove_client_def os_free_def os_defs)
qed

theorem remove_twice_undefined_witness:
  "\<exists>sv' w'. server_remove_client full_server full_world (sv_clients full_server ! 0) = Inr (sv', w') \<and>
    server_remove_client sv' w' (sv_clients full_server ! 0) = Inl Undefined"
proof -
  from remove_alive [OF full_inv, of 0] full_alive obtain sv' w'
    where "server_remove_client full_server full_world (sv_clients full_server ! 0) = Inr (sv', w')" by auto
  with remove_twice_undefined [OF this] show ?thesis by (auto simp: full_server_def)
qed

text \<open>
  C34: \<open>server_delete\<close> releases the clients before it stops the workers: a worker whose callback is
  still running and ends with \<open>server_remove_client\<close> frees the address block of its client a
  second time.
\<close>

theorem remove_after_delete_undefined:
  assumes "server_inv F H sv w" and "i \<in> alive_slots sv" and "server_delete sv w = Inr w'"
  shows "server_remove_client sv w' (sv_clients sv ! i) = Inl Undefined"
proof -
  have "c_address (sv_clients sv ! i) \<in> client_blocks sv" using assms(2) by (simp add: client_blocks_def)
  then have "c_address (sv_clients sv ! i) \<notin> H" "c_address (sv_clients sv ! i) \<noteq> 0"
    using assms(1) by (auto simp: server_inv_def owns_inv_def)
  with server_delete_frees [OF assms(1)] assms(3) show ?thesis
    by (auto simp: server_remove_client_def os_free_def os_defs)
qed

theorem remove_after_delete_undefined_witness:
  "\<exists>w'. server_delete full_server full_world = Inr w' \<and>
    server_remove_client full_server w' (sv_clients full_server ! 0) = Inl Undefined"
  using server_delete_frees [OF full_inv] remove_after_delete_undefined [OF full_inv, of 0] full_alive by auto

end
