(* ===== verification/Sockets.thy ===== *)
theory Sockets
  imports CStr Os_World
begin

text \<open>
  \<open>utils/sockets.c\<close>: listening sockets, accepted clients, and the connection to a backend named by
  a URL of the form \<open>http://ip:port\<close>. The results of the system calls are arguments.
\<close>

section \<open>Addresses and numbers in text\<close>

text \<open>What the block behind \<open>socket_t.address\<close> holds; an IPv4 address as a number, the port as on the wire.\<close>

datatype sockaddr = Inet nat nat | Unix string

definition htons :: "int \<Rightarrow> nat" where
  "htons port = nat (port mod 65536)"

text \<open>\<open>inet_pton(AF_INET, ...)\<close>: four decimal numbers up to 255 without leading zeros.\<close>

definition octet_ok :: "string \<Rightarrow> bool" where
  "octet_ok s \<longleftrightarrow> s \<noteq> [] \<and> length s \<le> 3 \<and> list_all isdigit_c s \<and> digits_val 0 s \<le> 255 \<and>
     (hd s = CHR ''0'' \<longrightarrow> length s = 1)"

definition inet_pton4 :: "string \<Rightarrow> nat option" where
  "inet_pton4 s =
     (let a = before CHR ''.'' s; s1 = after CHR ''.'' s;
          b = before CHR ''.'' s1; s2 = after CHR ''.'' s1;
          c = before CHR ''.'' s2; d = after CHR ''.'' s2
      in if octet_ok a \<and> octet_ok b \<and> octet_ok c \<and> octet_ok d
         then Some (((digits_val 0 a * 256 + digits_val 0 b) * 256 + digits_val 0 c) * 256 + digits_val 0 d)
         else None)"

text \<open>The conversion \<open>%i\<close> of \<open>sscanf\<close>: the prefix selects hexadecimal, octal or decimal digits.\<close>

definition base_digit :: "nat \<Rightarrow> char \<Rightarrow> nat option" where
  "base_digit b c =
     (let n = (of_char c :: nat);
          v = (if isdigit_c c then n - 48
               else if 97 \<le> n \<and> n \<le> 102 then n - 87
               else if 65 \<le> n \<and> n \<le> 70 then n - 55 else 16)
      in if v < b then Some v else None)"

fun base_val :: "nat \<Rightarrow> nat \<Rightarrow> string \<Rightarrow> nat" where
  "base_val b acc [] = acc"
| "base_val b acc (c # cs) = (case base_digit b c of None \<Rightarrow> acc | Some v \<Rightarrow> base_val b (b * acc + v) cs)"

definition scan_digits :: "nat \<Rightarrow> string \<Rightarrow> nat option" where
  "scan_digits b s = (if s \<noteq> [] \<and> base_digit b (hd s) \<noteq> None then Some (base_val b 0 s) else None)"

definition scan_prefixed :: "string \<Rightarrow> nat option" where
  "scan_prefixed s =
     (case s of
        c # x # cs \<Rightarrow> if c = CHR ''0'' \<and> (x = CHR ''x'' \<or> x = CHR ''X'') then scan_digits 16 cs
                      else scan_digits (if c = CHR ''0'' then 8 else 10) s
      | _ \<Rightarrow> scan_digits 10 s)"

definition sscanf_i :: "string \<Rightarrow> int option" where
  "sscanf_i s =
     (let t = dropWhile isspace_c s;
          neg = (t \<noteq> [] \<and> hd t = CHR ''-'');
          u = (if t \<noteq> [] \<and> (hd t = CHR ''-'' \<or> hd t = CHR ''+'') then tl t else t)
      in map_option (\<lambda>v. to_int32 (max (- (2 ^ 63)) (min (2 ^ 63 - 1) (if neg then - int v else int v)))) (scan_prefixed u))"

text \<open>\<open>sscanf(url, "http://%15[^:]:%i", ip, \&port) == 2\<close>.\<close>

definition scan_url :: "string \<Rightarrow> (string \<times> int) option" where
  "scan_url url =
     (let rest = drop 7 url; ip = takeWhile (\<lambda>c. c \<noteq> CHR '':'') (take 15 rest); r = drop (length ip) rest
      in if \<not> strneq url ''http://'' 7 \<or> ip = [] \<or> r = [] \<or> hd r \<noteq> CHR '':'' then None
         else map_option (\<lambda>p. (ip, p)) (sscanf_i (tl r)))"

section \<open>Listening sockets\<close>

text \<open>A socket: descriptor, pointer to the address block, and what the block holds.\<close>

record socket_t =
  so_fd :: int
  so_address :: nat
  so_content :: sockaddr

definition bound_socket :: "int \<Rightarrow> nat \<Rightarrow> sockaddr \<Rightarrow> os_world \<Rightarrow> socket_t \<times> os_world" where
  "bound_socket fd mem content w =
     (\<lparr>so_fd = fd, so_address = mem, so_content = content\<rparr>, os_set_nonblock fd (os_malloc mem (os_open fd w)))"

definition socket_create_http ::
  "int \<Rightarrow> bool \<Rightarrow> nat \<Rightarrow> bool \<Rightarrow> int \<Rightarrow> os_world \<Rightarrow> (socket_t \<times> os_world) res" where
  "socket_create_http fd setopt_ok mem bind_ok port w =
     (if fd < 0 \<or> \<not> setopt_ok then Inl Exit_fail
      else if mem = 0 then Inl Assert_fail
      else if \<not> bind_ok then Inl Exit_fail
      else Inr (bound_socket fd mem (Inet 0 (htons port)) w))"

text \<open>\<open>sun_path\<close> has 108 bytes, of which \<open>strncpy\<close> fills at most 107.\<close>

definition socket_create_unix ::
  "int \<Rightarrow> bool \<Rightarrow> nat \<Rightarrow> bool \<Rightarrow> string \<Rightarrow> os_world \<Rightarrow> (socket_t \<times> os_world) res" where
  "socket_create_unix fd setopt_ok mem bind_ok path w =
     (if fd < 0 \<or> \<not> setopt_ok then Inl Exit_fail
      else if mem = 0 then Inl Assert_fail
      else if \<not> bind_ok then Inl Exit_fail
      else Inr (bound_socket fd mem (Unix (take 107 path)) (w\<lparr>w_unlinked := w_unlinked w @ [path]\<rparr>)))"

definition socket_listen :: "bool \<Rightarrow> os_world \<Rightarrow> os_world res" where
  "socket_listen listen_ok w = (if listen_ok then Inr w else Inl Exit_fail)"

text \<open>
  \<open>socket_accept\<close>: \<open>mem\<close> is the block from \<open>calloc\<close>, \<open>fd\<close> the result of \<open>accept\<close>, \<open>again\<close> whether \<open>errno\<close> is
  \<open>EAGAIN\<close> or \<open>EWOULDBLOCK\<close>.
\<close>

definition socket_accept :: "nat \<Rightarrow> int \<Rightarrow> bool \<Rightarrow> os_world \<Rightarrow> ((int \<times> nat) option \<times> os_world) res" where
  "socket_accept mem fd again w =
     (if mem = 0 then Inl Assert_fail
      else if fd < 0 then
        bind_res (os_free mem (os_malloc mem w)) (\<lambda>w'. if again then Inr (None, w') else Inl Exit_fail)
      else Inr (Some (fd, mem), os_accept fd mem w))"

section \<open>Backend connections\<close>

record connect_env =
  b_socket :: int
  b_mem :: nat
  b_connect_ok :: "sockaddr \<Rightarrow> bool"
  b_timeout :: int

text \<open>
  \<open>socket_create_auto\<close>; the zero socket has a null address. The code tests the descriptor for
  zero instead of negative; \<open>connect\<close> on a negative descriptor fails.
\<close>

definition no_socket :: socket_t where
  "no_socket = \<lparr>so_fd = 0, so_address = 0, so_content = Inet 0 0\<rparr>"

definition drop_backend :: "int \<Rightarrow> nat \<Rightarrow> os_world \<Rightarrow> (socket_t \<times> os_world) res" where
  "drop_backend fd mem w = bind_res (os_free mem (os_close fd w)) (\<lambda>w'. Inr (no_socket, w'))"

definition socket_create_auto :: "connect_env \<Rightarrow> string \<Rightarrow> os_world \<Rightarrow> (socket_t \<times> os_world) res" where
  "socket_create_auto env url w =
     (if length url < 7 then Inr (no_socket, w)
      else if strneq url ''http://'' 7 then
        let fd = b_socket env; mem = b_mem env; w1 = (if fd < 0 then w else os_open fd w)
        in if fd = 0 then Inr (no_socket, w1)
           else if mem = 0 then Inr (no_socket, os_close fd w1)
           else
             let w2 = os_malloc mem w1
             in case scan_url url of
                  None \<Rightarrow> drop_backend fd mem w2
                | Some (ip, port) \<Rightarrow>
                    (case inet_pton4 ip of
                       None \<Rightarrow> drop_backend fd mem w2
                     | Some a \<Rightarrow>
                         if fd < 0 \<or> \<not> b_connect_ok env (Inet a (htons port)) then drop_backend fd mem w2
                         else Inr (\<lparr>so_fd = fd, so_address = mem, so_content = Inet a (htons port)\<rparr>,
                                   os_set_timeout fd (b_timeout env) w2))
      else Inr (no_socket, w))"

section \<open>Reading back a written port\<close>

lemma base_digit_10: "base_digit 10 c = (if isdigit_c c then Some (digit_val c) else None)"
  by (auto simp: base_digit_def digit_val_def isdigit_c_def Let_def)

lemma base_val_10: "base_val 10 acc s = digits_val acc s"
  by (induction s arbitrary: acc) (simp_all add: base_digit_10)

lemma show_nat_lead: "0 < n \<Longrightarrow> hd (show_nat n) \<noteq> CHR ''0''"
proof (induction n rule: show_nat.induct)
  case (1 n)
  show ?case
  proof (cases "n < 10")
    case True
    with 1(2) have "n \<in> {1, 2, 3, 4, 5, 6, 7, 8, 9}" by auto
    then show ?thesis by (auto simp: show_nat.simps [of n] digit_char_def char_of_def)
  next
    case False
    with 1 show ?thesis by (simp add: show_nat.simps [of n] hd_append)
  qed
qed

lemma scan_prefixed_show_nat: "scan_prefixed (show_nat n) = Some n"
proof (cases "n = 0")
  case True
  then show ?thesis
    by (simp add: show_nat.simps [of 0] scan_prefixed_def scan_digits_def base_val_10 base_digit_10 digit_char_def isdigit_c_def digit_val_def)
next
  case False
  then have lead: "hd (show_nat n) \<noteq> CHR ''0''" by (simp add: show_nat_lead)
  obtain c cs where cs: "show_nat n = c # cs" by (metis list.exhaust show_nat_nonempty)
  have "isdigit_c c" using show_nat_digits [of c n] by (simp add: cs)
  then have "scan_digits 10 (show_nat n) = Some n"
    using digits_val_show_nat [of n] by (simp add: scan_digits_def cs base_digit_10 base_val_10)
  with lead show ?thesis by (simp add: scan_prefixed_def cs split: list.splits)
qed

lemma sscanf_i_show_nat:
  assumes "n < 2 ^ 31"
  shows "sscanf_i (show_nat n) = Some (int n)"
proof -
  obtain c cs where cs: "show_nat n = c # cs" by (metis list.exhaust show_nat_nonempty)
  have c: "isdigit_c c" using show_nat_digits [of c n] by (simp add: cs)
  note isdigit_not_special [OF c]
  then have "sscanf_i (show_nat n) = map_option (\<lambda>v. to_int32 (max (- (2 ^ 63)) (min (2 ^ 63 - 1) (int v)))) (scan_prefixed (show_nat n))"
    unfolding sscanf_i_def Let_def by (simp add: cs)
  then show ?thesis using assms by (simp add: scan_prefixed_show_nat to_int32_id)
qed

lemma scan_url_show:
  assumes "ip \<noteq> []" and "length ip \<le> 15" and "CHR '':'' \<notin> set ip" and "port < 2 ^ 31"
  shows "scan_url (''http://'' @ ip @ '':'' @ show_nat port) = Some (ip, int port)"
proof -
  have "takeWhile (\<lambda>c. c \<noteq> CHR '':'') (take 15 (ip @ CHR '':'' # show_nat port)) = ip"
  proof (cases "length ip = 15")
    case True
    then show ?thesis using assms(3) by (auto intro!: takeWhile_all)
  next
    case False
    then obtain k where "15 - length ip = Suc k" using assms(2) by (metis Suc_diff_le diff_Suc_Suc le_neq_implies_less not0_implies_Suc zero_less_diff less_not_refl)
    then show ?thesis using assms(3) by (auto intro!: takeWhile_append_stop)
  qed
  then show ?thesis
    using assms(1,4) by (simp add: scan_url_def strneq_def sscanf_i_show_nat)
qed

lemma socket_create_auto_frame:
  assumes "b_socket env \<noteq> 0" and "b_socket env \<notin> w_open w" and "b_mem env \<notin> w_heap w"
  shows "\<exists>sock w'. socket_create_auto env url w = Inr (sock, w') \<and>
    (so_address sock = 0 \<longrightarrow> w_open w' = w_open w \<and> w_heap w' = w_heap w) \<and>
    (so_address sock \<noteq> 0 \<longrightarrow> 0 < so_fd sock \<and> so_fd sock \<notin> w_open w \<and> so_address sock \<notin> w_heap w \<and>
       w_open w' = insert (so_fd sock) (w_open w) \<and> w_heap w' = insert (so_address sock) (w_heap w)) \<and>
    (\<forall>fd\<in>w_open w. w_epoll w' fd = w_epoll w fd) \<and> w_sent w' = w_sent w"
  using assms
  by (auto simp: socket_create_auto_def drop_backend_def os_free_def os_defs no_socket_def Let_def split: option.splits)

text \<open>A URL that connects, with the world it leaves.\<close>

lemma auto_connects:
  assumes "inet_pton4 ip = Some a" and "length ip \<le> 15" and "CHR '':'' \<notin> set ip" and "port < 2 ^ 31"
    and "0 < b_socket env" and "b_mem env \<noteq> 0" and "b_connect_ok env (Inet a (port mod 65536))"
  shows "socket_create_auto env (''http://'' @ ip @ '':'' @ show_nat port) w =
    Inr (\<lparr>so_fd = b_socket env, so_address = b_mem env, so_content = Inet a (port mod 65536)\<rparr>,
      os_set_timeout (b_socket env) (b_timeout env) (os_malloc (b_mem env) (os_open (b_socket env) w)))"
proof -
  have "ip \<noteq> []" using assms(1) by (auto simp: inet_pton4_def octet_ok_def before_def)
  from scan_url_show [OF this assms(2-4)] have url: "scan_url (''http://'' @ ip @ '':'' @ show_nat port) = Some (ip, int port)" .
  have "htons (int port) = port mod 65536" by (simp add: htons_def nat_mod_distrib)
  with assms(1,5-7) url show ?thesis by (simp add: socket_create_auto_def strneq_def Let_def)
qed

section \<open>Properties of the sockets\<close>

text \<open>
  C31: A backend URL written as \<open>http://\<close>, an IPv4 address of at most 15 characters, a colon and a port makes
  \<open>socket_create_auto\<close> connect to exactly that address and port (its low 16 bits), with the
  backend timeout set on the new descriptor.
\<close>

theorem backend_url_connects:
  assumes "inet_pton4 ip = Some a" and "length ip \<le> 15" and "CHR '':'' \<notin> set ip" and "port < 2 ^ 31"
    and "0 < b_socket env" and "b_mem env \<noteq> 0" and "b_connect_ok env (Inet a (port mod 65536))"
  shows "\<exists>w'. socket_create_auto env (''http://'' @ ip @ '':'' @ show_nat port) w =
      Inr (\<lparr>so_fd = b_socket env, so_address = b_mem env, so_content = Inet a (port mod 65536)\<rparr>, w') \<and>
    w_open w' = insert (b_socket env) (w_open w) \<and> w_heap w' = insert (b_mem env) (w_heap w) \<and>
    w_timeo w' (b_socket env) = Some (b_timeout env)"
  using auto_connects [OF assms, of w] by (simp add: os_defs)

theorem backend_url_connects_witness:
  "\<exists>w'. socket_create_auto \<lparr>b_socket = 9, b_mem = 20, b_connect_ok = (\<lambda>_. True), b_timeout = 5\<rparr> ''http://127.0.0.1:3000''
      \<lparr>w_open = {3}, w_heap = {7}, w_epoll = (\<lambda>_. None), w_nonblock = {}, w_sent = [], w_unlinked = [], w_timeo = (\<lambda>_. None)\<rparr> =
    Inr (\<lparr>so_fd = 9, so_address = 20, so_content = Inet 2130706433 3000\<rparr>, w') \<and> w_open w' = {3, 9}"
proof -
  have "inet_pton4 ''127.0.0.1'' = Some 2130706433"
    by (simp add: inet_pton4_def before_def after_def octet_ok_def digit_val_def isdigit_c_def Let_def)
  moreover have "show_nat 3000 = ''3000''" by (simp add: show_nat.simps digit_char_def char_of_def bit_Suc_0_iff)
  ultimately show ?thesis
    using backend_url_connects [of "''127.0.0.1''" 2130706433 3000
      "\<lparr>b_socket = 9, b_mem = 20, b_connect_ok = (\<lambda>_. True), b_timeout = 5\<rparr>"
      "\<lparr>w_open = {3}, w_heap = {7}, w_epoll = (\<lambda>_. None), w_nonblock = {}, w_sent = [], w_unlinked = [], w_timeo = (\<lambda>_. None)\<rparr>"]
    by (auto simp: insert_commute)
qed

text \<open>
  C32: Whenever \<open>socket_create_auto\<close> gives no socket, it has released the descriptor and the block it
  obtained, and it never faults. The exception is a descriptor 0, which the code takes for a failure.
\<close>

theorem backend_failure_no_leak:
  assumes "b_socket env \<noteq> 0" and "b_socket env \<notin> w_open w" and "b_mem env \<notin> w_heap w"
  shows "\<exists>sock w'. socket_create_auto env url w = Inr (sock, w') \<and>
    (so_address sock = 0 \<longrightarrow> w_open w' = w_open w \<and> w_heap w' = w_heap w) \<and>
    (so_address sock \<noteq> 0 \<longrightarrow> 0 < so_fd sock \<and>
       w_open w' = insert (so_fd sock) (w_open w) \<and> w_heap w' = insert (so_address sock) (w_heap w))"
  using socket_create_auto_frame [OF assms, of url] by fastforce

theorem backend_failure_no_leak_witness:
  "\<exists>sock w'. socket_create_auto \<lparr>b_socket = 9, b_mem = 20, b_connect_ok = (\<lambda>_. False), b_timeout = 5\<rparr> ''http://localhost:3000''
      \<lparr>w_open = {3}, w_heap = {7}, w_epoll = (\<lambda>_. None), w_nonblock = {}, w_sent = [], w_unlinked = [], w_timeo = (\<lambda>_. None)\<rparr> =
    Inr (sock, w') \<and> (so_address sock = 0 \<longrightarrow> w_open w' = {3} \<and> w_heap w' = {7})"
  using backend_failure_no_leak [of "\<lparr>b_socket = 9, b_mem = 20, b_connect_ok = (\<lambda>_. False), b_timeout = 5\<rparr>"
      "\<lparr>w_open = {3}, w_heap = {7}, w_epoll = (\<lambda>_. None), w_nonblock = {}, w_sent = [], w_unlinked = [], w_timeo = (\<lambda>_. None)\<rparr>"
      "''http://localhost:3000''"]
  by auto

end
