(* ===== verification/Http_Recv.thy ===== *)
theory Http_Recv
  imports CStr
begin

text \<open>
  \<open>http_recv_message\<close> of \<open>utils/http.c\<close>: collect a message from a stream socket into a growing
  buffer, until the header block and the announced body are there or nothing more arrives.
\<close>

section \<open>Definitions\<close>

text \<open>
  The socket delivers a list of segments; one \<open>recv\<close> returns at most the room in the buffer, and
  the rest of the segment stays. An empty segment, or none, is the end of the loop: the peer
  closed the connection, an error, or no data at the moment on a non-blocking socket.
\<close>

fun os_recv :: "nat \<Rightarrow> string list \<Rightarrow> string \<times> string list" where
  "os_recv room [] = ([], [])"
| "os_recv room (s # ss) =
     (if length s \<le> room then (s, ss) else (take room s, drop room s # ss))"

text \<open>
  \<open>r_buf\<close>: the bytes received; \<open>r_body\<close>: the offset \<open>body_start\<close> points at, if set; \<open>r_stale\<close>: the buffer
  was moved by \<open>realloc\<close> after \<open>body_start\<close> was set, so the pointer is dangling.
\<close>

record recv_state =
  r_buf :: string
  r_cap :: nat
  r_content_length :: nat
  r_body :: "nat option"
  r_stale :: bool

definition header_end :: string where "header_end = [CR, LF, CR, LF]"

definition content_length_name :: string where "content_length_name = ''Content-Length:''"

text \<open>
  \<open>strtoul\<close> on the bytes received so far, which no NUL ends: running over them into the rest of
  the buffer reads indeterminate bytes.
\<close>

definition scan_ends_inside :: "string \<Rightarrow> bool" where
  "scan_ends_inside s =
     (case dropWhile isspace_c s of
        [] \<Rightarrow> False
      | c # cs \<Rightarrow> (if c = CHR ''-'' \<or> c = CHR ''+'' then dropWhile isdigit_c cs \<noteq> [] else dropWhile isdigit_c (c # cs) \<noteq> []))"

definition announced_length :: "string \<Rightarrow> nat \<Rightarrow> nat res" where
  "announced_length buf body_off =
     (case memmem content_length_name (take body_off buf) of
        None \<Rightarrow> Inr 0
      | Some c \<Rightarrow> let s = drop (c + 15) buf in if scan_ends_inside s then Inr (strtoul s) else Inl Undefined)"

text \<open>The body of the loop up to the \<open>break\<close>, for received bytes \<open>d\<close>: look for the end of the header.\<close>

definition recv_scan :: "bool \<Rightarrow> string \<Rightarrow> recv_state \<Rightarrow> recv_state res" where
  "recv_scan expect_body d st =
     (let buf = r_buf st @ d; st1 = st\<lparr>r_buf := buf\<rparr>
      in case r_body st of
           Some b \<Rightarrow> Inr st1
         | None \<Rightarrow>
             (case memmem header_end buf of
                None \<Rightarrow> Inr st1
              | Some k \<Rightarrow>
                  if expect_body then
                    bind_res (announced_length buf (k + 4)) (\<lambda>n. Inr (st1\<lparr>r_body := Some (k + 4), r_content_length := n\<rparr>))
                  else Inr (st1\<lparr>r_body := Some (k + 4)\<rparr>)))"

text \<open>The \<open>realloc\<close>; a failed one leaves a null buffer that the next \<open>recv\<close> or the caller uses.\<close>

definition recv_grow :: "(nat \<Rightarrow> bool) \<Rightarrow> (nat \<Rightarrow> bool) \<Rightarrow> recv_state \<Rightarrow> recv_state res" where
  "recv_grow alloc_ok moves st =
     (if r_cap st - length (r_buf st) < 1024 then
        let cap = r_cap st * 2
        in if \<not> alloc_ok cap then Inl Undefined
           else Inr (st\<lparr>r_cap := cap, r_stale := r_stale st \<or> (moves cap \<and> r_body st \<noteq> None)\<rparr>)
      else Inr st)"

function recv_loop ::
  "(nat \<Rightarrow> bool) \<Rightarrow> (nat \<Rightarrow> bool) \<Rightarrow> bool \<Rightarrow> recv_state \<Rightarrow> string list \<Rightarrow> (string \<times> string list) res" where
  "recv_loop alloc_ok moves expect_body st segs =
     (let (d, segs') = os_recv (r_cap st - length (r_buf st)) segs
      in if d = [] then Inr (r_buf st, segs')
         else bind_res (recv_scan expect_body d st) (\<lambda>st1.
           if r_body st1 \<noteq> None \<and> r_stale st1 then Inl Undefined
           else if (case r_body st1 of None \<Rightarrow> False | Some b \<Rightarrow> length (r_buf st1) - b \<ge> r_content_length st1)
           then Inr (r_buf st1, segs')
           else bind_res (recv_grow alloc_ok moves st1) (\<lambda>st2. recv_loop alloc_ok moves expect_body st2 segs')))"
  by pat_completeness auto

lemma os_recv_less:
  assumes "os_recv room segs = (d, segs')" and "d \<noteq> []"
  shows "length (concat segs') < length (concat segs)"
  using assms by (cases segs) (auto split: if_splits)

termination recv_loop
  by (relation "measure (\<lambda>(_, _, _, _, segs). length (concat segs))") (auto intro: os_recv_less [OF sym])

declare recv_loop.simps [simp del]

text \<open>When the first \<open>malloc\<close> fails, \<open>recv\<close> into the null pointer fails and the loop ends with \<open>len = 0\<close>.\<close>

definition http_recv_message ::
  "(nat \<Rightarrow> bool) \<Rightarrow> (nat \<Rightarrow> bool) \<Rightarrow> bool \<Rightarrow> string list \<Rightarrow> (string \<times> string list) res" where
  "http_recv_message alloc_ok moves expect_body segs =
     (if \<not> alloc_ok 4096 then Inr ([], segs)
      else recv_loop alloc_ok moves expect_body
        \<lparr>r_buf = [], r_cap = 4096, r_content_length = 0, r_body = None, r_stale = False\<rparr> segs)"

section \<open>Searches in a growing buffer\<close>

lemma memmem_extend:
  assumes "memmem nd xs = Some i"
  shows "memmem nd (xs @ ys) = Some i"
proof (rule memmem_SomeI)
  note i = memmem_Some_prefix [OF assms] memmem_Some_bound [OF assms]
  show "prefix nd (drop i (xs @ ys))" "i \<le> length (xs @ ys)" using i by (auto intro: prefix_prefix)
  show "\<not> prefix nd (drop j (xs @ ys))" if "j < i" for j
  proof
    assume "prefix nd (drop j (xs @ ys))"
    moreover have "prefix (drop j xs) (drop j (xs @ ys))" by simp
    moreover have "length nd \<le> length (drop j xs)" using that i(2) by simp
    ultimately have "prefix nd (drop j xs)" by (rule prefix_length_prefix)
    with memmem_Some_min [OF assms that] show False by simp
  qed
qed

lemma memmem_short:
  assumes "memmem nd (xs @ ys) = Some i" and "length xs < i + length nd"
  shows "memmem nd xs = None"
proof (cases "memmem nd xs")
  case (Some k)
  from memmem_extend [OF this, of ys] assms(1) have "k = i" by simp
  with memmem_Some_bound [OF Some] assms(2) show ?thesis by simp
qed simp

section \<open>The scan of the announced length\<close>

lemma scan_show_nat:
  assumes "\<forall>c\<in>set ws. isspace_c c" and "s = ws @ show_nat n @ CR # rest" and "n < 2 ^ 64"
  shows "scan_ends_inside s" and "strtoul s = n"
proof -
  obtain c cs where cs: "show_nat n = c # cs" by (metis list.exhaust show_nat_nonempty)
  have dig: "\<forall>c\<in>set (show_nat n). isdigit_c c" using show_nat_digits by blast
  then have c: "isdigit_c c" by (simp add: cs)
  have "dropWhile isspace_c s = show_nat n @ CR # rest"
    using assms(1,2) isdigit_not_special [OF c] by (simp add: cs dropWhile_append_stop)
  moreover have "dropWhile isdigit_c (show_nat n @ CR # rest) = CR # rest"
    using dig by (intro dropWhile_append_stop) (simp_all add: isdigit_c_def)
  ultimately show "scan_ends_inside s"
    using isdigit_not_special [OF c] by (simp add: scan_ends_inside_def cs)
  show "strtoul s = n"
    using scan_number_show_nat [OF assms(1), of "CR # rest" n] assms(2,3)
    by (simp add: strtoul_def isdigit_c_def)
qed

text \<open>A header block that announces a body of \<open>n\<close> bytes, in the spelling the code looks for, or none.\<close>

definition head_announces :: "string \<Rightarrow> nat \<Rightarrow> bool" where
  "head_announces head n \<longleftrightarrow> memmem header_end head = Some (length head - 4) \<and> n < 2 ^ 64 \<and>
     (case memmem content_length_name head of
        None \<Rightarrow> n = 0
      | Some c \<Rightarrow> \<exists>ws rest. drop (c + 15) head = ws @ show_nat n @ CR # rest \<and> (\<forall>x\<in>set ws. isspace_c x))"

lemma head_announcesI:
  "memmem header_end head = Some (length head - 4) \<Longrightarrow> memmem content_length_name head = Some c \<Longrightarrow>
   drop (c + 15) head = ws @ show_nat n @ CR # rest \<Longrightarrow> list_all isspace_c ws \<Longrightarrow> n < 2 ^ 64 \<Longrightarrow> head_announces head n"
  unfolding head_announces_def list_all_iff by (simp, blast)

lemma head_announces_length: "head_announces head n \<Longrightarrow> 4 \<le> length head"
  using memmem_Some_bound [of header_end head "length head - 4"] by (auto simp: head_announces_def header_end_def)

lemma announced_length_head:
  assumes "head_announces head n"
  shows "announced_length (head @ b) (length head) = Inr n"
proof (cases "memmem content_length_name head")
  case None
  with assms show ?thesis by (simp add: announced_length_def head_announces_def)
next
  case (Some c)
  then have le: "c + 15 \<le> length head"
    using memmem_Some_bound [OF Some] by (simp add: content_length_name_def)
  from assms Some obtain ws rest where ws: "drop (c + 15) head = ws @ show_nat n @ CR # rest" "\<forall>x\<in>set ws. isspace_c x" "n < 2 ^ 64"
    by (auto simp: head_announces_def)
  have "drop (c + 15) (head @ b) = ws @ show_nat n @ CR # (rest @ b)" using le ws(1) by simp
  from scan_show_nat [OF ws(2) this ws(3)] Some show ?thesis by (simp add: announced_length_def)
qed

lemma recv_scan_head:
  assumes "head_announces head n" and "r_buf st @ d = take k (head @ body)" and "k \<le> length (head @ body)"
    and "r_body st = (if length head \<le> length (r_buf st) then Some (length head) else None)"
    and "r_body st \<noteq> None \<longrightarrow> r_content_length st = n"
  shows "\<exists>st1. recv_scan True d st = Inr st1 \<and> r_buf st1 = r_buf st @ d \<and> r_cap st1 = r_cap st \<and> r_stale st1 = r_stale st \<and>
    r_body st1 = (if length head \<le> k then Some (length head) else None) \<and> (r_body st1 \<noteq> None \<longrightarrow> r_content_length st1 = n)"
proof (cases "r_body st")
  case (Some b)
  then have "length head \<le> length (r_buf st)" "b = length head" using assms(4) by (auto split: if_splits)
  moreover have "length (r_buf st) \<le> k" using arg_cong [OF assms(2), of length] assms(3) by simp
  ultimately show ?thesis using Some assms(5) by (simp add: recv_scan_def)
next
  case None
  have mm: "memmem header_end head = Some (length head - 4)" and h4: "4 \<le> length head"
    using assms(1) head_announces_length by (auto simp: head_announces_def)
  show ?thesis
  proof (cases "length head \<le> k")
    case True
    then have buf: "r_buf st @ d = head @ take (k - length head) body" using assms(2) by simp
    have "memmem header_end (r_buf st @ d) = Some (length head - 4)" unfolding buf by (rule memmem_extend [OF mm])
    moreover have "announced_length (r_buf st @ d) (length head - 4 + 4) = Inr n"
      using announced_length_head [OF assms(1)] h4 buf by simp
    ultimately show ?thesis using True None h4 by (simp add: recv_scan_def)
  next
    case False
    then have buf: "head = (r_buf st @ d) @ drop k head" using assms(2) by simp
    have "length (r_buf st @ d) < (length head - 4) + length header_end"
      using False h4 assms(2,3) by (simp add: header_end_def)
    then have "memmem header_end (r_buf st @ d) = None" using memmem_short mm buf by metis
    then show ?thesis using False None by (simp add: recv_scan_def)
  qed
qed

section \<open>The whole message\<close>

lemma os_recv_some:
  assumes "os_recv room segs = (d, segs')" and "0 < room" and "[] \<notin> set segs" and "segs \<noteq> []"
  shows "d \<noteq> [] \<and> d @ concat segs' = concat segs \<and> [] \<notin> set segs' \<and> length d \<le> room"
  using assms by (cases segs) (auto split: if_splits)

text \<open>Growing keeps the bytes and leaves room; it makes the position stale only when a long message moves.\<close>

lemma recv_grow_room:
  assumes "\<And>c. alloc_ok c" and "length (r_buf st) \<le> r_cap st" and "4096 \<le> r_cap st"
    and "\<not> r_stale st" and "\<And>c. \<not> moves c \<or> length (r_buf st) < 3072"
  shows "\<exists>st'. recv_grow alloc_ok moves st = Inr st' \<and> r_buf st' = r_buf st \<and> r_body st' = r_body st \<and>
    r_content_length st' = r_content_length st \<and> \<not> r_stale st' \<and> 4096 \<le> r_cap st' \<and> 1024 \<le> r_cap st' - length (r_buf st')"
proof (cases "r_cap st - length (r_buf st) < 1024")
  case True
  then have "\<not> moves (r_cap st * 2)" using assms(2,3) assms(5) [of "r_cap st * 2"] by auto
  with True assms(1-4) show ?thesis by (simp add: recv_grow_def Let_def)
next
  case False
  with assms(3,4) show ?thesis by (simp add: recv_grow_def Let_def)
qed

text \<open>The state of the loop when a part of the message \<open>head @ body\<close> is in the buffer.\<close>

definition recv_so_far :: "string \<Rightarrow> nat \<Rightarrow> recv_state \<Rightarrow> bool" where
  "recv_so_far head n st \<longleftrightarrow> \<not> r_stale st \<and> 4096 \<le> r_cap st \<and> 1024 \<le> r_cap st - length (r_buf st) \<and>
     r_body st = (if length head \<le> length (r_buf st) then Some (length head) else None) \<and> (r_body st \<noteq> None \<longrightarrow> r_content_length st = n)"

lemma recv_round:
  assumes "head_announces head n" and "length body = n" and "\<forall>c. alloc_ok c" and "\<forall>c. \<not> moves c \<or> length (head @ body) \<le> 3072"
    and so: "recv_so_far head n st" and msg: "(r_buf st @ d) @ rest = head @ body" and "length d \<le> r_cap st - length (r_buf st)"
  shows "\<exists>st1. recv_scan True d st = Inr st1 \<and> r_buf st1 = r_buf st @ d \<and> \<not> r_stale st1 \<and>
    ((case r_body st1 of None \<Rightarrow> False | Some b \<Rightarrow> length (r_buf st1) - b \<ge> r_content_length st1) \<longleftrightarrow> rest = []) \<and>
    (rest \<noteq> [] \<longrightarrow> (\<exists>st2. recv_grow alloc_ok moves st1 = Inr st2 \<and> r_buf st2 = r_buf st @ d \<and> recv_so_far head n st2))"
proof -
  define k where "k = length (r_buf st @ d)"
  have k: "r_buf st @ d = take k (head @ body)" "k \<le> length (head @ body)"
    unfolding k_def using msg by (metis append_eq_conv_conj) (metis msg length_append le_add1)
  have all: "k = length (head @ body) \<longleftrightarrow> rest = []" unfolding msg [symmetric] k_def by simp
  from so have body: "r_body st = (if length head \<le> length (r_buf st) then Some (length head) else None)"
    "r_body st \<noteq> None \<longrightarrow> r_content_length st = n" by (auto simp: recv_so_far_def)
  from recv_scan_head [OF assms(1) k body]
  obtain st1 where st1: "recv_scan True d st = Inr st1" "r_buf st1 = r_buf st @ d" "r_cap st1 = r_cap st" "r_stale st1 = r_stale st"
    "r_body st1 = (if length head \<le> k then Some (length head) else None)" "r_body st1 \<noteq> None \<longrightarrow> r_content_length st1 = n"
    by blast
  have fin: "(case r_body st1 of None \<Rightarrow> False | Some b \<Rightarrow> length (r_buf st1) - b \<ge> r_content_length st1) \<longleftrightarrow> rest = []"
    unfolding all [symmetric] using st1(2,5,6) k(2) assms(2) head_announces_length [OF assms(1)] by (auto simp: k_def)
  have len: "length (r_buf st1) = k" using st1(2) by (simp add: k_def)
  have "\<exists>st2. recv_grow alloc_ok moves st1 = Inr st2 \<and> r_buf st2 = r_buf st1 \<and> r_body st2 = r_body st1 \<and>
      r_content_length st2 = r_content_length st1 \<and> \<not> r_stale st2 \<and> 4096 \<le> r_cap st2 \<and> 1024 \<le> r_cap st2 - length (r_buf st2)" if "rest \<noteq> []"
  proof (rule recv_grow_room)
    show "\<not> moves c \<or> length (r_buf st1) < 3072" for c using spec [OF assms(4), of c] that all k(2) len by linarith
    show "length (r_buf st1) \<le> r_cap st1" using assms(7) so len st1(3) unfolding k_def recv_so_far_def length_append by linarith
  qed (use assms(3) st1(3,4) so in \<open>simp_all add: recv_so_far_def\<close>)
  then have "\<exists>st2. recv_grow alloc_ok moves st1 = Inr st2 \<and> r_buf st2 = r_buf st @ d \<and> recv_so_far head n st2" if "rest \<noteq> []"
    using that st1(2,5,6) len unfolding recv_so_far_def by metis
  moreover have "\<not> r_stale st1" using st1(4) so by (simp add: recv_so_far_def)
  ultimately show ?thesis using st1(1,2) fin by blast
qed

lemma recv_loop_complete:
  assumes "head_announces head n" and "length body = n" and "\<And>c. alloc_ok c"
    and "\<And>c. \<not> moves c \<or> length (head @ body) \<le> 3072"
  shows "r_buf st @ concat segs = head @ body \<Longrightarrow> length (r_buf st) < length (head @ body) \<Longrightarrow> [] \<notin> set segs \<Longrightarrow>
    recv_so_far head n st \<Longrightarrow> recv_loop alloc_ok moves True st segs = Inr (head @ body, [])"
proof (induction "length (concat segs)" arbitrary: st segs rule: less_induct)
  case less
  define room where "room = r_cap st - length (r_buf st)"
  obtain d segs' where os: "os_recv room segs = (d, segs')" by (metis surj_pair)
  have "segs \<noteq> []" using less.prems(1,2) by auto
  moreover have "1024 \<le> room" using less.prems(4) by (simp only: recv_so_far_def room_def)
  ultimately have d: "d \<noteq> []" "d @ concat segs' = concat segs" "[] \<notin> set segs'" "length d \<le> room"
    using os_recv_some [OF os _ less.prems(3)] by auto
  have msg: "(r_buf st @ d) @ concat segs' = head @ body" using less.prems(1) d(2) by simp
  have env: "\<forall>c. alloc_ok c" "\<forall>c. \<not> moves c \<or> length (head @ body) \<le> 3072" using assms(3,4) by blast+
  from recv_round [OF assms(1,2) env less.prems(4) msg d(4) [unfolded room_def]] obtain st1 where
    st1: "recv_scan True d st = Inr st1" "r_buf st1 = r_buf st @ d" "\<not> r_stale st1"
      "(case r_body st1 of None \<Rightarrow> False | Some b \<Rightarrow> length (r_buf st1) - b \<ge> r_content_length st1) \<longleftrightarrow> concat segs' = []"
    and grow: "concat segs' \<noteq> [] \<longrightarrow> (\<exists>st2. recv_grow alloc_ok moves st1 = Inr st2 \<and> r_buf st2 = r_buf st @ d \<and> recv_so_far head n st2)" by blast
  note loop = recv_loop.simps [of alloc_ok moves True st segs]
  show ?case
  proof (cases "concat segs' = []")
    case True
    with d(3) have "segs' = []" by (cases segs') auto
    moreover have "r_buf st1 = head @ body" using st1(2) msg True by simp
    ultimately show ?thesis using st1 d(1) os by (simp add: loop room_def)
  next
    case False
    with grow obtain st2 where st2: "recv_grow alloc_ok moves st1 = Inr st2" "r_buf st2 = r_buf st @ d" "recv_so_far head n st2" by blast
    have "recv_loop alloc_ok moves True st2 segs' = Inr (head @ body, [])"
    proof (rule less.hyps)
      show "length (concat segs') < length (concat segs)" using os_recv_less [OF os d(1)] .
      show "r_buf st2 @ concat segs' = head @ body" using st2(2) msg by simp
      then show "length (r_buf st2) < length (head @ body)" using False by (metis length_append length_greater_0_conv less_add_same_cancel1)
    qed (use d(3) st2(3) in simp_all)
    then show ?thesis using False st1 d(1) os st2(1) by (simp add: loop room_def del: concat_eq_Nil_conv)
  qed
qed

lemma recv_message_complete:
  assumes "head_announces head (length body)" and "concat segs = head @ body" and "[] \<notin> set segs"
    and "\<forall>c. alloc_ok c" and "(\<forall>c. \<not> moves c) \<or> length (head @ body) \<le> 3072"
  shows "http_recv_message alloc_ok moves True segs = Inr (head @ body, [])"
proof -
  have "head \<noteq> []" using head_announces_length [OF assms(1)] by auto
  then show ?thesis
    unfolding http_recv_message_def using assms(2-5)
    by (simp, intro recv_loop_complete [OF assms(1) refl]) (auto simp: recv_so_far_def)
qed

section \<open>Properties of the receiver\<close>

text \<open>
  C27: However the network cuts a message into segments, \<open>http_recv_message\<close> returns exactly the
  message, header block and announced body, under these conditions: the length is announced in the spelling
  \<open>Content-Length:\<close> (or there is no body), no \<open>recv\<close> comes back empty before the message is complete (on the non-blocking
  socket of a client that would be \<open>EAGAIN\<close>), every allocation succeeds, and \<open>realloc\<close> does not move the buffer or the
  message has at most 3072 bytes.
\<close>

theorem recv_any_segmentation:
  assumes "head_announces head (length body)" and "concat segs = head @ body" and "[] \<notin> set segs"
    and "\<forall>c. alloc_ok c" and "(\<forall>c. \<not> moves c) \<or> length (head @ body) \<le> 3072"
  shows "http_recv_message alloc_ok moves True segs = Inr (head @ body, [])"
  by (rule recv_message_complete [OF assms])

theorem recv_any_segmentation_witness:
  "http_recv_message (\<lambda>_. True) (\<lambda>_. True) True
     [''POST / HTTP/1.1'' @ [CR], [LF] @ ''Content-Length: 2'' @ [CR, LF, CR], [LF] @ ''h'', ''i''] =
   Inr ((''POST / HTTP/1.1'' @ [CR, LF] @ ''Content-Length: 2'' @ header_end) @ ''hi'', [])"
proof (rule recv_any_segmentation)
  let ?h = "''POST / HTTP/1.1'' @ [CR, LF] @ ''Content-Length: 2'' @ header_end"
  have a: "memmem header_end ?h = Some (length ?h - 4)" and b: "memmem content_length_name ?h = Some 17"
    and c: "drop (17 + 15) ?h = [SP] @ show_nat (length ''hi'') @ CR # [LF, CR, LF]" by code_simp+
  show "head_announces ?h (length ''hi'')"
    by (rule head_announcesI [OF a b c]) (simp_all add: isspace_c_def)
qed (simp_all add: header_end_def)

text \<open>
  C33: A body that makes the buffer grow is read through a dangling pointer: when \<open>realloc\<close> moves the
  buffer after the header was found, the next received byte is measured against the old
  \<open>body_start\<close>. Here the first segment holds the header and more than 3072 bytes.
\<close>

theorem recv_moved_buffer_undefined:
  assumes "head_announces head n" and "a = head @ b" and "length b < n" and "3072 < length a" and "length a \<le> 4096"
    and "c \<noteq> []" and "alloc_ok 4096" and "alloc_ok 8192" and "moves 8192"
  shows "http_recv_message alloc_ok moves True (a # c # segs) = Inl Undefined"
proof -
  define st where "st = \<lparr>r_buf = [], r_cap = 4096, r_content_length = 0, r_body = None, r_stale = False\<rparr>"
  have h4: "4 \<le> length head" by (rule head_announces_length [OF assms(1)])
  then have ne: "head \<noteq> []" by auto
  from recv_scan_head [OF assms(1), of st a "length a" b] assms(2) ne
  obtain st1 where st1: "recv_scan True a st = Inr st1" "r_buf st1 = a" "r_cap st1 = 4096" "\<not> r_stale st1"
    "r_body st1 = Some (length head)" "r_content_length st1 = n"
    by (auto simp: st_def)
  define st2 where "st2 = st1\<lparr>r_cap := 8192, r_stale := True\<rparr>"
  have grow: "recv_grow alloc_ok moves st1 = Inr st2"
    using st1 assms(4,8,9) by (simp add: recv_grow_def st2_def Let_def)
  obtain d segs' where os: "os_recv (8192 - length a) (c # segs) = (d, segs')" by (metis surj_pair)
  then have "d \<noteq> []" using assms(5,6) by (auto split: if_splits)
  moreover have "recv_scan True d st2 = Inr (st2\<lparr>r_buf := a @ d\<rparr>)" "r_cap st2 = 8192" "r_buf st2 = a" "r_stale st2" "r_body st2 = Some (length head)"
    using st1 by (simp_all add: recv_scan_def st2_def)
  ultimately have "recv_loop alloc_ok moves True st2 (c # segs) = Inl Undefined"
    using os by (simp add: recv_loop.simps [of alloc_ok moves True st2 "c # segs"] del: os_recv.simps)
  moreover have "a \<noteq> []" using h4 assms(2) by auto
  ultimately show ?thesis
    using st1 grow assms(2,3,5,7)
    unfolding http_recv_message_def st_def [symmetric] recv_loop.simps [of alloc_ok moves True st "a # c # segs"]
    by (simp add: st_def)
qed

text \<open>A header of a large upload.\<close>

definition upload_head :: string where
  "upload_head = ''POST / HTTP/1.1'' @ [CR, LF] @ ''Content-Length: 5000'' @ header_end"

lemma upload_head_announces: "head_announces upload_head 5000"
proof -
  have a: "memmem header_end upload_head = Some (length upload_head - 4)" and b: "memmem content_length_name upload_head = Some 17"
    by code_simp+
  have "show_nat 5000 = ''5000''" by (simp add: show_nat.simps digit_char_def char_of_def bit_Suc_0_iff)
  then have c: "drop (17 + 15) upload_head = [SP] @ show_nat 5000 @ CR # [LF, CR, LF]"
    by (simp add: upload_head_def header_end_def)
  show ?thesis by (rule head_announcesI [OF a b c]) (simp_all add: isspace_c_def)
qed

lemma upload_head_length: "length upload_head = 41"
  by code_simp

theorem recv_moved_buffer_undefined_witness:
  "http_recv_message (\<lambda>_. True) (\<lambda>_. True) True [upload_head @ replicate 4000 CHR ''x'', replicate 1000 CHR ''x''] = Inl Undefined"
  by (rule recv_moved_buffer_undefined [OF upload_head_announces refl]) (simp_all add: upload_head_length)

text \<open>
  The announced length is looked for under the name \<open>Content-Length:\<close> in exactly this spelling,
  while header names are case-insensitive everywhere else in the program: with any other
  spelling the message ends where the segment with the end of the header ends, and the body
  that follows is left on the socket.
\<close>

theorem recv_other_spelling_cuts:
  assumes "memmem header_end head = Some (length head - 4)" and "memmem content_length_name head = None"
    and "length head \<le> 4096" and "alloc_ok 4096"
  shows "http_recv_message alloc_ok moves True (head # segs) = Inr (head, segs)"
proof -
  have "head_announces head 0" using assms(1,2) by (simp add: head_announces_def)
  from head_announces_length [OF this] announced_length_head [OF this, of "[]"]
  have "4 \<le> length head" "announced_length head (length head) = Inr 0" by auto
  moreover from this have "head \<noteq> []" by auto
  ultimately show ?thesis
    using assms unfolding http_recv_message_def recv_loop.simps [of alloc_ok moves True _ "head # segs"]
    by (simp add: recv_scan_def)
qed

theorem recv_other_spelling_cuts_witness:
  "http_recv_message (\<lambda>_. True) (\<lambda>_. False) True
     [''POST / HTTP/1.1'' @ [CR, LF] @ ''content-length: 2'' @ header_end, ''hi''] =
   Inr (''POST / HTTP/1.1'' @ [CR, LF] @ ''content-length: 2'' @ header_end, [''hi''])"
proof (rule recv_other_spelling_cuts)
  let ?h = "''POST / HTTP/1.1'' @ [CR, LF] @ ''content-length: 2'' @ header_end"
  show "memmem header_end ?h = Some (length ?h - 4)" "memmem content_length_name ?h = None" "length ?h \<le> 4096" by code_simp+
qed simp

text \<open>
  Whatever the socket delivers, a message that is returned is a beginning of the delivered bytes,
  and the bytes that were not returned are still there to be received: none is lost or invented.
\<close>

theorem recv_keeps_bytes:
  assumes "http_recv_message alloc_ok moves expect_body segs = Inr (msg, rest)"
  shows "msg @ concat rest = concat segs"
proof -
  have scan: "recv_scan eb d st = Inr st1 \<Longrightarrow> r_buf st1 = r_buf st @ d" for eb d st st1
    by (auto simp: recv_scan_def Let_def bind_res_Inr split: option.splits if_splits)
  have grow: "recv_grow alloc_ok moves st = Inr st1 \<Longrightarrow> r_buf st1 = r_buf st" for st st1
    by (auto simp: recv_grow_def Let_def split: if_splits)
  have recv: "os_recv room ss = (d, ss') \<Longrightarrow> d @ concat ss' = concat ss" for room ss d ss'
    by (cases ss) (auto split: if_splits)
  have "recv_loop alloc_ok moves expect_body st segs = Inr (msg, rest) \<Longrightarrow> msg @ concat rest = r_buf st @ concat segs" for st
  proof (induction "length (concat segs)" arbitrary: st segs rule: less_induct)
    case less
    obtain d segs' where os: "os_recv (r_cap st - length (r_buf st)) segs = (d, segs')" by (metis surj_pair)
    note d = recv [OF os]
    show ?case
    proof (cases "d = []")
      case True
      with less.prems os d show ?thesis by (simp add: recv_loop.simps [of alloc_ok moves expect_body st])
    next
      case False
      with less.prems os obtain st1 where st1: "recv_scan expect_body d st = Inr st1"
        and alt: "msg = r_buf st1 \<and> rest = segs' \<or>
          (\<exists>st2. recv_grow alloc_ok moves st1 = Inr st2 \<and> recv_loop alloc_ok moves expect_body st2 segs' = Inr (msg, rest))"
        by (auto simp: recv_loop.simps [of alloc_ok moves expect_body st] bind_res_Inr split: if_splits)
      from alt show ?thesis
      proof
        assume "msg = r_buf st1 \<and> rest = segs'"
        with scan [OF st1] d show ?thesis by simp
      next
        assume "\<exists>st2. recv_grow alloc_ok moves st1 = Inr st2 \<and> recv_loop alloc_ok moves expect_body st2 segs' = Inr (msg, rest)"
        then obtain st2 where "recv_grow alloc_ok moves st1 = Inr st2" "recv_loop alloc_ok moves expect_body st2 segs' = Inr (msg, rest)"
          by blast
        with less.hyps [OF os_recv_less [OF os False]] grow scan [OF st1] d show ?thesis by fastforce
      qed
    qed
  qed
  from this [of "\<lparr>r_buf = [], r_cap = 4096, r_content_length = 0, r_body = None, r_stale = False\<rparr>"] assms show ?thesis
    by (simp add: http_recv_message_def split: if_splits)
qed

theorem recv_keeps_bytes_witness:
  "concat [''GET / HTTP/1.1'' @ header_end, ''GET /b''] = (''GET / HTTP/1.1'' @ header_end) @ concat [''GET /b'']"
proof -
  have "http_recv_message (\<lambda>_. True) (\<lambda>_. False) True [''GET / HTTP/1.1'' @ header_end, ''GET /b''] =
      Inr (''GET / HTTP/1.1'' @ header_end, [''GET /b''])"
    by code_simp
  from recv_keeps_bytes [OF this] show ?thesis by simp
qed

end
