(* ===== verification/Line_Loop.thy ===== *)
theory Line_Loop
  imports CStr
begin

text \<open>
  What \<open>utils/config.c\<close> and \<open>utils/routing.c\<close> share: the view of a file that \<open>open\<close>, \<open>fstat\<close> and
  \<open>mmap\<close> give, and the contract of a loop
  \<open>while ((line_end = memchr(line_start, '\n', ...)))\<close> over the mapped bytes. Both loops satisfy
  the contract; their properties rest on the lemmas proved here once.
\<close>

section \<open>Files\<close>

text \<open>What the operating system answers for a path that can be opened.\<close>

record os_file =
  fstat_ok :: bool
  file_bytes :: string
  mmap_ok :: bool

text \<open>
  A mapping covers whole pages: behind the last byte of the file the rest of its last page reads
  as zero, and an access behind that page is a fault.
\<close>

definition PAGE_SIZE :: nat where "PAGE_SIZE = 4096"

definition page_padding :: "nat \<Rightarrow> nat" where
  "page_padding n = (PAGE_SIZE - n mod PAGE_SIZE) mod PAGE_SIZE"

definition mapped_bytes :: "string \<Rightarrow> string" where
  "mapped_bytes content = content @ replicate (page_padding (length content)) NUL"

section \<open>Lines\<close>

definition unlines :: "string list \<Rightarrow> string" where
  "unlines ls = concat (map (\<lambda>l. l @ [LF]) ls)"

lemma unlines_simps [simp]:
  "unlines [] = []"
  "unlines (l # ls) = l @ LF # unlines ls"
  by (simp_all add: unlines_def)

lemma unlines_append: "unlines (xs @ ys) = unlines xs @ unlines ys"
  by (simp add: unlines_def)

text \<open>The lines that end in a line feed; what follows the last line feed is dropped.\<close>

function full_lines :: "string \<Rightarrow> string list" where
  "full_lines s = (if LF \<in> set s then before LF s # full_lines (after LF s) else [])"
  by pat_completeness auto
termination
proof (relation "measure length", simp, goal_cases)
  case (1 s)
  then show ?case using arg_cong [OF split_at [of LF s], of length] by simp
qed

declare full_lines.simps [simp del]

lemma before_line [simp]: "LF \<notin> set l \<Longrightarrow> before LF (l @ LF # s) = l"
  by (auto simp: before_def intro!: takeWhile_append_stop)

lemma after_line [simp]:
  assumes "LF \<notin> set l"
  shows "after LF (l @ LF # s) = s"
proof -
  have "dropWhile (\<lambda>x. x \<noteq> LF) (l @ LF # s) = LF # s"
    using assms by (intro dropWhile_append_stop) auto
  then show ?thesis by (simp add: after_def)
qed

lemma full_lines_Cons: "LF \<notin> set l \<Longrightarrow> full_lines (l @ LF # s) = l # full_lines s"
  by (simp add: full_lines.simps [of "l @ LF # s"])

lemma full_lines_unlines:
  "\<forall>l\<in>set ls. LF \<notin> set l \<Longrightarrow> LF \<notin> set r \<Longrightarrow> full_lines (unlines ls @ r) = ls"
proof (induction ls)
  case Nil
  then show ?case by (simp add: full_lines.simps [of r])
next
  case (Cons l ls)
  then show ?case by (simp add: full_lines_Cons)
qed

lemma full_lines_decompose:
  "\<exists>r. s = unlines (full_lines s) @ r \<and> LF \<notin> set r \<and> (\<forall>l\<in>set (full_lines s). LF \<notin> set l)"
proof (induction s rule: full_lines.induct)
  case (1 s)
  show ?case
  proof (cases "LF \<in> set s")
    case True
    from "1.IH" [OF True] obtain r where r: "after LF s = unlines (full_lines (after LF s)) @ r"
      "LF \<notin> set r" "\<forall>l\<in>set (full_lines (after LF s)). LF \<notin> set l" by blast
    have "s = unlines (full_lines s) @ r"
      using split_at [OF True] r(1) True by (simp add: full_lines.simps [of s])
    moreover have "\<forall>l\<in>set (full_lines s). LF \<notin> set l"
      using r(3) True by (simp add: full_lines.simps [of s] before_no)
    ultimately show ?thesis using r(2) by blast
  next
    case False
    then show ?thesis by (auto simp: full_lines.simps [of s])
  qed
qed

section \<open>The contract of the loop\<close>

text \<open>
  \<open>loop rest s\<close> runs the loop from the pointer \<open>rest\<close> in the state \<open>s\<close>; \<open>body rest n s\<close> handles the
  line of \<open>n\<close> bytes at \<open>rest\<close> and either returns from the function or continues.
\<close>

locale line_loop =
  fixes loop :: "string \<Rightarrow> 's \<Rightarrow> 'r"
    and finish :: "'s \<Rightarrow> 'r"
    and body :: "string \<Rightarrow> nat \<Rightarrow> 's \<Rightarrow> 'r + 's"
  assumes loop_eq: "loop rest s =
    (case memchr LF rest of
       None \<Rightarrow> finish s
     | Some n \<Rightarrow> (case body rest n s of Inl r \<Rightarrow> r | Inr s' \<Rightarrow> loop (drop (n + 1) rest) s'))"
begin

lemma loop_end: "LF \<notin> set rest \<Longrightarrow> loop rest s = finish s"
  by (subst loop_eq) (simp add: memchr_eq)

lemma loop_line:
  "LF \<notin> set l \<Longrightarrow> loop (l @ LF # rest) s =
     (case body (l @ LF # rest) (length l) s of Inl r \<Rightarrow> r | Inr s' \<Rightarrow> loop rest s')"
  by (subst loop_eq) (simp add: memchr_eq split: sum.splits)

lemma loop_stop:
  "LF \<notin> set l \<Longrightarrow> body (l @ LF # rest) (length l) s = Inl r \<Longrightarrow> loop (l @ LF # rest) s = r"
  by (simp add: loop_line)

lemma loop_skip:
  assumes "\<And>l rest. l \<in> set ls \<Longrightarrow> body (l @ LF # rest) (length l) s = Inr s"
    and "\<forall>l\<in>set ls. LF \<notin> set l"
  shows "loop (unlines ls @ rest) s = loop rest s"
  using assms by (induction ls) (simp_all add: loop_line)

text \<open>A loop that never returns early is a fold over the full lines.\<close>

lemma loop_fold:
  assumes "\<And>l rest s. LF \<notin> set l \<Longrightarrow> body (l @ LF # rest) (length l) s = Inr (f l s)"
  shows "loop s0 s = finish (fold f (full_lines s0) s)"
proof -
  have gen: "loop (unlines ls @ r) s = finish (fold f ls s)"
    if "\<forall>l\<in>set ls. LF \<notin> set l" and "LF \<notin> set r" for ls r s
    using that by (induction ls arbitrary: s) (simp_all add: loop_line assms loop_end)
  obtain r where "s0 = unlines (full_lines s0) @ r" "LF \<notin> set r"
    "\<forall>l\<in>set (full_lines s0). LF \<notin> set l"
    using full_lines_decompose [of s0] by blast
  with gen show ?thesis by metis
qed

end

end
