(* ===== verification/Routing.thy ===== *)
theory Routing
  imports Http Line_Loop
begin

text \<open>
  The route table (\<open>include/routing.h\<close>, \<open>utils/routing.c\<close>): types, method masks, the parser of
  \<open>routes.conf\<close>. The answers of the operating system and of \<open>realloc\<close> are arguments.
\<close>

unbundle bit_operations_syntax

section \<open>Definitions\<close>

definition ROUTE_TYPE_ALIAS :: int where "ROUTE_TYPE_ALIAS = 0"
definition ROUTE_TYPE_REROUTE :: int where "ROUTE_TYPE_REROUTE = 1"
definition ROUTE_TYPE_PROXY :: int where "ROUTE_TYPE_PROXY = 2"

lemmas route_type_defs = ROUTE_TYPE_ALIAS_def ROUTE_TYPE_REROUTE_def ROUTE_TYPE_PROXY_def

record route_t =
  r_src :: string
  r_dest :: string
  r_type :: int
  r_methods :: int

text \<open>\<open>route_table_t\<close>: the array and its length are a list.\<close>

type_synonym route_table_t = "route_t list"

definition append_route :: "(nat \<Rightarrow> bool) \<Rightarrow> route_table_t \<Rightarrow> route_t \<Rightarrow> bool \<times> route_table_t" where
  "append_route realloc_ok routes route =
     (if \<not> realloc_ok (length routes + 1) then (False, routes) else (True, routes @ [route]))"

definition route_str_to_type :: "string \<Rightarrow> int" where
  "route_str_to_type str =
     (if strcaseeq str ''alias'' then ROUTE_TYPE_ALIAS
      else if strcaseeq str ''reroute'' then ROUTE_TYPE_REROUTE
      else if strcaseeq str ''proxy'' then ROUTE_TYPE_PROXY
      else -1)"

fun methods_of_tokens :: "int \<Rightarrow> string list \<Rightarrow> int" where
  "methods_of_tokens methods [] = methods"
| "methods_of_tokens methods (tok # toks) =
     (let tok = dropWhile (\<lambda>c. c = SP \<or> c = TAB) tok;
          m = http_method_from_str tok
      in if m < 0 then -1 else methods_of_tokens (methods OR m) toks)"

definition route_str_to_methods :: "string \<Rightarrow> int" where
  "route_str_to_methods str =
     (if str = ''*'' \<or> strcaseeq str ''ALL'' then REQUEST_ALL
      else methods_of_tokens 0 (strtok_all '','' (pstrdup str)))"

definition route_delims :: string where
  "route_delims = [SP, TAB, VT]"

text \<open>
  The body of the loop for a line that is neither empty nor a comment: \<open>cur\<close> are the mapped bytes
  from the start of the line. \<open>None\<close> is the jump to \<open>malformed_line\<close>.
\<close>

definition parse_route_line :: "string \<Rightarrow> nat \<Rightarrow> route_t option" where
  "parse_route_line cur line_len =
     (let line = pstrndup cur line_len in
      case strtok_at route_delims line 0 of
        None \<Rightarrow> None
      | Some (_, methods_str, p1) \<Rightarrow>
          (case strtok_at route_delims line p1 of
             None \<Rightarrow> None
           | Some (route_off, route, p2) \<Rightarrow>
               (case strtok_at route_delims line p2 of
                  None \<Rightarrow> None
                | Some (_, type_str, p3) \<Rightarrow>
                    (case strtok_at route_delims line p3 of
                       None \<Rightarrow> None
                     | Some (target_off, target, p4) \<Rightarrow>
                         let type = route_str_to_type type_str in
                         if type < 0 then None
                         else
                           let methods = route_str_to_methods methods_str in
                           if methods < 0 then None
                           else Some \<lparr>r_src = pstrndup (drop route_off cur) (length route),
                                  r_dest = pstrndup (drop target_off cur) (length target),
                                  r_type = type, r_methods = methods\<rparr>))))"

definition routes_line :: "(nat \<Rightarrow> bool) \<Rightarrow> string \<Rightarrow> nat \<Rightarrow> route_table_t \<Rightarrow> route_table_t" where
  "routes_line realloc_ok line_start line_len ret =
     (if line_len = 0 \<or> line_start ! 0 = CHR ''#'' then ret
      else case parse_route_line line_start line_len of
             None \<Rightarrow> ret
           | Some route \<Rightarrow> snd (append_route realloc_ok ret route))"

function routes_loop :: "(nat \<Rightarrow> bool) \<Rightarrow> string \<Rightarrow> route_table_t \<Rightarrow> route_table_t" where
  "routes_loop realloc_ok line_start ret =
     (case memchr LF line_start of
        None \<Rightarrow> ret
      | Some line_len \<Rightarrow>
          routes_loop realloc_ok (drop (line_len + 1) line_start)
            (routes_line realloc_ok line_start line_len ret))"
  by pat_completeness auto
termination
  by (relation "measure (\<lambda>(ok, s, ret). length s)") (auto simp: memchr_Some)

declare routes_loop.simps [simp del]

definition routes_parse :: "(string \<Rightarrow> os_file option) \<Rightarrow> (nat \<Rightarrow> bool) \<Rightarrow> string \<Rightarrow> route_table_t" where
  "routes_parse os realloc_ok p =
     (case os p of
        None \<Rightarrow> []
      | Some f \<Rightarrow>
          if \<not> fstat_ok f then []
          else if length (file_bytes f) = 0 then []
          else if \<not> mmap_ok f then []
          else routes_loop realloc_ok (file_bytes f) [])"

section \<open>The loop as a fold over lines\<close>

interpretation rloop: line_loop "routes_loop ok" "\<lambda>ret. ret" "\<lambda>rest n ret. Inr (routes_line ok rest n ret)"
  for ok
  by unfold_locales (simp add: routes_loop.simps [of ok] split: option.splits)

text \<open>A line by itself: the bytes after it do not matter.\<close>

definition route_of_line :: "string \<Rightarrow> route_t option" where
  "route_of_line l = (if l = [] \<or> hd l = CHR ''#'' then None else parse_route_line l (length l))"

lemma cstr_append_short: "length (cstr a) < length a \<or> b = [] \<Longrightarrow> cstr (a @ b) = cstr a"
  unfolding cstr_def by (metis (no_types, lifting) append_Nil2 nat_less_le takeWhile_append takeWhile_eq_all_conv)

lemma token_within:
  assumes "strtok_at ds s pos = Some (b, tok, nxt)" and "s = cstr l"
  shows "pstrndup (drop b (l @ rest)) (length tok) = tok"
proof -
  note tok = strtok_at_Some [OF assms(1)]
  have len: "b + length tok \<le> length s"
    using tok(2,4) by (metis add.commute le_diff_conv2 less_imp_le length_drop length_take min.cobounded1 min.commute)
  have s: "s = take (length s) l" unfolding assms(2) cstr_def by (metis take_length_takeWhile)
  have "length s \<le> length l" unfolding assms(2) by (rule cstr_length)
  then have "take (length tok) (drop b (l @ rest)) = take (length tok) (drop b (take (length s) l))"
    using len by (simp add: drop_take min_def)
  also have "\<dots> = tok" using s tok(4) by metis
  finally have "take (length tok) (drop b (l @ rest)) = tok" .
  moreover have "is_cstr tok"
    using tok(4) is_cstr_cstr [of l] assms(2)
    by (metis in_set_dropD in_set_takeD is_cstr_def)
  ultimately show ?thesis by (simp add: pstrndup_def)
qed

lemma parse_route_line_local: "parse_route_line (l @ rest) (length l) = parse_route_line l (length l)"
proof -
  have line: "pstrndup (l @ rest) (length l) = cstr l" "pstrndup l (length l) = cstr l"
    by (simp_all add: pstrndup_def)
  show ?thesis
    unfolding parse_route_line_def line Let_def
    using token_within [OF _ refl, of route_delims l _ _ _ _ rest] token_within [OF _ refl, of route_delims l _ _ _ _ "[]"]
    by (auto split: option.splits prod.splits)
qed

lemma routes_line_local:
  "routes_line ok (l @ LF # rest) (length l) ret =
     (case route_of_line l of None \<Rightarrow> ret | Some r \<Rightarrow> snd (append_route ok ret r))"
  by (cases l) (simp_all add: routes_line_def route_of_line_def parse_route_line_local [of "_ # _", simplified])

section \<open>Writing a table\<close>

definition request_bits :: "int list" where
  "request_bits = [REQUEST_GET, REQUEST_HEAD, REQUEST_POST, REQUEST_PUT, REQUEST_DELETE,
     REQUEST_CONNECT, REQUEST_OPTIONS, REQUEST_TRACE, REQUEST_PATCH]"

fun join :: "char \<Rightarrow> string list \<Rightarrow> string" where
  "join c [] = []"
| "join c [t] = t"
| "join c (t # ts) = t @ c # join c ts"

definition method_names :: "int \<Rightarrow> string list" where
  "method_names m = map (\<lambda>b. the (http_method_to_str b)) (filter (\<lambda>b. m AND b \<noteq> 0) request_bits)"

definition show_methods :: "int \<Rightarrow> string" where
  "show_methods m = join (CHR '','') (method_names m)"

definition show_route_type :: "int \<Rightarrow> string" where
  "show_route_type t =
     (if t = ROUTE_TYPE_ALIAS then ''alias'' else if t = ROUTE_TYPE_REROUTE then ''reroute'' else ''proxy'')"

definition show_route :: "route_t \<Rightarrow> string" where
  "show_route r = show_methods (r_methods r) @ TAB # r_src r @ TAB # show_route_type (r_type r) @ TAB # r_dest r"

lemma request_masks: "\<forall>m\<in>set (map int [0..<512]). fold (\<lambda>b a. a OR b) (filter (\<lambda>b. m AND b \<noteq> 0) request_bits) 0 = m"
  by code_simp

lemma strtok_all_join:
  "\<forall>t\<in>set ts. t \<noteq> [] \<and> c \<notin> set t \<Longrightarrow> strtok_all [c] (join c ts) = ts"
proof (induction c ts rule: join.induct)
  case (2 c t)
  then show ?case using strtok_all_token [of t "[c]" "[]"] by simp
next
  case (3 c t t' ts)
  then show ?case
    using strtok_all_token [of t "[c]" "c # join c (t' # ts)"] by (simp add: strtok_all_delim)
qed simp

lemma request_bits_names:
  assumes "b \<in> set request_bits"
  shows "\<exists>s. http_method_to_str b = Some s \<and> s \<noteq> [] \<and> set s \<inter> {CHR '','', SP, TAB, VT, LF, NUL, CHR ''#''} = {}
    \<and> s \<noteq> ''*'' \<and> \<not> strcaseeq s ''ALL''"
  using assms
  by (auto simp: request_bits_def http_method_to_str_def request_defs strcaseeq_def tolower_c_def)

lemma methods_of_names:
  "set bs \<subseteq> set request_bits \<Longrightarrow>
   methods_of_tokens acc (map (\<lambda>b. the (http_method_to_str b)) bs) = fold (\<lambda>b a. a OR b) bs acc"
proof (induction bs arbitrary: acc)
  case (Cons b bs)
  from Cons.prems obtain s where s: "http_method_to_str b = Some s" "s \<noteq> []" "SP \<notin> set s" "TAB \<notin> set s"
    using request_bits_names [of b] by auto
  then have "hd s \<noteq> SP" "hd s \<noteq> TAB" by (metis hd_in_set)+
  then have "dropWhile (\<lambda>c. c = SP \<or> c = TAB) s = s" by (simp add: dropWhile_hd)
  with Cons s(1) method_strings [OF s(1)] show ?case by (simp add: Let_def)
qed simp

lemma join_comma:
  "t \<in> set ts \<Longrightarrow> t' \<in> set ts \<Longrightarrow> t \<noteq> t' \<Longrightarrow> c \<in> set (join c ts)"
  by (induction c ts rule: join.induct) auto

lemma join_set: "set (join c ts) \<subseteq> insert c (\<Union>(set ` set ts))"
  by (induction c ts rule: join.induct) auto

lemma join_singleton: "c \<notin> set (join c ts) \<Longrightarrow> ts = [] \<or> (\<exists>t. ts = [t])"
  by (induction c ts rule: join.induct) auto

lemma method_names_ok:
  "t \<in> set (method_names m) \<Longrightarrow> t \<noteq> [] \<and> set t \<inter> {CHR '','', SP, TAB, VT, LF, NUL, CHR ''#''} = {}
    \<and> t \<noteq> ''*'' \<and> \<not> strcaseeq t ''ALL''"
  using request_bits_names by (fastforce simp: method_names_def)

lemma show_methods_not_all:
  assumes "method_names m \<noteq> []"
  shows "show_methods m \<noteq> ''*'' \<and> \<not> strcaseeq (show_methods m) ''ALL''"
proof (cases "CHR '','' \<in> set (show_methods m)")
  case True
  have low: "CHR '','' \<in> set s \<Longrightarrow> CHR '','' \<in> set (map tolower_c s)" for s
    by (force simp: tolower_c_def)
  have "CHR '','' \<notin> set (map tolower_c ''ALL'')" by code_simp
  with low [OF True] have "\<not> strcaseeq (show_methods m) ''ALL''"
    by (auto simp: strcaseeq_def)
  with True show ?thesis by auto
next
  case False
  with assms obtain t where "method_names m = [t]"
    unfolding show_methods_def using join_singleton by blast
  with method_names_ok [of t m] show ?thesis by (simp add: show_methods_def)
qed

lemma mask_names:
  assumes "0 < m" and "m < 512"
  shows "fold (\<lambda>b a. a OR b) (filter (\<lambda>b. m AND b \<noteq> 0) request_bits) 0 = m" and "method_names m \<noteq> []"
proof -
  have "m \<in> set (map int [0..<512])" using assms by (auto intro!: image_eqI [of _ _ "nat m"])
  with request_masks show eq: "fold (\<lambda>b a. a OR b) (filter (\<lambda>b. m AND b \<noteq> 0) request_bits) 0 = m"
    by blast
  have "filter (\<lambda>b. m AND b \<noteq> 0) request_bits \<noteq> []"
  proof
    assume "filter (\<lambda>b. m AND b \<noteq> 0) request_bits = []"
    with eq have "m = 0" by simp
    with assms(1) show False by simp
  qed
  then show "method_names m \<noteq> []" by (simp add: method_names_def)
qed

lemma show_methods_parse:
  assumes "0 < m" and "m < 512"
  shows "route_str_to_methods (show_methods m) = m"
proof -
  have names: "\<forall>t\<in>set (method_names m). t \<noteq> [] \<and> CHR '','' \<notin> set t" "\<forall>t\<in>set (method_names m). is_cstr t"
    using method_names_ok by (auto simp: is_cstr_def)
  have "is_cstr (show_methods m)"
    using names(2) join_set [of "CHR '',''" "method_names m"]
    by (auto simp: is_cstr_def show_methods_def)
  then have "route_str_to_methods (show_methods m) = methods_of_tokens 0 (method_names m)"
    using show_methods_not_all [OF mask_names(2) [OF assms]] strtok_all_join [OF names(1)]
    by (simp add: route_str_to_methods_def pstrdup_def show_methods_def [symmetric])
  also have "\<dots> = m"
    unfolding method_names_def using methods_of_names mask_names(1) [OF assms] by simp
  finally show ?thesis .
qed

definition word_ok :: "string \<Rightarrow> bool" where
  "word_ok w \<longleftrightarrow> w \<noteq> [] \<and> set w \<inter> {SP, TAB, VT, LF, NUL} = {}"

definition route_ok :: "route_t \<Rightarrow> bool" where
  "route_ok r \<longleftrightarrow> word_ok (r_src r) \<and> word_ok (r_dest r) \<and> r_type r \<in> {0, 1, 2} \<and>
     0 < r_methods r \<and> r_methods r < 512"

lemma show_methods_word:
  assumes "0 < m" and "m < 512"
  shows "word_ok (show_methods m)" and "hd (show_methods m) \<noteq> CHR ''#''"
proof -
  have names: "method_names m \<noteq> []" by (rule mask_names(2) [OF assms])
  have sub: "set (show_methods m) \<inter> {SP, TAB, VT, LF, NUL, CHR ''#''} = {}"
    using join_set [of "CHR '',''" "method_names m"] method_names_ok by (auto simp: show_methods_def)
  obtain t ts where ts: "method_names m = t # ts" using names by (cases "method_names m") auto
  have "join (CHR '','') (t # ts) \<noteq> []"
    using method_names_ok [of t m] ts by (cases ts) auto
  then have ne: "show_methods m \<noteq> []" by (simp add: show_methods_def ts)
  with sub show "word_ok (show_methods m)" by (auto simp: word_ok_def)
  show "hd (show_methods m) \<noteq> CHR ''#''" using ne sub hd_in_set by blast
qed

lemma parse_route_words:
  assumes "word_ok a" and "word_ok b" and "word_ok c" and "word_ok d"
    and "0 \<le> route_str_to_type c" and "0 \<le> route_str_to_methods a"
  shows "parse_route_line (a @ TAB # b @ TAB # c @ TAB # d) (length (a @ TAB # b @ TAB # c @ TAB # d)) =
    Some \<lparr>r_src = b, r_dest = d, r_type = route_str_to_type c, r_methods = route_str_to_methods a\<rparr>"
proof -
  define l where "l = a @ TAB # b @ TAB # c @ TAB # d"
  have w: "w \<noteq> [] \<and> set w \<inter> set route_delims = {}" if "word_ok w" for w
    using that by (auto simp: word_ok_def route_delims_def)
  have tab: "TAB \<in> set route_delims" by (simp add: route_delims_def)
  let ?p1 = "length a + 1" let ?p2 = "?p1 + length b + 1" let ?p3 = "?p2 + length c + 1"
  have t1: "strtok_at route_delims l 0 = Some (0, a, ?p1)"
    using strtok_at_skip [of 0 l "[]" a "TAB # b @ TAB # c @ TAB # d" route_delims] w [OF assms(1)] tab
    by (simp add: l_def)
  have t2: "strtok_at route_delims l ?p1 = Some (?p1, b, ?p2)"
    using strtok_at_skip [of ?p1 l "[]" b "TAB # c @ TAB # d" route_delims] w [OF assms(2)] tab
    by (simp add: l_def)
  have t3: "strtok_at route_delims l ?p2 = Some (?p2, c, ?p3)"
    using strtok_at_skip [of ?p2 l "[]" c "TAB # d" route_delims] w [OF assms(3)] tab
    by (simp add: l_def)
  have "l = (a @ TAB # b @ TAB # c @ [TAB]) @ d" and "?p3 = length (a @ TAB # b @ TAB # c @ [TAB])"
    by (simp_all add: l_def)
  then have "drop ?p3 l = d" and "?p3 \<le> length l" by (metis append_eq_conv_conj, simp add: l_def)
  then have t4: "strtok_at route_delims l ?p3 = Some (?p3, d, ?p3 + length d + 1)"
    using strtok_at_skip [of ?p3 l "[]" d "[]" route_delims] w [OF assms(4)] by simp
  have "is_cstr l" using assms(1-4) by (auto simp: l_def word_ok_def is_cstr_def)
  then have line: "pstrndup l (length l) = l" "l = cstr l" by (simp_all add: pstrndup_def)
  show ?thesis
    using token_within [OF t2 line(2), of "[]"] token_within [OF t4 line(2), of "[]"] assms(5,6)
    unfolding l_def [symmetric] parse_route_line_def line(1) Let_def t1 option.case prod.case t2 t3 t4
    by simp
qed

lemma route_of_shown:
  assumes "route_ok r"
  shows "route_of_line (show_route r) = Some r" and "LF \<notin> set (show_route r)"
proof -
  let ?a = "show_methods (r_methods r)" and ?c = "show_route_type (r_type r)"
  have m: "0 < r_methods r" "r_methods r < 512" using assms by (auto simp: route_ok_def)
  have c: "word_ok ?c" "route_str_to_type ?c = r_type r"
    using assms by (auto simp: route_ok_def word_ok_def show_route_type_def route_str_to_type_def
        route_type_defs strcaseeq_def tolower_c_def)
  have ne: "show_route r \<noteq> []" "hd (show_route r) \<noteq> CHR ''#''"
    using show_methods_word [OF m] by (auto simp: show_route_def word_ok_def)
  have "0 \<le> r_type r" using assms by (auto simp: route_ok_def)
  then have "parse_route_line (show_route r) (length (show_route r)) = Some r"
    using parse_route_words [OF show_methods_word(1) [OF m] _ c(1), of "r_src r" "r_dest r"]
      c(2) show_methods_parse [OF m] m assms
    by (simp add: show_route_def route_ok_def)
  with ne show "route_of_line (show_route r) = Some r" by (simp add: route_of_line_def)
  show "LF \<notin> set (show_route r)"
    using show_methods_word(1) [OF m] c(1) assms by (auto simp: show_route_def word_ok_def route_ok_def)
qed

section \<open>Properties of the route table\<close>

lemma fold_append_routes:
  assumes "\<And>n. ok n"
  shows "fold (\<lambda>l ret. case route_of_line l of None \<Rightarrow> ret | Some r \<Rightarrow> snd (append_route ok ret r)) ls ret =
    ret @ List.map_filter route_of_line ls"
  using assms
  by (induction ls arbitrary: ret) (auto simp: List.map_filter_simps append_route_def split: option.splits)

lemma routes_loop_lines:
  assumes "\<And>n. ok n"
  shows "routes_loop ok s ret = ret @ List.map_filter route_of_line (full_lines s)"
proof -
  have "routes_loop ok s ret =
      fold (\<lambda>l ret. case route_of_line l of None \<Rightarrow> ret | Some r \<Rightarrow> snd (append_route ok ret r)) (full_lines s) ret"
    by (rule rloop.loop_fold) (simp add: routes_line_local)
  with fold_append_routes [OF assms] show ?thesis by simp
qed

text \<open>
  C23: The route table that \<open>routes_parse\<close> loads is, in order, the routes of the lines of the file
  that end in a line feed: comments, empty lines and malformed lines are skipped, a line alone
  decides its route, and nothing is dropped while \<open>realloc\<close> succeeds.
\<close>

theorem routes_parse_lines:
  assumes "os p = Some \<lparr>fstat_ok = True, file_bytes = content, mmap_ok = True\<rparr>" and "\<And>n. realloc_ok n"
  shows "routes_parse os realloc_ok p = List.map_filter route_of_line (full_lines content)"
  using routes_loop_lines [of realloc_ok content "[]", OF assms(2)] assms(1)
  by (auto simp: routes_parse_def full_lines.simps [of "[]"] List.map_filter_simps)

theorem routes_parse_lines_witness:
  "routes_parse (\<lambda>p. Some \<lparr>fstat_ok = True, file_bytes = ''# c'' @ [LF] @ ''ALL / alias /i'' @ [LF], mmap_ok = True\<rparr>)
     (\<lambda>_. True) ''routes.conf'' =
   List.map_filter route_of_line (full_lines (''# c'' @ [LF] @ ''ALL / alias /i'' @ [LF]))"
  by (rule routes_parse_lines) simp_all

text \<open>
  C13: Writing a table one route per line and loading the file gives the table back: the method
  mask, the type, the source and the destination of every route survive, in order.
\<close>

theorem routes_roundtrip:
  assumes "\<forall>r\<in>set rs. route_ok r" and "\<And>n. realloc_ok n"
    and "os p = Some \<lparr>fstat_ok = True, file_bytes = unlines (map show_route rs), mmap_ok = True\<rparr>"
  shows "routes_parse os realloc_ok p = rs"
proof -
  have "full_lines (unlines (map show_route rs) @ []) = map show_route rs"
    using assms(1) by (intro full_lines_unlines) (auto simp: route_of_shown(2))
  moreover have "List.map_filter route_of_line (map show_route rs) = rs"
    using assms(1) by (induction rs) (simp_all add: List.map_filter_simps route_of_shown(1))
  ultimately have "List.map_filter route_of_line (full_lines (unlines (map show_route rs))) = rs" by simp
  with routes_loop_lines [of realloc_ok "unlines (map show_route rs)" "[]", OF assms(2)] assms(3) show ?thesis
    by (auto simp: routes_parse_def full_lines.simps [of "[]"] List.map_filter_simps)
qed

definition sample_routes :: route_table_t where
  "sample_routes = [\<lparr>r_src = ''/'', r_dest = ''/index.html'', r_type = 0, r_methods = 511\<rparr>,
     \<lparr>r_src = ''/api'', r_dest = ''http://127.0.0.1:4001'', r_type = 2, r_methods = 5\<rparr>]"

theorem routes_roundtrip_witness:
  "routes_parse (\<lambda>p. Some \<lparr>fstat_ok = True, file_bytes = unlines (map show_route sample_routes), mmap_ok = True\<rparr>)
     (\<lambda>_. True) ''routes.conf'' = sample_routes"
proof (rule routes_roundtrip)
  show "\<forall>r\<in>set sample_routes. route_ok r"
    by (simp add: sample_routes_def route_ok_def word_ok_def)
qed simp_all

text \<open>
  When the file cannot be opened, inspected or mapped, or is empty, the table is empty; the
  server then serves files only.
\<close>

theorem routes_parse_unreadable:
  "os p = None \<or> (\<exists>f. os p = Some f \<and> (\<not> fstat_ok f \<or> file_bytes f = [] \<or> \<not> mmap_ok f)) \<Longrightarrow>
   routes_parse os realloc_ok p = []"
  by (auto simp: routes_parse_def)

theorem routes_parse_unreadable_witness:
  "routes_parse (\<lambda>_. None) (\<lambda>_. True) ''routes.conf'' = []"
  by (rule routes_parse_unreadable) simp

end
