(* ===== verification/Config.thy ===== *)
theory Config
  imports Line_Loop
begin

text \<open>
  The configuration file (\<open>include/config.h\<close>, \<open>utils/config.c\<close>): opening and mapping the file,
  the lookup of a key in a section, integer values. The lookup reads the mapping itself, also
  behind the line it works on and behind the end of the file, so the model keeps the bytes of
  the last page that follow the file. Without a file the path is null, and the warning that a key was
  not found hands it to \<open>%s\<close>; the C library prints a word for it, so the lookup goes on and gives no value.
\<close>

section \<open>Definitions\<close>

record config_t =
  cf_map :: string
  cf_path :: "string option"
  cf_fd :: int
  cf_size :: nat

definition config_zero :: config_t where
  "config_zero = \<lparr>cf_map = [], cf_path = None, cf_fd = 0, cf_size = 0\<rparr>"

definition config_parse :: "(string \<Rightarrow> os_file option) \<Rightarrow> int \<Rightarrow> string \<Rightarrow> config_t" where
  "config_parse os fd p =
     (case os p of
        None \<Rightarrow> config_zero
      | Some f \<Rightarrow>
          if \<not> fstat_ok f then config_zero
          else if length (file_bytes f) = 0 then config_zero
          else if \<not> mmap_ok f then config_zero
          else \<lparr>cf_map = mapped_bytes (file_bytes f), cf_path = Some (pstrdup p), cf_fd = fd,
                 cf_size = length (file_bytes f)\<rparr>)"

text \<open>C division truncates towards zero.\<close>

definition c_div10 :: "int \<Rightarrow> int" where
  "c_div10 i = (if i < 0 then - ((- i) div 10) else i div 10)"

function numdigits_loop :: "int \<Rightarrow> int \<Rightarrow> int" where
  "numdigits_loop count num =
     (let count = count + 1; num = c_div10 num
      in if num \<noteq> 0 then numdigits_loop count num else count)"
  by pat_completeness auto
termination
  by (relation "measure (\<lambda>(c, n). nat \<bar>n\<bar>)") (auto simp: c_div10_def split: if_splits)

declare numdigits_loop.simps [simp del]

definition numdigits :: "int \<Rightarrow> int" where
  "numdigits num = numdigits_loop 0 num"

text \<open>\<open>strpbrk(line, " =")\<close> as an offset.\<close>

definition key_end_of :: "string \<Rightarrow> nat option" where
  "key_end_of line =
     (let n = length (takeWhile (\<lambda>c. c \<noteq> SP \<and> c \<noteq> CHR ''='') line)
      in if n = length line then None else Some n)"

text \<open>\<open>pstrndup(mem + off, n)\<close> on mapped memory: a read behind the mapping is a fault.\<close>

definition read_cstr :: "string \<Rightarrow> nat \<Rightarrow> nat \<Rightarrow> string res" where
  "read_cstr mem off n =
     (if NUL \<notin> set (take n (drop off mem)) \<and> length mem < off + n then Inl Undefined
      else Inr (pstrndup (drop off mem) n))"

text \<open>
  The value part of a matching line. \<open>cur\<close> is the mapping from the start of the line on, \<open>line\<close>
  the copy of the line. When only white space follows the key, \<open>key_end + 1\<close> is behind the
  terminator of the copy. The second loop runs on the mapping and does not stop at the end of
  the line; \<open>value_len\<close> is a \<open>size_t\<close> that it may take below zero.
\<close>

definition config_value :: "string \<Rightarrow> string \<Rightarrow> nat \<Rightarrow> string res" where
  "config_value cur line key_end =
     (let key_end = key_end + length (takeWhile (\<lambda>c. isspace_c c \<or> c = SP) (drop key_end line)) in
      if key_end \<ge> length line then Inl Undefined
      else
        let value_off = key_end + 1; value_len = length line - (key_end + 1);
            k = length (takeWhile isspace_c (drop value_off cur)) in
        if value_off + k \<ge> length cur then Inl Undefined
        else read_cstr cur (value_off + k) ((value_len + 2 ^ 64 - k) mod 2 ^ 64))"

text \<open>
  One line of the loop of \<open>config_get\<close>: \<open>Inl\<close> returns from the function, \<open>Inr\<close> continues with the
  new value of \<open>found_section\<close>. \<open>pad\<close> are the mapped bytes behind the file.
\<close>

definition config_line ::
  "string \<Rightarrow> string \<Rightarrow> string \<Rightarrow> string \<Rightarrow> nat \<Rightarrow> bool \<Rightarrow> string option res + bool" where
  "config_line pad sect key line_start line_len found_section =
     (if line_len = 0 \<or> line_start ! 0 = CHR ''#'' then Inr found_section
      else
        let line = pstrndup line_start line_len; bracket = (line \<noteq> [] \<and> hd line = CHR ''['') in
        if found_section then
          if bracket then Inl (Inr None)
          else
            (case key_end_of line of
               None \<Rightarrow> Inl (Inr None)
             | Some key_end \<Rightarrow>
                 if strneq line key key_end
                 then Inl (bind_res (config_value (line_start @ pad) line key_end) (\<lambda>v. Inr (Some v)))
                 else Inr found_section)
        else if bracket then
          (case memchr (CHR '']'') line of
             None \<Rightarrow> Inl (Inr None)
           | Some section_name_end \<Rightarrow>
               Inr (strneq (tl line) sect (section_name_end - 1)))
        else Inr found_section)"

function config_get_loop ::
  "string \<Rightarrow> string \<Rightarrow> string \<Rightarrow> string \<Rightarrow> bool \<Rightarrow> string option res" where
  "config_get_loop pad sect key line_start found_section =
     (case memchr LF line_start of
        None \<Rightarrow> Inr None
      | Some line_len \<Rightarrow>
          (case config_line pad sect key line_start line_len found_section of
             Inl r \<Rightarrow> r
           | Inr found \<Rightarrow> config_get_loop pad sect key (drop (line_len + 1) line_start) found))"
  by pat_completeness auto
termination
  by (relation "measure (\<lambda>(pad, s, k, l, f). length l)") (auto simp: memchr_Some)

declare config_get_loop.simps [simp del]

definition config_get :: "config_t \<Rightarrow> string \<Rightarrow> string \<Rightarrow> string option res" where
  "config_get conf sect key =
     config_get_loop (drop (cf_size conf) (cf_map conf)) sect key (take (cf_size conf) (cf_map conf)) False"

definition config_get_int :: "config_t \<Rightarrow> string \<Rightarrow> string \<Rightarrow> int res" where
  "config_get_int conf sect key =
     bind_res (config_get conf sect key) (\<lambda>val.
       case val of None \<Rightarrow> Inr 0 | Some v \<Rightarrow> Inr (to_int32 (strtol v)))"

section \<open>The loop\<close>

interpretation cloop: line_loop "config_get_loop pad sect key" "\<lambda>_. Inr None" "config_line pad sect key"
  for pad sect key
  by unfold_locales (simp add: config_get_loop.simps [of pad sect key] split: option.splits sum.splits)

lemma config_get_parsed:
  assumes "os p = Some \<lparr>fstat_ok = True, file_bytes = content, mmap_ok = True\<rparr>" and "content \<noteq> []"
  shows "config_get (config_parse os fd p) sect key =
    config_get_loop (replicate (page_padding (length content)) NUL) sect key content False"
  using assms by (simp add: config_get_def config_parse_def mapped_bytes_def)

section \<open>Writing a file\<close>

text \<open>An entry is a key, the blanks before and after the equals sign, and a value.\<close>

type_synonym entry = "string \<times> nat \<times> nat \<times> string"

fun show_entry :: "entry \<Rightarrow> string" where
  "show_entry (k, i, j, v) = k @ replicate i SP @ CHR ''='' # replicate j SP @ v"

definition show_section :: "string \<times> entry list \<Rightarrow> string list" where
  "show_section sec = (CHR ''['' # fst sec @ '']'') # map show_entry (snd sec)"

definition show_config :: "(string \<times> entry list) list \<Rightarrow> string" where
  "show_config cfg = unlines (concat (map show_section cfg))"

fun entry_ok :: "entry \<Rightarrow> bool" where
  "entry_ok (k, i, j, v) \<longleftrightarrow>
     k \<noteq> [] \<and> hd k \<noteq> CHR ''['' \<and> hd k \<noteq> CHR ''#'' \<and> set k \<inter> {SP, CHR ''='', LF, NUL} = {} \<and>
     v \<noteq> [] \<and> \<not> isspace_c (hd v) \<and> set v \<inter> {LF, NUL} = {} \<and> length v < 2 ^ 64"

definition config_ok :: "(string \<times> entry list) list \<Rightarrow> bool" where
  "config_ok cfg \<longleftrightarrow> (\<forall>(s, es)\<in>set cfg. set s \<inter> {CHR '']'', LF, NUL} = {} \<and> (\<forall>e\<in>set es. entry_ok e))"

text \<open>
  What \<open>config_get\<close> finds: the first section whose name is a prefix of the requested one, and in
  it the first key that is a prefix of the requested one.
\<close>

definition prefix_lookup :: "(string \<times> entry list) list \<Rightarrow> string \<Rightarrow> string \<Rightarrow> string option" where
  "prefix_lookup cfg sect key =
     (case find (\<lambda>(s, _). prefix s sect) cfg of
        None \<Rightarrow> None
      | Some (_, es) \<Rightarrow> map_option (\<lambda>(_, _, _, v). v) (find (\<lambda>(k, _). prefix k key) es))"

text \<open>The lookup that the names \<open>section\<close> and \<open>key\<close> promise.\<close>

definition exact_lookup :: "(string \<times> entry list) list \<Rightarrow> string \<Rightarrow> string \<Rightarrow> string option" where
  "exact_lookup cfg sect key =
     (case find (\<lambda>(s, _). s = sect) cfg of
        None \<Rightarrow> None
      | Some (_, es) \<Rightarrow> map_option (\<lambda>(_, _, _, v). v) (find (\<lambda>(k, _). k = key) es))"

lemma entry_line:
  assumes "entry_ok (k, i, j, v)" and "e = show_entry (k, i, j, v)"
  shows "e \<noteq> []" and "LF \<notin> set e" and "is_cstr e" and "hd e = hd k"
    and "key_end_of e = Some (length k)" and "strneq e key (length k) \<longleftrightarrow> prefix k key"
proof -
  show "e \<noteq> []" and "LF \<notin> set e" and "is_cstr e" and "hd e = hd k"
    using assms by (auto simp: is_cstr_def)
  have "takeWhile (\<lambda>c. c \<noteq> SP \<and> c \<noteq> CHR ''='') e = k"
    using assms by (cases i) (auto intro!: takeWhile_append_stop)
  then show "key_end_of e = Some (length k)"
    using assms(2) by (simp add: key_end_of_def)
  show "strneq e key (length k) \<longleftrightarrow> prefix k key"
    using strneq_prefix [of "length k" e key] assms(2) by simp
qed

lemma entry_value:
  assumes "entry_ok (k, i, j, v)"
  shows "config_value (show_entry (k, i, j, v) @ LF # rest) (show_entry (k, i, j, v)) (length k) = Inr v"
proof -
  define e where "e = show_entry (k, i, j, v)"
  have sp: "isspace_c SP" "\<not> isspace_c (CHR ''='')" by (simp_all add: isspace_c_def)
  have tw: "takeWhile (\<lambda>c. isspace_c c \<or> c = SP) (drop (length k) e) = replicate i SP"
    using sp by (auto simp: e_def intro!: takeWhile_append_stop)
  define off where "off = length k + i + 1"
  have split_e: "e = (k @ replicate i SP @ ''='') @ replicate j SP @ v" by (simp add: e_def)
  have off: "off = length (k @ replicate i SP @ ''='')" by (simp add: off_def)
  have d1: "drop off (e @ LF # rest) = replicate j SP @ v @ LF # rest"
    unfolding split_e off by simp
  obtain c cs where v: "v = c # cs" "\<not> isspace_c c" using assms by (cases v) auto
  have tw2: "takeWhile isspace_c (drop off (e @ LF # rest)) = replicate j SP"
    unfolding d1 using sp(1) v by (auto intro!: takeWhile_append_stop)
  have d2: "drop (off + j) (e @ LF # rest) = v @ LF # rest"
    using d1 by (metis add.commute append_eq_conv_conj drop_drop length_replicate)
  have len: "length e = off + j + length v" by (simp add: e_def off_def)
  have vl: "(length e - off + 2 ^ 64 - j) mod 2 ^ 64 = length v"
    using assms len by simp
  have "read_cstr (e @ LF # rest) (off + j) (length v) = Inr v"
    using assms d2 len by (auto simp: read_cstr_def pstrndup_def is_cstr_def)
  then show ?thesis
    unfolding e_def [symmetric] config_value_def Let_def tw
    using tw2 vl len by (simp add: off_def add.assoc v(1))
qed

lemma section_line:
  assumes "set s \<inter> {CHR '']'', LF, NUL} = {}" and "l = CHR ''['' # s @ '']''"
  shows "config_line pad sect key (l @ LF # rest) (length l) False = Inr (prefix s sect)"
    and "config_line pad sect key (l @ LF # rest) (length l) True = Inl (Inr None)"
    and "LF \<notin> set l"
proof -
  have line: "pstrndup (l @ LF # rest) (length l) = l"
    using assms by (intro pstrndup_exact) (auto simp: is_cstr_def)
  have "memchr (CHR '']'') l = Some (length s + 1)"
    using assms memchr_append [of "CHR '']''" "CHR ''['' # s" "[]"] by simp
  moreover have "strneq (tl l) sect (length s) \<longleftrightarrow> prefix s sect"
    using strneq_prefix [of "length s" "tl l" sect] assms(2) by simp
  moreover have "l ! 0 = CHR ''[''" "l \<noteq> []" "hd l = CHR ''[''" using assms(2) by simp_all
  ultimately show "config_line pad sect key (l @ LF # rest) (length l) False = Inr (prefix s sect)"
    and "config_line pad sect key (l @ LF # rest) (length l) True = Inl (Inr None)"
    using line by (simp_all add: config_line_def Let_def nth_append)
  show "LF \<notin> set l" using assms by auto
qed

lemma entry_config_line:
  assumes "entry_ok (k, i, j, v)" and "l = show_entry (k, i, j, v)"
  shows "config_line pad sect key (l @ LF # rest) (length l) False = Inr False"
    and "config_line pad sect key (l @ LF # rest) (length l) True =
      (if prefix k key then Inl (Inr (Some v)) else Inr True)"
proof -
  note e = entry_line [OF assms]
  have line: "pstrndup (l @ LF # rest) (length l) = l" by (rule pstrndup_exact [OF e(3)])
  have hd: "hd l \<noteq> CHR ''[''" "hd l \<noteq> CHR ''#''" using assms(1) e(4) by auto
  have "(l @ LF # rest) ! 0 = hd l" using e(1) by (simp add: hd_conv_nth nth_append)
  with e line hd
  show "config_line pad sect key (l @ LF # rest) (length l) False = Inr False"
    and "config_line pad sect key (l @ LF # rest) (length l) True =
      (if prefix k key then Inl (Inr (Some v)) else Inr True)"
    using entry_value [OF assms(1), of "rest @ pad"] assms(2)
    by (simp_all add: config_line_def Let_def)
qed

lemma entries_loop:
  assumes "\<forall>e\<in>set es. entry_ok e"
  shows "config_get_loop pad sect key (unlines (map show_entry es) @ rest) False = config_get_loop pad sect key rest False"
    and "config_get_loop pad sect key (unlines (map show_entry es) @ rest) True =
      (case find (\<lambda>(k, _). prefix k key) es of
         Some (_, _, _, v) \<Rightarrow> Inr (Some v)
       | None \<Rightarrow> config_get_loop pad sect key rest True)"
proof -
  have line: "LF \<notin> set (show_entry e)" if "entry_ok e" for e
    using that entry_line(2) by (cases e) blast
  show "config_get_loop pad sect key (unlines (map show_entry es) @ rest) False = config_get_loop pad sect key rest False"
  proof (rule cloop.loop_skip)
    fix l r assume "l \<in> set (map show_entry es)"
    then obtain e where e: "e \<in> set es" "l = show_entry e" by auto
    obtain k i j v where "e = (k, i, j, v)" by (cases e)
    with e assms show "config_line pad sect key (l @ LF # r) (length l) False = Inr False"
      using entry_config_line(1) [of k i j v] by blast
  next
    show "\<forall>l\<in>set (map show_entry es). LF \<notin> set l" using line assms by auto
  qed
  show "config_get_loop pad sect key (unlines (map show_entry es) @ rest) True =
      (case find (\<lambda>(k, _). prefix k key) es of
         Some (_, _, _, v) \<Rightarrow> Inr (Some v)
       | None \<Rightarrow> config_get_loop pad sect key rest True)"
    using assms
  proof (induction es)
    case (Cons e es)
    obtain k i j v where e: "e = (k, i, j, v)" by (cases e)
    have ok: "entry_ok (k, i, j, v)" using Cons.prems e by simp
    show ?case
      using cloop.loop_line [OF line [OF ok], of pad sect key "unlines (map show_entry es) @ rest" True]
        entry_config_line(2) [OF ok refl, of pad sect key "unlines (map show_entry es) @ rest"] Cons
      by (auto simp: e)
  qed simp
qed

lemma config_loop_after:
  assumes "config_ok cfg"
  shows "config_get_loop pad sect key (show_config cfg) True = Inr None"
proof (cases cfg)
  case Nil
  then show ?thesis by (simp add: show_config_def cloop.loop_end)
next
  case (Cons sec cfg')
  obtain s es where sec: "sec = (s, es)" by (cases sec)
  have "set s \<inter> {CHR '']'', LF, NUL} = {}" using assms by (auto simp: Cons sec config_ok_def)
  note l = section_line [OF this refl]
  show ?thesis
    using cloop.loop_stop [OF l(3) l(2)]
    by (simp add: Cons sec show_config_def show_section_def unlines_append)
qed

lemma config_loop_lookup:
  assumes "config_ok cfg"
  shows "config_get_loop pad sect key (show_config cfg) False = Inr (prefix_lookup cfg sect key)"
  using assms
proof (induction cfg)
  case Nil
  then show ?case by (simp add: show_config_def cloop.loop_end prefix_lookup_def)
next
  case (Cons sec cfg)
  obtain s es where sec: "sec = (s, es)" by (cases sec)
  have ok: "set s \<inter> {CHR '']'', LF, NUL} = {}" "\<forall>e\<in>set es. entry_ok e" "config_ok cfg"
    using Cons.prems by (auto simp: sec config_ok_def)
  let ?l = "CHR ''['' # s @ '']''" and ?r = "unlines (map show_entry es) @ show_config cfg"
  note l = section_line [OF ok(1) refl]
  have lines: "show_config (sec # cfg) = ?l @ LF # ?r"
    by (simp add: sec show_config_def show_section_def unlines_append)
  have "config_get_loop pad sect key (show_config (sec # cfg)) False =
      config_get_loop pad sect key ?r (prefix s sect)"
    unfolding lines using cloop.loop_line [OF l(3)] l(1) by simp
  also have "\<dots> = Inr (prefix_lookup (sec # cfg) sect key)"
  proof (cases "prefix s sect")
    case True
    then show ?thesis
      using entries_loop(2) [OF ok(2)] config_loop_after [OF ok(3)]
      by (auto simp: sec prefix_lookup_def split: option.splits)
  next
    case False
    then show ?thesis
      using entries_loop(1) [OF ok(2)] Cons.IH [OF ok(3)] by (simp add: sec prefix_lookup_def)
  qed
  finally show ?case .
qed

section \<open>Properties of the configuration\<close>

lemma config_get_lookup:
  assumes "config_ok cfg" and "cfg \<noteq> []"
    and "os p = Some \<lparr>fstat_ok = True, file_bytes = show_config cfg, mmap_ok = True\<rparr>"
  shows "config_get (config_parse os fd p) sect key = Inr (prefix_lookup cfg sect key)"
proof -
  have "show_config cfg \<noteq> []"
    using assms(2) by (cases cfg) (auto simp: show_config_def show_section_def)
  then show ?thesis
    using config_get_parsed [of os p "show_config cfg", OF assms(3)] config_loop_lookup [OF assms(1)] by simp
qed

text \<open>
  C14: On a file written as sections of \<open>key = value\<close> lines, with any number of blanks around the
  equals sign, \<open>config_get\<close> returns the value of the first key that is a prefix of the requested
  key in the first section whose name is a prefix of the requested section, and null when
  there is none. It never reads outside the mapping on such a file.
\<close>

theorem config_get_written:
  assumes "config_ok cfg" and "cfg \<noteq> []"
    and "os p = Some \<lparr>fstat_ok = True, file_bytes = show_config cfg, mmap_ok = True\<rparr>"
  shows "config_get (config_parse os fd p) sect key = Inr (prefix_lookup cfg sect key)"
  using assms by (rule config_get_lookup)

definition sample_config :: "(string \<times> entry list) list" where
  "sample_config = [(''server'', [(''port'', 1, 1, ''8080''), (''log-level'', 1, 1, ''0'')]),
     (''app'', [(''root'', 0, 0, ''./example'')])]"

lemma sample_config_ok: "config_ok sample_config"
  by (simp add: sample_config_def config_ok_def isspace_c_def)

theorem config_get_written_witness:
  "config_get (config_parse (\<lambda>_. Some \<lparr>fstat_ok = True, file_bytes = show_config sample_config, mmap_ok = True\<rparr>) 3 ''f'')
     ''app'' ''root'' = Inr (prefix_lookup sample_config ''app'' ''root'')"
  by (rule config_get_written [OF sample_config_ok]) (simp_all add: sample_config_def)

text \<open>
  When no section name and no key of the file is a proper prefix of the requested names,
  \<open>config_get\<close> is the exact lookup. The file \<open>foxtails.conf\<close> and the names \<open>main\<close> asks for are of
  this kind.
\<close>

theorem config_get_exact:
  assumes "config_ok cfg" and "cfg \<noteq> []"
    and "os p = Some \<lparr>fstat_ok = True, file_bytes = show_config cfg, mmap_ok = True\<rparr>"
    and "\<forall>(s, es)\<in>set cfg. (prefix s sect \<longrightarrow> s = sect) \<and> (\<forall>(k, _)\<in>set es. prefix k key \<longrightarrow> k = key)"
  shows "config_get (config_parse os fd p) sect key = Inr (exact_lookup cfg sect key)"
proof -
  have keys: "find (\<lambda>(k, _). prefix k key) es = find (\<lambda>(k, _). k = key) es"
    if "\<forall>(k, _)\<in>set es. prefix k key \<longrightarrow> k = key" for es :: "entry list"
    using that by (induction es) auto
  have sects: "find (\<lambda>(s, _). prefix s sect) cfg = find (\<lambda>(s, _). s = sect) cfg"
    using assms(4) by (induction cfg) auto
  have "prefix_lookup cfg sect key = exact_lookup cfg sect key"
  proof (cases "find (\<lambda>(s, _). s = sect) cfg")
    case (Some sec)
    obtain s es where sec: "sec = (s, es)" by (cases sec)
    have "(s, es) \<in> set cfg" using Some by (metis sec find_Some_iff nth_mem)
    with assms(4) have "\<forall>(k, _)\<in>set es. prefix k key \<longrightarrow> k = key" by blast
    from keys [OF this] Some sects show ?thesis by (simp add: prefix_lookup_def exact_lookup_def sec)
  qed (simp add: prefix_lookup_def exact_lookup_def sects)
  moreover have "show_config cfg \<noteq> []"
    using assms(2) by (cases cfg) (auto simp: show_config_def show_section_def)
  ultimately show ?thesis
    using config_get_parsed [of os p "show_config cfg", OF assms(3)] config_loop_lookup [OF assms(1)] by simp
qed

theorem config_get_exact_witness:
  "config_get (config_parse (\<lambda>_. Some \<lparr>fstat_ok = True, file_bytes = show_config sample_config, mmap_ok = True\<rparr>) 3 ''f'')
     ''server'' ''port'' = Inr (exact_lookup sample_config ''server'' ''port'')"
  by (rule config_get_exact [OF sample_config_ok]) (simp_all add: sample_config_def)

text \<open>
  A key of the file that is a proper prefix of the requested key answers the request: with
  \<open>strncmp\<close> bounded by the length of the key in the file, the line \<open>port = 1\<close> hides a later line
  \<open>port-max = 2\<close>.
\<close>

theorem config_prefix_key_hides:
  assumes "config_ok [(sect, [(k, i, j, v), (key, i', j', v')])]" and "prefix k key"
    and "os p = Some \<lparr>fstat_ok = True, file_bytes = show_config [(sect, [(k, i, j, v), (key, i', j', v')])], mmap_ok = True\<rparr>"
  shows "config_get (config_parse os fd p) sect key = Inr (Some v)"
proof -
  have "show_config [(sect, [(k, i, j, v), (key, i', j', v')])] \<noteq> []"
    by (simp add: show_config_def show_section_def)
  then show ?thesis
    using config_get_parsed [of os p "show_config [(sect, [(k, i, j, v), (key, i', j', v')])]", OF assms(3)]
      config_loop_lookup [OF assms(1)] assms(2)
    by (simp add: prefix_lookup_def)
qed

theorem config_prefix_key_hides_witness:
  "config_get (config_parse (\<lambda>_. Some \<lparr>fstat_ok = True,
       file_bytes = show_config [(''server'', [(''port'', 1, 1, ''1''), (''port-max'', 1, 1, ''2'')])], mmap_ok = True\<rparr>) 3 ''f'')
     ''server'' ''port-max'' = Inr (Some ''1'')"
  by (rule config_prefix_key_hides) (simp_all add: config_ok_def isspace_c_def)

text \<open>
  A key with an empty value does not give the empty string. The loop over white space runs
  past the line feed, the remaining length wraps below zero, and \<open>config_get\<close> returns the whole
  rest of the file (here: any text \<open>r\<close> that starts with a visible byte) as the value.
\<close>

theorem config_empty_value_takes_rest:
  assumes "set s \<inter> {CHR '']'', LF, NUL} = {}" and "entry_ok (k, 0, 0, ''x'')"
    and "r \<noteq> []" and "\<not> isspace_c (hd r)" and "is_cstr r" and "length r < 2 ^ 63"
    and "content = unlines [CHR ''['' # s @ '']'', k @ ''='' ] @ r" and "page_padding (length content) \<noteq> 0"
    and "os p = Some \<lparr>fstat_ok = True, file_bytes = content, mmap_ok = True\<rparr>"
  shows "config_get (config_parse os fd p) s k = Inr (Some r)"
proof -
  define pad where "pad = replicate (page_padding (length content)) NUL"
  define l where "l = k @ ''=''"
  have lf: "LF \<notin> set l" and cl: "is_cstr l" using assms(2) by (auto simp: l_def is_cstr_def)
  obtain c r' where r: "r = c # r'" "\<not> isspace_c c" using assms(3,4) by (cases r) auto
  obtain pad' where pad: "pad = NUL # pad'" using assms(8) by (cases "page_padding (length content)") (auto simp: pad_def)
  have sp: "isspace_c LF" "\<not> isspace_c (CHR ''='')" by (simp_all add: isspace_c_def)
  have "takeWhile (\<lambda>c. c \<noteq> SP \<and> c \<noteq> CHR ''='') l = k"
    using assms(2) by (auto simp: l_def intro!: takeWhile_append_stop)
  then have ke: "key_end_of l = Some (length k)" by (simp add: key_end_of_def l_def)
  have small: "Suc (length r) \<le> 2 ^ 64 - 1" using assms(6) by simp
  then have "NUL \<in> set (take (2 ^ 64 - 1) (r @ pad))" by (simp add: pad take_Cons' Suc_le_eq)
  moreover have "cstr (take (2 ^ 64 - 1) (r @ pad)) = r"
    using small assms(5) cstr_append_NUL [of r] by (simp add: pad take_Cons')
  moreover have "drop (length k + 1 + 1) ((l @ LF # r) @ pad) = r @ pad" by (simp add: l_def)
  ultimately have rd: "read_cstr ((l @ LF # r) @ pad) (length k + 1 + 1) (2 ^ 64 - 1) = Inr r"
    by (simp add: read_cstr_def pstrndup_def)
  have tw1: "takeWhile (\<lambda>c. isspace_c c \<or> c = SP) (drop (length k) l) = []" using sp by (simp add: l_def)
  have tw2: "takeWhile isspace_c (drop (length k + 1) ((l @ LF # r) @ pad)) = [LF]"
    using r sp by (simp add: l_def)
  have "config_value ((l @ LF # r) @ pad) l (length k) = Inr r"
    unfolding config_value_def Let_def tw1 using tw2 rd by (simp add: l_def r(1))
  moreover have "l \<noteq> []" "hd l = hd k" "(l @ LF # r) ! 0 = hd k"
    using assms(2) by (auto simp: l_def hd_conv_nth nth_append)
  moreover have "strneq l k (length k)" by (simp add: strneq_def l_def)
  ultimately have line: "config_line pad s k (l @ LF # r) (length l) True = Inl (Inr (Some r))"
    using assms(2) ke pstrndup_exact [OF cl, of "LF # r"] by (simp add: config_line_def Let_def)
  note sec = section_line(1) [OF assms(1) refl, of pad s k "l @ LF # r"] and sec_lf = section_line(3) [OF assms(1) refl]
  have "config_get_loop pad s k content False = Inr (Some r)"
    using cloop.loop_line [OF sec_lf, of pad s k "l @ LF # r" False] sec cloop.loop_stop [OF lf line]
    by (simp add: assms(7) l_def)
  moreover have "content \<noteq> []" by (simp add: assms(7))
  ultimately show ?thesis using config_get_parsed [of os p content, OF assms(9)] by (simp add: pad_def)
qed

theorem config_empty_value_takes_rest_witness:
  "config_get (config_parse (\<lambda>_. Some \<lparr>fstat_ok = True,
       file_bytes = unlines [''[app]'', ''root=''] @ (''[backends]'' @ [LF]), mmap_ok = True\<rparr>) 3 ''f'')
     ''app'' ''root'' = Inr (Some (''[backends]'' @ [LF]))"
  by (rule config_empty_value_takes_rest [OF _ _ _ _ _ _ refl, where s = "''app''" and k = "''root''", simplified])
    (simp_all add: isspace_c_def page_padding_def PAGE_SIZE_def)

text \<open>
  A number written in decimal is read back by \<open>config_get_int\<close> when it fits an \<open>int\<close>; a missing
  key gives 0, which \<open>main\<close> takes as the request for the default.
\<close>

theorem config_get_int_value:
  "config_get conf sect key = Inr (Some (show_nat n)) \<and> n < 2 ^ 31 \<and> r = int n \<or>
   config_get conf sect key = Inr None \<and> r = 0 \<Longrightarrow>
   config_get_int conf sect key = Inr r"
  by (auto simp: config_get_int_def strtol_show_nat to_int32_id)

theorem config_get_int_value_witness:
  "config_get_int config_zero ''server'' ''port'' = Inr 0"
  by (rule config_get_int_value) (simp add: config_get_def config_zero_def cloop.loop_end)

text \<open>
  \<open>numdigits\<close> of a nonnegative number is the number of its decimal digits.
\<close>

theorem numdigits_length: "numdigits (int n) = int (length (show_nat n))"
proof -
  have "numdigits_loop c (int n) = c + int (length (show_nat n))" for c
  proof (induction n arbitrary: c rule: show_nat.induct)
    case (1 n)
    show ?case
    proof (cases "n < 10")
      case True
      then show ?thesis
        by (simp add: numdigits_loop.simps [of c "int n"] c_div10_def show_nat.simps [of n] Let_def)
    next
      case False
      then have "c_div10 (int n) = int (n div 10)" and "n div 10 \<noteq> 0"
        by (simp_all add: c_div10_def zdiv_int)
      with 1 [OF False] show ?thesis
        by (simp add: numdigits_loop.simps [of c "int n"] show_nat.simps [of n] False Let_def)
    qed
  qed
  then show ?thesis by (simp add: numdigits_def)
qed

end
