(* ===== verification/Handler.thy ===== *)
theory Handler
  imports Server Sockets Http_Recv Routing Config
begin

text \<open>
  \<open>foxtails/src/worker_loop.c\<close>: how a worker answers a client. Files below the configured root are
  served, routes redirect, alias or forward to a backend, and the connection is kept or closed.
\<close>

unbundle bit_operations_syntax

section \<open>Files\<close>

text \<open>\<open>strrchr\<close>: the offset of the last occurrence.\<close>

definition strrchr :: "char \<Rightarrow> string \<Rightarrow> nat option" where
  "strrchr c s = (if c \<in> set s then Some (length s - 1 - length (takeWhile (\<lambda>x. x \<noteq> c) (rev s))) else None)"

definition get_mime_type :: "string \<Rightarrow> int" where
  "get_mime_type path =
     (case strrchr CHR ''.'' path of
        None \<Rightarrow> 0
      | Some dot \<Rightarrow> if dot = 0 then 0 else mime_type_from_ext (drop (dot + 1) path))"

text \<open>\<open>realpath\<close> is an argument; \<open>full_real[root_len]\<close> is the NUL when the two have the same length.\<close>

definition verify_url :: "(string \<Rightarrow> string option) \<Rightarrow> string \<Rightarrow> string \<Rightarrow> int" where
  "verify_url realpath approot full_path =
     (case realpath approot of
        None \<Rightarrow> 1
      | Some root_real \<Rightarrow>
          (case realpath full_path of
             None \<Rightarrow> 1
           | Some full_real \<Rightarrow>
               let root_len = length root_real;
                   c = (if root_len < length full_real then full_real ! root_len else NUL)
               in if \<not> strneq full_real root_real root_len then 1
                  else if c \<noteq> CHR ''/'' \<and> c \<noteq> NUL then 1
                  else 0))"

text \<open>
  What the handler asks of its surroundings: the configuration and the routes (globals of
  \<open>main.c\<close>), the file system, the clock, the allocators, the connection to a backend and the
  segments it answers with, and whether the client can be armed again.
\<close>

record handler_env =
  h_config :: config_t
  h_routes :: route_table_t
  h_realpath :: "string \<Rightarrow> string option"
  h_open :: "string \<Rightarrow> os_file option"
  h_now :: int
  h_pool_ok :: bool
  h_malloc_ok :: "nat \<Rightarrow> bool"
  h_moves :: "nat \<Rightarrow> bool"
  h_connect :: connect_env
  h_answer :: "string option \<Rightarrow> string list"
  h_rearm_ok :: bool

definition no_root_message :: string where
  "no_root_message = ''Internal Server Error (app.root key could not be found in config)''"

definition file_response :: "string \<Rightarrow> string option \<Rightarrow> nat \<Rightarrow> http_t" where
  "file_response full_path bdy len =
     (snd (http_set_content_type (NOT_FOUND\<lparr>m_code := 200, m_reason := Some ''OK''\<rparr>) (get_mime_type full_path)))
       \<lparr>m_body := bdy, m_body_len := len\<rparr>"

definition get_path :: "handler_env \<Rightarrow> string \<Rightarrow> http_t res" where
  "get_path env url =
     bind_res (config_get (h_config env) ''app'' ''root'') (\<lambda>approot.
       case approot of
         None \<Rightarrow> Inr (status_message 500 ''Internal Server Error'' [text_plain_header]
                    \<lparr>m_body := Some no_root_message, m_body_len := length no_root_message\<rparr>)
       | Some root \<Rightarrow>
           if \<not> h_pool_ok env then Inl Undefined
           else let full_path = root @ url in
             if verify_url (h_realpath env) root full_path \<noteq> 0 then Inr NOT_FOUND
             else (case h_open env full_path of
                     None \<Rightarrow> Inr NOT_FOUND
                   | Some f \<Rightarrow>
                       if \<not> fstat_ok f then Inr NOT_FOUND
                       else if length (file_bytes f) = 0 then Inr (file_response full_path None 0)
                       else if \<not> mmap_ok f then Inr NOT_FOUND
                       else Inr (file_response full_path (Some (file_bytes f)) (length (file_bytes f)))))"

section \<open>Requests\<close>

definition serve_path :: "handler_env \<Rightarrow> http_t \<Rightarrow> http_t res" where
  "serve_path env req =
     (case m_path req of
        None \<Rightarrow> Inl Undefined
      | Some p \<Rightarrow>
          if m_method req = REQUEST_GET then get_path env p
          else if m_method req = REQUEST_HEAD then
            bind_res (get_path env p) (\<lambda>resp. Inr (resp\<lparr>m_body := None\<rparr>))
          else if m_method req = REQUEST_POST then Inr NOT_ALLOWED
          else if m_method req = REQUEST_PUT then Inr NOT_ALLOWED
          else if m_method req = REQUEST_DELETE then Inr NOT_ALLOWED
          else if m_method req = REQUEST_CONNECT then Inr NOT_ALLOWED
          else if m_method req = REQUEST_OPTIONS then Inr NO_CONTENT
          else if m_method req = REQUEST_TRACE then Inr NOT_ALLOWED
          else if m_method req = REQUEST_PATCH then Inr NOT_ALLOWED
          else Inl Exit_fail)"

definition handle_alias :: "handler_env \<Rightarrow> http_t \<Rightarrow> route_t \<Rightarrow> http_t res" where
  "handle_alias env req route = serve_path env (req\<lparr>m_path := Some (pstrdup (r_dest route))\<rparr>)"

definition handle_reroute :: "route_t \<Rightarrow> http_t" where
  "handle_reroute route = HTTP_MOVED (r_dest route)"

definition close_backend :: "socket_t \<Rightarrow> os_world \<Rightarrow> os_world res" where
  "close_backend sock w = os_free (so_address sock) (os_close (so_fd sock) w)"

definition handle_proxy :: "handler_env \<Rightarrow> http_t \<Rightarrow> route_t \<Rightarrow> os_world \<Rightarrow> (http_t \<times> os_world) res" where
  "handle_proxy env req route w =
     bind_res (socket_create_auto (h_connect env) (r_dest route) w) (\<lambda>(backend, w1).
       if so_address backend = 0 then Inr (NOT_FOUND, w1)
       else bind_res (http_send_request (h_pool_ok env) req) (\<lambda>out.
         let w2 = os_send (so_fd backend) out w1
         in bind_res (http_recv_message (h_malloc_ok env) (h_moves env) (m_method req \<noteq> REQUEST_HEAD) (h_answer env out)) (\<lambda>(buf, _).
           if buf = [] then bind_res (close_backend backend w2) (\<lambda>w3. Inr (BAD_GATEWAY, w3))
           else bind_res (http_response_parse buf) (\<lambda>resp.
             bind_res (close_backend backend w2) (\<lambda>w3.
               Inr (if m_method req = REQUEST_HEAD then resp\<lparr>m_body := None\<rparr> else resp, w3))))))"

text \<open>The test in the loop over the routes; the first route that passes handles the request.\<close>

definition route_matches :: "http_t \<Rightarrow> route_t \<Rightarrow> bool" where
  "route_matches req route \<longleftrightarrow>
     (r_methods route AND m_method req) \<noteq> 0 \<and>
     (m_path req = Some (r_src route) \<or>
      r_type route = ROUTE_TYPE_PROXY \<and>
        (case m_path req of None \<Rightarrow> False | Some p \<Rightarrow> strneq p (r_src route) (length (r_src route))))"

text \<open>\<open>fetch_response\<close>: the table \<open>route_handlers\<close> has entries for the three route types only.\<close>

definition fetch_response :: "handler_env \<Rightarrow> http_t \<Rightarrow> os_world \<Rightarrow> (http_t \<times> os_world) res" where
  "fetch_response env req w =
     (case find (route_matches req) (h_routes env) of
        None \<Rightarrow> bind_res (serve_path env req) (\<lambda>resp. Inr (resp, w))
      | Some route \<Rightarrow>
          if r_type route = ROUTE_TYPE_ALIAS then bind_res (handle_alias env req route) (\<lambda>resp. Inr (resp, w))
          else if r_type route = ROUTE_TYPE_REROUTE then Inr (handle_reroute route, w)
          else if r_type route = ROUTE_TYPE_PROXY then handle_proxy env req route w
          else Inl Undefined)"

section \<open>Clients\<close>

definition slot_update :: "nat \<Rightarrow> (client_t \<Rightarrow> client_t) \<Rightarrow> server_t \<Rightarrow> server_t" where
  "slot_update i f sv = sv\<lparr>sv_clients := (sv_clients sv)[i := f (sv_clients sv ! i)]\<rparr>"

text \<open>\<open>server_remove_client\<close> followed by clearing \<open>in_flight\<close>, as on every path that gives the client up.\<close>

definition drop_client :: "client_t \<Rightarrow> server_t \<Rightarrow> os_world \<Rightarrow> (server_t \<times> os_world) res" where
  "drop_client client sv w =
     bind_res (server_remove_client sv w client) (\<lambda>(sv', w').
       Inr (slot_update (nat (c_idx client)) (\<lambda>c. c\<lparr>c_in_flight := False\<rparr>) sv', w'))"

text \<open>
  \<open>worker_callback\<close> for the copy of the client in the payload; \<open>segs\<close> is what the client has sent. The
  request is answered on the client's descriptor before the connection is kept or given up.
\<close>

definition worker_callback ::
  "handler_env \<Rightarrow> int \<Rightarrow> client_t \<Rightarrow> string list \<Rightarrow> server_t \<Rightarrow> os_world \<Rightarrow> (server_t \<times> os_world) res" where
  "worker_callback env type client segs sv w =
     (if type = WORKER_ACTION_NOOP then Inr (sv, w)
      else if type = WORKER_ACTION_NEW_CLIENT then
        bind_res (http_recv_message (h_malloc_ok env) (h_moves env) True segs) (\<lambda>(buf, _).
          if buf = [] then drop_client client sv w
          else bind_res (http_request_parse buf) (\<lambda>req.
            if m_path req = None then
              bind_res (http_send_response (h_now env) (h_pool_ok env) req) (\<lambda>out.
                drop_client client sv (os_send (c_fd client) out w))
            else bind_res (fetch_response env req w) (\<lambda>(response, w1).
              bind_res (http_send_response (h_now env) (h_pool_ok env) response) (\<lambda>out.
                let w2 = os_send (c_fd client) out w1; i = nat (c_idx client)
                in if http_is_keep_alive req then
                     if \<not> h_rearm_ok env then drop_client client sv w2
                     else Inr (slot_update i (\<lambda>c. c\<lparr>c_last_recv := h_now env, c_in_flight := False\<rparr>) sv,
                               os_epoll_set (c_fd client) (Some i) w2)
                   else drop_client client sv w2))))
      else Inl Exit_fail)"

section \<open>Files below the root\<close>

lemma verify_url_zero:
  assumes "verify_url realpath approot full = 0" and "\<And>p q. realpath p = Some q \<Longrightarrow> NUL \<notin> set q"
  shows "\<exists>rr fr. realpath approot = Some rr \<and> realpath full = Some fr \<and> (fr = rr \<or> prefix (rr @ ''/'') fr)"
proof -
  from assms(1) obtain rr fr where r: "realpath approot = Some rr" "realpath full = Some fr"
    and eq: "take (length rr) fr = rr"
    and c: "length rr < length fr \<Longrightarrow> fr ! length rr = CHR ''/'' \<or> fr ! length rr = NUL"
    by (auto simp: verify_url_def Let_def strneq_def split: option.splits if_splits)
  have "fr = rr \<or> prefix (rr @ ''/'') fr"
  proof (cases "length rr < length fr")
    case True
    then have "fr ! length rr \<noteq> NUL" using assms(2) [OF r(2)] nth_mem by metis
    with c True have "fr ! length rr = CHR ''/''" by blast
    with True have "fr = take (length rr) fr @ CHR ''/'' # drop (Suc (length rr)) fr" by (metis id_take_nth_drop)
    then have "fr = (rr @ ''/'') @ drop (Suc (length rr)) fr" unfolding eq by simp
    then show ?thesis by (metis prefixI)
  next
    case False
    with eq show ?thesis by simp
  qed
  with r show ?thesis by blast
qed

lemma file_response_simps [simp]:
  "m_code (file_response p b n) = 200" "m_reason (file_response p b n) = Some ''OK''" "m_body (file_response p b n) = b"
  "m_body_len (file_response p b n) = n" "m_path (file_response p b n) = None" "m_method (file_response p b n) = 0"
  "m_version (file_response p b n) = 0"
  "m_headers (file_response p b n) = [\<lparr>h_name = ''Content-Type'', h_value = mime_type_str (get_mime_type p)\<rparr>]"
  by (simp_all add: file_response_def http_set_content_type_def http_set_header_def NOT_FOUND_def status_message_def
      http_zero_def text_plain_header_def)

lemma get_path_200:
  assumes "get_path env url = Inr resp" and "m_code resp = 200"
  obtains root f where "config_get (h_config env) ''app'' ''root'' = Inr (Some root)"
    and "verify_url (h_realpath env) root (root @ url) = 0" and "h_open env (root @ url) = Some f" and "fstat_ok f"
    and "resp = file_response (root @ url) (if file_bytes f = [] then None else Some (file_bytes f)) (length (file_bytes f))"
proof -
  have nf: "m_code NOT_FOUND \<noteq> 200" by (simp add: status_defs)
  from assms(1) obtain ar where ar: "config_get (h_config env) ''app'' ''root'' = Inr ar" by (auto simp: get_path_def bind_res_Inr)
  with assms obtain root where root: "ar = Some root" by (cases ar) (auto simp: get_path_def status_message_def)
  show ?thesis
  proof (cases "verify_url (h_realpath env) root (root @ url) = 0")
    case False
    with assms ar root nf show ?thesis by (auto simp: get_path_def split: if_splits)
  next
    case True
    with assms ar root nf obtain f where f: "h_open env (root @ url) = Some f"
      by (cases "h_open env (root @ url)") (auto simp: get_path_def split: if_splits)
    with assms ar root nf True
    have "fstat_ok f" "resp = file_response (root @ url) (if file_bytes f = [] then None else Some (file_bytes f)) (length (file_bytes f))"
      by (auto simp: get_path_def Let_def split: if_splits)
    with that [of root f] ar root True f show ?thesis by simp
  qed
qed

text \<open>The file a path leads to is inside the root and readable.\<close>

lemma get_path_file:
  assumes "config_get (h_config env) ''app'' ''root'' = Inr (Some root)" and "h_pool_ok env"
    and "verify_url (h_realpath env) root (root @ url) = 0" and "h_open env (root @ url) = Some f" and "fstat_ok f"
    and "mmap_ok f"
  shows "get_path env url = Inr (file_response (root @ url) (if file_bytes f = [] then None else Some (file_bytes f)) (length (file_bytes f)))"
  using assms by (simp add: get_path_def Let_def)

lemma verify_url_inside:
  assumes "realpath approot = Some rr" and "realpath full = Some fr" and "fr = rr \<or> prefix (rr @ ''/'') fr"
  shows "verify_url realpath approot full = 0"
  using assms by (auto simp: verify_url_def Let_def strneq_def prefix_def nth_append)

section \<open>Resources of a request\<close>

definition backend_fresh :: "handler_env \<Rightarrow> os_world \<Rightarrow> bool" where
  "backend_fresh env w \<longleftrightarrow> b_socket (h_connect env) \<noteq> 0 \<and> b_socket (h_connect env) \<notin> w_open w \<and> b_mem (h_connect env) \<notin> w_heap w"

definition same_resources :: "os_world \<Rightarrow> os_world \<Rightarrow> bool" where
  "same_resources w w' \<longleftrightarrow> w_open w' = w_open w \<and> w_heap w' = w_heap w \<and> (\<forall>fd\<in>w_open w. w_epoll w' fd = w_epoll w fd)"

lemma handle_proxy_resources:
  assumes "handle_proxy env req route w = Inr (resp, w')" and "backend_fresh env w"
  shows "same_resources w w'"
proof -
  have fresh: "b_socket (h_connect env) \<noteq> 0" "b_socket (h_connect env) \<notin> w_open w" "b_mem (h_connect env) \<notin> w_heap w"
    using assms(2) by (simp_all add: backend_fresh_def)
  from socket_create_auto_frame [OF fresh, of "r_dest route"] obtain sock w1
    where auto: "socket_create_auto (h_connect env) (r_dest route) w = Inr (sock, w1)"
      and no: "so_address sock = 0 \<longrightarrow> w_open w1 = w_open w \<and> w_heap w1 = w_heap w"
      and yes: "so_address sock \<noteq> 0 \<longrightarrow> so_fd sock \<notin> w_open w \<and> so_address sock \<notin> w_heap w \<and>
        w_open w1 = insert (so_fd sock) (w_open w) \<and> w_heap w1 = insert (so_address sock) (w_heap w)"
      and ep: "\<forall>fd\<in>w_open w. w_epoll w1 fd = w_epoll w fd"
    by fastforce
  show ?thesis
  proof (cases "so_address sock = 0")
    case True
    with assms(1) auto no ep show ?thesis by (simp add: handle_proxy_def same_resources_def)
  next
    case False
    from assms(1) auto False obtain out where "close_backend sock (os_send (so_fd sock) out w1) = Inr w'"
      by (auto simp: handle_proxy_def bind_res_Inr Let_def split: if_splits)
    with yes ep False show ?thesis
      by (auto simp: close_backend_def os_free_def os_defs same_resources_def split: if_splits)
  qed
qed

lemma fetch_response_resources:
  assumes "fetch_response env req w = Inr (resp, w')" and "backend_fresh env w"
  shows "same_resources w w'"
  using assms handle_proxy_resources
  by (auto simp: fetch_response_def bind_res_Inr same_resources_def split: option.splits if_splits)

lemma same_resources_inv:
  assumes "server_inv F H sv w" and "same_resources w w'"
  shows "server_inv F H sv w'"
proof -
  have owns: "owns_inv F H sv w" using assms(1) by (simp add: server_inv_def)
  then have "\<forall>j\<in>alive_slots sv. c_fd (sv_clients sv ! j) \<in> w_open w" by (auto simp: owns_inv_def client_fds_def)
  with assms(2) have "owns_inv F H sv w'" by (intro owns_frame [OF owns refl]) (simp_all add: same_resources_def)
  with assms(1) show ?thesis by (simp add: server_inv_def)
qed

section \<open>Giving up and keeping a client\<close>

text \<open>The payload is a copy of the slot: its time stamp and \<open>in_flight\<close> may be older than the slot's.\<close>

definition copy_of_slot :: "client_t \<Rightarrow> server_t \<Rightarrow> nat \<Rightarrow> bool" where
  "copy_of_slot c sv i \<longleftrightarrow> i \<in> alive_slots sv \<and> c_fd c = c_fd (sv_clients sv ! i) \<and>
     c_address c = c_address (sv_clients sv ! i) \<and> c_idx c = c_idx (sv_clients sv ! i)"

lemma drop_client_inv:
  assumes "server_inv F H sv w" and "copy_of_slot c sv i"
  shows "\<exists>sv' w'. drop_client c sv w = Inr (sv', w') \<and> server_inv F H sv' w' \<and> alive_slots sv' = alive_slots sv - {i} \<and>
    \<not> c_in_flight (sv_clients sv' ! i) \<and> w_open w' = w_open w - {c_fd c} \<and> w_sent w' = w_sent w"
proof -
  have i: "i \<in> alive_slots sv" and lt: "i < length (sv_clients sv)" using assms(2) by (auto simp: copy_of_slot_def alive_slots_def)
  have idx: "c_idx c = int i" using assms i by (simp add: server_inv_def slots_inv_def copy_of_slot_def)
  have "server_remove_client sv w c = server_remove_client sv w (sv_clients sv ! i)"
  proof -
    have "c_idx (sv_clients sv ! i) = c_idx c" "c_fd (sv_clients sv ! i) = c_fd c" "c_address (sv_clients sv ! i) = c_address c"
      using assms(2) by (simp_all add: copy_of_slot_def)
    then show ?thesis by (simp only: server_remove_client_def)
  qed
  with remove_alive [OF assms(1) i] obtain sv1 w1 where r: "server_remove_client sv w c = Inr (sv1, w1)"
    "server_inv F H sv1 w1" "alive_slots sv1 = alive_slots sv - {i}" "w_open w1 = w_open w - {c_fd c}"
    using assms(2) by (auto simp: copy_of_slot_def)
  have fr: "length (sv_clients sv1) = length (sv_clients sv)" "w_sent w1 = w_sent w"
    using r(1) by (auto simp: server_remove_client_def bind_res_Inr Let_def os_free_def os_defs split: if_splits)
  define sv' where "sv' = slot_update i (\<lambda>c. c\<lparr>c_in_flight := False\<rparr>) sv1"
  have "server_inv F H sv' w1"
    using touch_inv [OF r(2), where i = i and b = False and t = "c_last_recv (sv_clients sv1 ! i)"] lt fr(1) by (simp add: sv'_def slot_update_def)
  moreover have "alive_slots sv' = alive_slots sv1"
    using lt fr(1) by (auto simp: sv'_def slot_update_def alive_slots_def nth_list_update split: if_splits)
  ultimately show ?thesis
    using r fr lt by (auto simp: drop_client_def idx sv'_def slot_update_def)
qed

lemma keep_client_inv:
  assumes "server_inv F H sv w" and "copy_of_slot c sv i"
  shows "server_inv F H (slot_update i (\<lambda>c. c\<lparr>c_last_recv := t, c_in_flight := False\<rparr>) sv) (os_epoll_set (c_fd c) (Some i) w)"
proof -
  have i: "i < length (sv_clients sv)" using assms(2) by (simp add: copy_of_slot_def alive_slots_def)
  have owns: "owns_inv F H sv w" using assms(1) by (simp add: server_inv_def)
  let ?w = "os_epoll_set (c_fd c) (Some i) w"
  have "owns_inv F H sv ?w"
  proof -
    have inj: "inj_on (\<lambda>i. c_fd (sv_clients sv ! i)) (alive_slots sv)" using owns by (simp add: owns_inv_def)
    have "\<exists>b. w_epoll ?w (c_fd (sv_clients sv ! j)) = Some (Some j, b)" if "j \<in> alive_slots sv" for j
    proof (cases "j = i")
      case False
      then have "c_fd (sv_clients sv ! j) \<noteq> c_fd c" using inj_onD [OF inj] that assms(2) by (auto simp: copy_of_slot_def)
      with owns that show ?thesis by (simp add: owns_inv_def os_defs)
    qed (use assms(2) in \<open>auto simp: copy_of_slot_def os_defs\<close>)
    with owns show ?thesis by (simp add: owns_inv_def os_defs)
  qed
  with assms(1) have "server_inv F H sv ?w" by (simp add: server_inv_def)
  from touch_inv [OF this i, where b = False and t = t] show ?thesis by (simp add: slot_update_def)
qed

lemma os_send_resources: "same_resources w (os_send fd out w)"
  by (simp add: same_resources_def)

lemma same_resources_trans: "same_resources w w' \<Longrightarrow> same_resources w' w'' \<Longrightarrow> same_resources w w''"
  by (simp add: same_resources_def)

text \<open>How a callback that returns has ended: the client was given up, or kept and armed again.\<close>

lemma worker_callback_cases:
  assumes "worker_callback env WORKER_ACTION_NEW_CLIENT c segs sv w = Inr (sv', w')" and "backend_fresh env w"
  obtains (dropped) w1 where "same_resources w w1" and "drop_client c sv w1 = Inr (sv', w')"
    | (kept) w1 where "same_resources w w1"
      and "sv' = slot_update (nat (c_idx c)) (\<lambda>c. c\<lparr>c_last_recv := h_now env, c_in_flight := False\<rparr>) sv"
      and "w' = os_epoll_set (c_fd c) (Some (nat (c_idx c))) w1"
proof -
  have new: "WORKER_ACTION_NEW_CLIENT \<noteq> WORKER_ACTION_NOOP" by (simp add: WORKER_ACTION_NEW_CLIENT_def WORKER_ACTION_NOOP_def)
  with assms(1) obtain buf rest where recv: "http_recv_message (h_malloc_ok env) (h_moves env) True segs = Inr (buf, rest)"
    by (auto simp: worker_callback_def bind_res_Inr)
  show ?thesis
  proof (cases "buf = []")
    case True
    with assms(1) new recv have "drop_client c sv w = Inr (sv', w')" by (simp add: worker_callback_def)
    then show ?thesis by (intro dropped [of w]) (simp_all add: same_resources_def)
  next
    case False
    with assms(1) new recv obtain req where req: "http_request_parse buf = Inr req"
      by (auto simp: worker_callback_def bind_res_Inr)
    show ?thesis
    proof (cases "m_path req = None")
      case True
      with assms(1) new recv False req obtain out where "drop_client c sv (os_send (c_fd c) out w) = Inr (sv', w')"
        by (auto simp: worker_callback_def bind_res_Inr)
      then show ?thesis by (rule dropped [OF os_send_resources])
    next
      case path: False
      with assms(1) new recv False req obtain resp w1 where fetch: "fetch_response env req w = Inr (resp, w1)"
        by (auto simp: worker_callback_def bind_res_Inr)
      note res = fetch_response_resources [OF fetch assms(2)]
      from assms(1) new recv False req path fetch obtain out where
        "drop_client c sv (os_send (c_fd c) out w1) = Inr (sv', w') \<or>
         sv' = slot_update (nat (c_idx c)) (\<lambda>c. c\<lparr>c_last_recv := h_now env, c_in_flight := False\<rparr>) sv \<and>
         w' = os_epoll_set (c_fd c) (Some (nat (c_idx c))) (os_send (c_fd c) out w1)"
        by (auto simp: worker_callback_def bind_res_Inr Let_def split: if_splits)
      with same_resources_trans [OF res os_send_resources, of "c_fd c" out] dropped kept show ?thesis by blast
    qed
  qed
qed

section \<open>Properties of the handler\<close>

text \<open>
  C25: A file that is served lies inside the configured root: whenever \<open>get_path\<close> answers 200, the
  resolved path of the file is the resolved root or starts with it followed by a slash, and
  the body is what the file holds. No \<open>..\<close>, link or common name prefix in the URL gets out. The
  hypothesis is that a resolved path is a C string.
\<close>

theorem served_file_inside_root:
  assumes "get_path env url = Inr resp" and "m_code resp = 200"
    and "\<And>p q. h_realpath env p = Some q \<Longrightarrow> NUL \<notin> set q"
  shows "\<exists>root rr fr f. config_get (h_config env) ''app'' ''root'' = Inr (Some root) \<and>
    h_realpath env root = Some rr \<and> h_realpath env (root @ url) = Some fr \<and> (fr = rr \<or> prefix (rr @ ''/'') fr) \<and>
    h_open env (root @ url) = Some f \<and> m_body resp = (if file_bytes f = [] then None else Some (file_bytes f))"
proof -
  from assms(1,2) obtain root f where rf: "config_get (h_config env) ''app'' ''root'' = Inr (Some root)"
    "verify_url (h_realpath env) root (root @ url) = 0" "h_open env (root @ url) = Some f"
    "resp = file_response (root @ url) (if file_bytes f = [] then None else Some (file_bytes f)) (length (file_bytes f))"
    by (rule get_path_200)
  from verify_url_zero [OF rf(2) assms(3)] rf show ?thesis by auto
qed

text \<open>A configuration with the root \<open>/srv\<close> and a file system that resolves dots by a table.\<close>

definition site_config :: config_t where
  "site_config = config_parse (\<lambda>_. Some \<lparr>fstat_ok = True, file_bytes = show_config [(''app'', [(''root'', 1, 1, ''/srv'')])],
     mmap_ok = True\<rparr>) 3 ''foxtails.conf''"

lemma site_root: "config_get site_config ''app'' ''root'' = Inr (Some ''/srv'')"
  unfolding site_config_def
  by (subst config_get_lookup [where cfg = "[(''app'', [(''root'', 1, 1, ''/srv'')])]"])
     (simp_all add: config_ok_def isspace_c_def prefix_lookup_def)

definition site_env :: handler_env where
  "site_env = \<lparr>h_config = site_config, h_routes = [],
     h_realpath = (\<lambda>p. if p = ''/srv'' then Some ''/srv'' else if p = ''/srv/a.html'' then Some ''/srv/a.html''
        else if p = ''/srv/../etc/passwd'' then Some ''/etc/passwd'' else None),
     h_open = (\<lambda>p. Some \<lparr>fstat_ok = True, file_bytes = ''<p>'', mmap_ok = True\<rparr>), h_now = 100, h_pool_ok = True,
     h_malloc_ok = (\<lambda>_. True), h_moves = (\<lambda>_. False),
     h_connect = \<lparr>b_socket = 9, b_mem = 20, b_connect_ok = (\<lambda>_. True), b_timeout = 5\<rparr>, h_answer = (\<lambda>_. []), h_rearm_ok = True\<rparr>"

lemma site_get: "get_path site_env ''/a.html'' = Inr (file_response ''/srv/a.html'' (Some ''<p>'') 3)"
  by (simp add: get_path_def site_env_def site_root verify_url_def strneq_def)

theorem served_file_inside_root_witness:
  "\<exists>root rr fr f. config_get (h_config site_env) ''app'' ''root'' = Inr (Some root) \<and>
    h_realpath site_env root = Some rr \<and> h_realpath site_env (root @ ''/a.html'') = Some fr \<and> (fr = rr \<or> prefix (rr @ ''/'') fr) \<and>
    h_open site_env (root @ ''/a.html'') = Some f \<and> m_body (file_response ''/srv/a.html'' (Some ''<p>'') 3) = (if file_bytes f = [] then None else Some (file_bytes f))"
  by (rule served_file_inside_root [OF site_get]) (auto simp: site_env_def split: if_splits)

text \<open>
  Every file inside the root can be had: where the path resolves to something inside the root and
  the file can be read, the answer is 200 with exactly its bytes and the media type of its
  extension.
\<close>

theorem file_inside_root_served:
  assumes "config_get (h_config env) ''app'' ''root'' = Inr (Some root)" and "h_realpath env root = Some rr"
    and "h_realpath env (root @ url) = Some fr" and "prefix (rr @ ''/'') fr"
    and "h_open env (root @ url) = Some \<lparr>fstat_ok = True, file_bytes = bytes, mmap_ok = True\<rparr>" and "h_pool_ok env" and "bytes \<noteq> []"
  shows "\<exists>resp. get_path env url = Inr resp \<and> m_code resp = 200 \<and> m_reason resp = Some ''OK'' \<and>
    m_body resp = Some bytes \<and> m_body_len resp = length bytes \<and>
    http_get_header resp ''Content-Type'' = Some (mime_type_str (get_mime_type (root @ url)))"
proof -
  have "verify_url (h_realpath env) root (root @ url) = 0" using assms(2-4) by (intro verify_url_inside) auto
  from get_path_file [OF assms(1,6) this assms(5)] assms(7) show ?thesis by (simp add: http_get_header_def)
qed

theorem file_inside_root_served_witness:
  "\<exists>resp. get_path site_env ''/a.html'' = Inr resp \<and> m_code resp = 200 \<and> m_body resp = Some ''<p>'' \<and>
    http_get_header resp ''Content-Type'' = Some (mime_type_str (get_mime_type ''/srv/a.html''))"
  using file_inside_root_served [of site_env "''/srv''" "''/srv''" "''/a.html''" "''/srv/a.html''" "''<p>''"] site_root
  by (auto simp: site_env_def)

text \<open>
  With the file system root as the configured root nothing below it can be served: the resolved
  root already ends in a slash, so the byte behind it is never the slash that the check wants.
\<close>

theorem slash_root_serves_nothing:
  assumes "config_get (h_config env) ''app'' ''root'' = Inr (Some root)" and "h_realpath env root = Some ''/''"
    and "h_realpath env (root @ url) = Some (CHR ''/'' # c # rest)" and "c \<noteq> CHR ''/''" and "c \<noteq> NUL" and "h_pool_ok env"
  shows "get_path env url = Inr NOT_FOUND"
  using assms by (simp add: get_path_def verify_url_def strneq_def)

theorem slash_root_serves_nothing_witness:
  "get_path (site_env\<lparr>h_realpath := (\<lambda>p. if p = ''/srv'' then Some ''/'' else Some ''/a.html'')\<rparr>) ''/a.html'' = Inr NOT_FOUND"
  by (rule slash_root_serves_nothing [where root = "''/srv''" and c = "CHR ''a''" and rest = "''.html''"])
     (simp_all add: site_env_def site_root)

lemma callback_server_conj:
  assumes "worker_callback env WORKER_ACTION_NEW_CLIENT c segs sv w = Inr (sv', w')" and "server_inv F H sv w"
    and "copy_of_slot c sv i" and "backend_fresh env w"
  shows "server_inv F H sv' w' \<and> \<not> c_in_flight (sv_clients sv' ! i) \<and>
    (alive_slots sv' = alive_slots sv - {i} \<and> c_fd c \<notin> w_open w' \<or>
     alive_slots sv' = alive_slots sv \<and> w_epoll w' (c_fd c) = Some (Some i, True))"
proof -
  have idx: "nat (c_idx c) = i" and lt: "i < length (sv_clients sv)"
    using assms(2,3) by (auto simp: copy_of_slot_def server_inv_def slots_inv_def alive_slots_def)
  from assms(1,4) show ?thesis
  proof (cases rule: worker_callback_cases)
    case (dropped w1)
    from drop_client_inv [OF same_resources_inv [OF assms(2) dropped(1)] assms(3)] dropped(2) show ?thesis by auto
  next
    case (kept w1)
    have "server_inv F H sv' w'"
      unfolding kept(2,3) idx by (rule keep_client_inv [OF same_resources_inv [OF assms(2) kept(1)] assms(3)])
    moreover have "alive_slots sv' = alive_slots sv"
      using lt by (auto simp: kept(2) idx slot_update_def alive_slots_def nth_list_update split: if_splits)
    moreover have "\<not> c_in_flight (sv_clients sv' ! i)" using lt by (simp add: kept(2) idx slot_update_def)
    ultimately show ?thesis by (simp add: kept(3) idx os_defs)
  qed
qed

lemma callback_server:
  assumes "worker_callback env WORKER_ACTION_NEW_CLIENT c segs sv w = Inr (sv', w')" and "server_inv F H sv w"
    and "copy_of_slot c sv i" and "backend_fresh env w"
  shows "server_inv F H sv' w'" and "alive_slots sv' = alive_slots sv - {i} \<or> alive_slots sv' = alive_slots sv"
  using callback_server_conj [OF assms] by auto

text \<open>
  C26: A callback that returns leaves the server consistent: the slot table, the free list and the
  ownership of descriptors and blocks keep their invariant (a backend connection is closed
  again), the slot is no longer in flight, and the client either was given up, its slot free
  and its descriptor closed, or is still alive and armed for the next event.
\<close>

theorem callback_keeps_server:
  assumes "worker_callback env WORKER_ACTION_NEW_CLIENT c segs sv w = Inr (sv', w')" and "server_inv F H sv w"
    and "copy_of_slot c sv i" and "backend_fresh env w"
  shows "server_inv F H sv' w' \<and> \<not> c_in_flight (sv_clients sv' ! i) \<and>
    (alive_slots sv' = alive_slots sv - {i} \<and> c_fd c \<notin> w_open w' \<or>
     alive_slots sv' = alive_slots sv \<and> w_epoll w' (c_fd c) = Some (Some i, True))"
  by (rule callback_server_conj [OF assms])

lemma full_copy: "copy_of_slot (sv_clients full_server ! 0) full_server 0"
  by (simp add: copy_of_slot_def full_alive)

lemma site_fresh: "backend_fresh site_env full_world"
  by (simp add: backend_fresh_def site_env_def full_world_def)

theorem callback_keeps_server_witness:
  "\<exists>sv' w'. worker_callback site_env WORKER_ACTION_NEW_CLIENT (sv_clients full_server ! 0) [] full_server full_world = Inr (sv', w') \<and>
    server_inv {} {} sv' w'"
proof -
  have "worker_callback site_env WORKER_ACTION_NEW_CLIENT (sv_clients full_server ! 0) [] full_server full_world =
      drop_client (sv_clients full_server ! 0) full_server full_world"
    by (simp add: worker_callback_def WORKER_ACTION_NEW_CLIENT_def WORKER_ACTION_NOOP_def http_recv_message_def
        recv_loop.simps [of _ _ _ _ "[]"] site_env_def)
  with drop_client_inv [OF full_inv full_copy] obtain sv' w' where
    r: "worker_callback site_env WORKER_ACTION_NEW_CLIENT (sv_clients full_server ! 0) [] full_server full_world = Inr (sv', w')" by auto
  with callback_keeps_server [OF r full_inv full_copy site_fresh] show ?thesis by blast
qed

text \<open>
  C30: Whatever bytes a client sends that are not a usable request (no line end, a malformed first
  line, an unknown method or version), it is answered with the matching error response and
  given up, and nothing faults.
\<close>

theorem bad_request_answered:
  assumes "http_recv_message (h_malloc_ok env) (h_moves env) True segs = Inr (buf, rest)" and "buf \<noteq> []"
    and "http_request_parse buf = Inr req" and "m_path req = None" and "server_inv F H sv w" and "copy_of_slot c sv i"
    and "0 \<le> h_now env" and "h_now env < 1000000000000" and "h_pool_ok env"
  shows "\<exists>sv' w'. worker_callback env WORKER_ACTION_NEW_CLIENT c segs sv w = Inr (sv', w') \<and>
    m_code req \<in> {400, 408, 501, 505} \<and>
    w_sent w' = w_sent w @ [(c_fd c, response_head (h_now env) req @ body_bytes req)] \<and>
    alive_slots sv' = alive_slots sv - {i} \<and> server_inv F H sv' w'"
proof -
  have err: "req \<in> {REQUEST_TIMEOUT, BAD_REQUEST, NOT_IMPLEMENTED, VERSION_NOT_SUPPORTED}"
    by (rule request_parse_error [OF assms(2-4)])
  then have code: "m_code req \<in> {400, 408, 501, 505}" by (auto simp: status_defs)
  have sent: "http_send_response (h_now env) True req = Inr (Some (response_head (h_now env) req @ body_bytes req))"
    by (rule error_response_sent [OF assms(7,8)]) (use err in blast)
  have w: "server_inv F H sv (os_send (c_fd c) out w)" for out by (rule same_resources_inv [OF assms(5) os_send_resources])
  have "worker_callback env WORKER_ACTION_NEW_CLIENT c segs sv w =
      drop_client c sv (os_send (c_fd c) (Some (response_head (h_now env) req @ body_bytes req)) w)"
    using assms(1-4,9) sent by (simp add: worker_callback_def WORKER_ACTION_NEW_CLIENT_def WORKER_ACTION_NOOP_def)
  with drop_client_inv [OF w assms(6), of "Some (response_head (h_now env) req @ body_bytes req)"] code show ?thesis
    by (auto simp: os_send_def)
qed

theorem bad_request_answered_witness:
  "\<exists>sv' w'. worker_callback site_env WORKER_ACTION_NEW_CLIENT (sv_clients full_server ! 0) [''hello''] full_server full_world = Inr (sv', w') \<and>
    length (w_sent w') = 1 \<and> alive_slots sv' = {}"
proof -
  have "http_recv_message (\<lambda>_. True) (\<lambda>_. False) True [''hello''] = Inr (''hello'', [])" by code_simp
  then have "http_recv_message (h_malloc_ok site_env) (h_moves site_env) True [''hello''] = Inr (''hello'', [])"
    by (simp add: site_env_def)
  moreover have "http_request_parse ''hello'' = Inr REQUEST_TIMEOUT" by code_simp
  ultimately show ?thesis
    using bad_request_answered [of site_env "[''hello'']" "''hello''" "[]" REQUEST_TIMEOUT "{}" "{}" full_server full_world
      "sv_clients full_server ! 0" 0] full_inv full_copy full_alive
    by (auto simp: site_env_def status_defs full_world_def)
qed

end
