(* ===== verification/Client_Bytes.thy ===== *)
theory Client_Bytes
  imports Server
begin

text \<open>
  A client travels to a worker as the bytes of its \<open>client_t\<close>: \<open>dispatch_command\<close> copies them into the
  slot and \<open>worker_callback\<close> casts the slot back. The layout is the one of a 64-bit little-endian
  system (\<open>include/server.h\<close>, 64 bytes); padding is written as zero.
\<close>

section \<open>Little-endian numbers\<close>

definition le_bytes :: "nat \<Rightarrow> int \<Rightarrow> string" where
  "le_bytes n v = map (\<lambda>i. char_of (nat (v div 256 ^ i mod 256))) [0..<n]"

fun le_value :: "string \<Rightarrow> int" where
  "le_value [] = 0"
| "le_value (c # cs) = int (of_char c) + 256 * le_value cs"

text \<open>Two's complement of \<open>n\<close> bytes.\<close>

definition signed :: "nat \<Rightarrow> int \<Rightarrow> int" where
  "signed n v = (if v \<ge> 2 ^ (8 * n - 1) then v - 2 ^ (8 * n) else v)"

lemma le_bytes_length [simp]: "length (le_bytes n v) = n"
  by (simp add: le_bytes_def)

lemma le_bytes_Suc: "le_bytes (Suc n) v = char_of (nat (v mod 256)) # le_bytes n (v div 256)"
proof -
  have "[0..<Suc n] = 0 # map Suc [0..<n]" by (simp add: upt_conv_Cons map_Suc_upt)
  then show ?thesis by (simp add: le_bytes_def comp_def zdiv_zmult2_eq)
qed

lemma le_value_bytes: "le_value (le_bytes n v) = v mod 256 ^ n"
proof (induction n arbitrary: v)
  case (Suc n)
  have "int (of_char (char_of (nat (v mod 256)) :: char)) = v mod 256"
    by (simp add: of_char_of nat_mod_distrib flip: nat_numeral)
  with Suc show ?case by (simp add: le_bytes_Suc zmod_zmult2_eq)
qed (simp add: le_bytes_def)

lemma signed_le_bytes:
  assumes "0 < n" and "- (2 ^ (8 * n - 1)) \<le> v" and "v < 2 ^ (8 * n - 1)"
  shows "signed n (le_value (le_bytes n v)) = v"
proof -
  define h :: int where "h = 2 ^ (8 * n - 1)"
  have p: "(256 :: int) ^ n = 2 * h" "(2 :: int) ^ (8 * n) = 2 * h"
  proof -
    have "(2 :: int) ^ (8 * n) = 2 * 2 ^ (8 * n - 1)" using assms(1) by (metis mult_pos_pos power_minus_mult mult.commute zero_less_numeral)
    then show "(2 :: int) ^ (8 * n) = 2 * h" by (simp add: h_def)
    moreover have "(256 :: int) ^ n = 2 ^ (8 * n)" by (simp add: power_mult)
    ultimately show "(256 :: int) ^ n = 2 * h" by simp
  qed
  have v: "- h \<le> v" "v < h" using assms(2,3) by (simp_all add: h_def)
  then have "v mod (2 * h) = (if v < 0 then v + 2 * h else v)"
    using mod_add_self2 [of v "2 * h"] mod_pos_pos_trivial [of v "2 * h"] mod_pos_pos_trivial [of "v + 2 * h" "2 * h"] by auto
  moreover have "signed n x = (if x \<ge> h then x - 2 * h else x)" for x
    unfolding signed_def p(2) h_def ..
  ultimately show ?thesis using v by (auto simp: le_value_bytes p(1))
qed

section \<open>The layout of \<open>client_t\<close>\<close>

text \<open>\<open>serv\<close> is the address of the server, the same for every client.\<close>

definition bool_byte :: "bool \<Rightarrow> char" where
  "bool_byte b = (if b then CHR 0x01 else NUL)"

definition client_bytes :: "nat \<Rightarrow> client_t \<Rightarrow> string" where
  "client_bytes serv c =
     le_bytes 4 (c_fd c) @ replicate 4 NUL @ le_bytes 8 (int (c_address c)) @ le_bytes 8 (c_last_recv c)
     @ le_bytes 4 (c_idx c) @ replicate 4 NUL @ le_bytes 8 (int serv)
     @ [bool_byte (c_is_alive c), bool_byte (c_in_flight c)]
     @ (c_ip_addr c @ replicate (16 - length (c_ip_addr c)) NUL) @ replicate 6 NUL"

definition field :: "nat \<Rightarrow> nat \<Rightarrow> string \<Rightarrow> string" where
  "field off n bs = take n (drop off bs)"

definition client_of_bytes :: "string \<Rightarrow> client_t" where
  "client_of_bytes bs =
     \<lparr>c_fd = signed 4 (le_value (field 0 4 bs)), c_address = nat (le_value (field 8 8 bs)),
      c_last_recv = signed 8 (le_value (field 16 8 bs)), c_idx = signed 4 (le_value (field 24 4 bs)),
      c_is_alive = (bs ! 40 \<noteq> NUL), c_in_flight = (bs ! 41 \<noteq> NUL), c_ip_addr = cstr (field 42 16 bs)\<rparr>"

text \<open>Values that fit their C types.\<close>

definition client_fits :: "client_t \<Rightarrow> bool" where
  "client_fits c \<longleftrightarrow> - (2 ^ 31) \<le> c_fd c \<and> c_fd c < 2 ^ 31 \<and> c_address c < 2 ^ 64 \<and>
     - (2 ^ 63) \<le> c_last_recv c \<and> c_last_recv c < 2 ^ 63 \<and> - (2 ^ 31) \<le> c_idx c \<and> c_idx c < 2 ^ 31 \<and>
     is_cstr (c_ip_addr c) \<and> length (c_ip_addr c) < 16"

lemma client_bytes_length: "length (c_ip_addr c) \<le> 16 \<Longrightarrow> length (client_bytes serv c) = CLIENT_SIZE"
  by (simp add: client_bytes_def CLIENT_SIZE_def)

lemma field_append1: "length a \<le> off \<Longrightarrow> field off n (a @ b) = field (off - length a) n b"
  by (simp add: field_def)

lemma field_here: "length a = n \<Longrightarrow> field 0 n (a @ b) = a"
  by (simp add: field_def)

lemma client_round_trip:
  assumes "client_fits c"
  shows "client_of_bytes (client_bytes serv c) = c"
proof -
  let ?bs = "client_bytes serv c"
  define ip where "ip = c_ip_addr c @ replicate (16 - length (c_ip_addr c)) NUL"
  have lip: "length ip = 16" using assms by (simp add: ip_def client_fits_def)
  have bs: "?bs = le_bytes 4 (c_fd c) @ replicate 4 NUL @ le_bytes 8 (int (c_address c)) @ le_bytes 8 (c_last_recv c)
     @ le_bytes 4 (c_idx c) @ replicate 4 NUL @ le_bytes 8 (int serv)
     @ [bool_byte (c_is_alive c), bool_byte (c_in_flight c)] @ ip @ replicate 6 NUL"
    by (simp add: client_bytes_def ip_def)
  have f: "field 0 4 ?bs = le_bytes 4 (c_fd c)" "field 8 8 ?bs = le_bytes 8 (int (c_address c))"
    "field 16 8 ?bs = le_bytes 8 (c_last_recv c)" "field 24 4 ?bs = le_bytes 4 (c_idx c)" "field 42 16 ?bs = ip"
    unfolding bs using lip by (simp_all add: field_def)
  have b: "?bs ! 40 = bool_byte (c_is_alive c)" "?bs ! 41 = bool_byte (c_in_flight c)"
    unfolding bs by (simp_all add: nth_append)
  have "cstr ip = c_ip_addr c"
  proof -
    obtain k where "16 - length (c_ip_addr c) = Suc k" using assms by (metis client_fits_def not0_implies_Suc zero_less_diff less_numeral_extra(3))
    then show ?thesis using assms cstr_append_NUL by (simp add: ip_def client_fits_def)
  qed
  moreover have "signed 4 (le_value (le_bytes 4 (c_fd c))) = c_fd c" "signed 4 (le_value (le_bytes 4 (c_idx c))) = c_idx c"
    "signed 8 (le_value (le_bytes 8 (c_last_recv c))) = c_last_recv c"
    using assms by (auto simp: client_fits_def intro!: signed_le_bytes)
  moreover have "nat (le_value (le_bytes 8 (int (c_address c)))) = c_address c"
    using assms by (simp add: le_value_bytes client_fits_def)
  ultimately show ?thesis
    by (simp add: client_of_bytes_def f b bool_byte_def)
qed

section \<open>Property\<close>

text \<open>
  C7: A client reaches the worker unchanged, for every client whose fields fit their C types and a queue that
  could take it: after \<open>dispatch_client\<close> the workers first take, one by one, the payloads that waited before, and the next \<open>queue_take\<close>
  yields the slot whose payload, read as a \<open>client_t\<close>, is the client that was dispatched.
\<close>

theorem dispatched_client_arrives:
  assumes "client_fits c" and "queue_inv q" and "queue_reserve alloc_ok q = Inr (Some q1)"
  shows "\<exists>q'. dispatch_client alloc_ok q (client_bytes serv c) = Inr q' \<and> queue_inv q' \<and>
    (\<forall>n<length (queue_clients q). fst (take_client (((\<lambda>q. snd (take_client q)) ^^ n) q')) = queue_clients q ! n) \<and>
    client_of_bytes (fst (take_client (((\<lambda>q. snd (take_client q)) ^^ length (queue_clients q)) q'))) = c"
proof -
  have len: "length (client_bytes serv c) = CLIENT_SIZE" using assms(1) by (intro client_bytes_length) (simp add: client_fits_def)
  then obtain q' where q': "dispatch_client alloc_ok q (client_bytes serv c) = Inr q'"
    using assms(3) by (auto simp: dispatch_client_def dispatch_command_def CLIENT_SIZE_def WORKER_ACTION_PAYLOAD_SIZE_def)
  have inv: "queue_inv q'" and items: "queue_clients q' = queue_clients q @ [client_bytes serv c]"
    using dispatch_client_reserved [OF assms(2) len assms(3) q'] by auto
  have nth: "n < length (queue_clients q') \<Longrightarrow> fst (take_client (((\<lambda>q. snd (take_client q)) ^^ n) q')) = queue_clients q' ! n" for n
    by (rule ring.deq_nth [OF inv])
  have "fst (take_client (((\<lambda>q. snd (take_client q)) ^^ n) q')) = queue_clients q ! n" if "n < length (queue_clients q)" for n
    using nth [of n] that by (simp add: items nth_append)
  moreover have "client_of_bytes (fst (take_client (((\<lambda>q. snd (take_client q)) ^^ length (queue_clients q)) q'))) = c"
    using nth [of "length (queue_clients q)"] client_round_trip [OF assms(1)] by (simp add: items)
  ultimately show ?thesis using q' inv by blast
qed

theorem dispatched_client_arrives_witness:
  "\<exists>q'. dispatch_client True empty_queue (client_bytes 4096 (sv_clients full_server ! 0)) = Inr q' \<and>
    client_of_bytes (fst (take_client q')) = sv_clients full_server ! 0"
proof -
  have "client_fits (sv_clients full_server ! 0)" by (simp add: client_fits_def full_server_def)
  moreover have "queue_inv empty_queue" by (rule init_queue_inv) (simp add: init_queue_def empty_queue_def)
  moreover have "queue_reserve True empty_queue = Inr (Some empty_queue)"
    by (simp add: queue_reserve_def empty_queue_def word_le_nat_alt)
  moreover have "queue_clients empty_queue = []" by (simp add: queue_clients_def queue_slots_def empty_queue_def)
  ultimately show ?thesis using dispatched_client_arrives [of "sv_clients full_server ! 0" empty_queue True empty_queue 4096] by auto
qed

end
