(* ===== verification/Main_Loop.thy ===== *)
theory Main_Loop
  imports Handler Client_Bytes
begin

text \<open>
  \<open>foxtails/src/main.c\<close>: the settings with their defaults, and one round of the main loop: the sweep
  over idle clients, then the events that \<open>epoll_wait\<close> has reported, which dispatch clients to
  the workers and accept new ones.
\<close>

section \<open>Settings\<close>

record settings =
  set_log_level :: int
  set_num_workers :: int
  set_max_connections :: int
  set_keep_alive_timeout :: int
  set_backend_timeout :: int
  set_unix_path :: "string option"
  set_port :: int

definition or_default :: "int \<Rightarrow> int \<Rightarrow> int" where
  "or_default v d = (if v = 0 then d else v)"

text \<open>\<open>set_port\<close> is what \<open>server_init_http\<close> is called with when there is no \<open>path\<close>.\<close>

definition read_settings :: "config_t \<Rightarrow> settings res" where
  "read_settings config =
     bind_res (config_get_int config ''server'' ''log-level'') (\<lambda>log_level.
     bind_res (config_get_int config ''server'' ''num-workers'') (\<lambda>num_workers.
     bind_res (config_get_int config ''server'' ''max-connections'') (\<lambda>max_connections.
     bind_res (config_get_int config ''server'' ''keep-alive-timeout'') (\<lambda>keep_alive_timeout.
     bind_res (config_get_int config ''backends'' ''timeout'') (\<lambda>backend_timeout.
     bind_res (config_get config ''server'' ''path'') (\<lambda>unix_path.
     bind_res (config_get_int config ''server'' ''port'') (\<lambda>port.
       Inr \<lparr>set_log_level = log_level, set_num_workers = or_default num_workers 8,
            set_max_connections = or_default max_connections 512,
            set_keep_alive_timeout = or_default keep_alive_timeout 75,
            set_backend_timeout = or_default backend_timeout 5,
            set_unix_path = unix_path, set_port = or_default port 8080\<rparr>)))))))"

section \<open>The sweep\<close>

text \<open>One slot; \<open>now\<close> is what \<open>time\<close> returns there. The state carries \<open>oldest_timestamp\<close>.\<close>

definition sweep_slot :: "int \<Rightarrow> int \<Rightarrow> nat \<Rightarrow> int \<times> server_t \<times> os_world \<Rightarrow> (int \<times> server_t \<times> os_world) res" where
  "sweep_slot timeout now i st =
     (let (oldest, sv, w) = st
      in if i \<ge> length (sv_clients sv) then Inl Undefined
         else let snapshot = sv_clients sv ! i
              in if \<not> c_is_alive snapshot \<or> c_in_flight snapshot then Inr (oldest, sv, w)
                 else if now - c_last_recv snapshot \<ge> timeout then
                   bind_res (server_remove_client sv w snapshot) (\<lambda>(sv', w'). Inr (oldest, sv', w'))
                 else Inr (c_last_recv snapshot, sv, w))"

fun sweep_slots :: "int \<Rightarrow> (nat \<Rightarrow> int) \<Rightarrow> nat list \<Rightarrow> int \<times> server_t \<times> os_world \<Rightarrow> (int \<times> server_t \<times> os_world) res" where
  "sweep_slots timeout clock [] st = Inr st"
| "sweep_slots timeout clock (i # is) st =
     bind_res (sweep_slot timeout (clock i) i st) (sweep_slots timeout clock is)"

definition sweep :: "int \<Rightarrow> (nat \<Rightarrow> int) \<Rightarrow> int \<Rightarrow> int \<Rightarrow> server_t \<Rightarrow> os_world \<Rightarrow> (int \<times> server_t \<times> os_world) res" where
  "sweep timeout clock max_connections now sv w =
     sweep_slots timeout clock [0..<nat max_connections] (now, sv, w)"

section \<open>Events\<close>

text \<open>
  A client with data: mark the slot and hand its bytes to the workers. The pointer of the event
  leads to the slot, whatever it holds by now.
\<close>

definition dispatch_slot :: "nat \<Rightarrow> bool \<Rightarrow> nat \<Rightarrow> server_t \<Rightarrow> server_t res" where
  "dispatch_slot serv alloc_ok i sv =
     (if i \<ge> length (sv_clients sv) then Inl Undefined
      else let sv1 = slot_update i (\<lambda>c. c\<lparr>c_in_flight := True\<rparr>) sv
           in bind_res (dispatch_client alloc_ok (s_queue (sv_workers sv1)) (client_bytes serv (sv_clients sv1 ! i))) (\<lambda>q.
                Inr (sv1\<lparr>sv_workers := (sv_workers sv1)\<lparr>s_queue := q\<rparr>\<rparr>)))"

text \<open>
  The loop over \<open>socket_accept\<close>: each element of the list is a waiting connection with the block and
  descriptor it gets; behind the last one \<open>accept\<close> fails, with \<open>EAGAIN\<close> or otherwise (\<open>again\<close>), after
  \<open>calloc\<close> gave it the block \<open>mem\<close>.
\<close>

fun accept_loop :: "int \<Rightarrow> nat \<Rightarrow> bool \<Rightarrow> (nat \<times> int \<times> append_env) list \<Rightarrow> server_t \<times> os_world \<Rightarrow> (server_t \<times> os_world) res" where
  "accept_loop oldest mem again [] (sv, w) =
     bind_res (socket_accept mem (-1) again w) (\<lambda>(_, w'). Inr (sv, w'))"
| "accept_loop oldest mem again ((blk, fd, env) # conns) (sv, w) =
     bind_res (socket_accept blk fd again w) (\<lambda>(client, w1).
       case client of
         None \<Rightarrow> Inr (sv, w1)
       | Some (cfd, address) \<Rightarrow>
           bind_res (server_append_client env sv w1 cfd address oldest) (accept_loop oldest mem again conns))"

text \<open>What a round finds: the waiting connections, the block of the last \<open>accept\<close>, whether the queue can grow.\<close>

record round_env =
  n_serv :: nat
  n_alloc_ok :: bool
  n_conns :: "(nat \<times> int \<times> append_env) list"
  n_mem :: nat
  n_again :: bool

fun handle_events :: "round_env \<Rightarrow> int \<Rightarrow> nat option list \<Rightarrow> server_t \<times> os_world \<Rightarrow> (server_t \<times> os_world) res" where
  "handle_events env oldest [] st = Inr st"
| "handle_events env oldest (Some i # evs) (sv, w) =
     bind_res (dispatch_slot (n_serv env) (n_alloc_ok env) i sv) (\<lambda>sv'. handle_events env oldest evs (sv', w))"
| "handle_events env oldest (None # evs) (sv, w) =
     (if st_head (sv_free_list sv) = 0 then handle_events env oldest evs (sv, w)
      else bind_res (accept_loop oldest (n_mem env) (n_again env) (n_conns env) (sv, w)) (handle_events env oldest evs))"

text \<open>
  One round with the \<open>events\<close> that \<open>epoll_wait\<close> reports (\<open>None\<close>: the call failed and the loop
  continues); a reported client is disarmed by \<open>EPOLLONESHOT\<close>.
\<close>

definition os_epoll_fire :: "int \<Rightarrow> os_world \<Rightarrow> os_world" where
  "os_epoll_fire fd w = w\<lparr>w_epoll := (w_epoll w)(fd := map_option (\<lambda>(d, _). (d, False)) (w_epoll w fd))\<rparr>"

fun fire_events :: "server_t \<Rightarrow> nat option list \<Rightarrow> os_world \<Rightarrow> os_world" where
  "fire_events sv [] w = w"
| "fire_events sv (None # evs) w = fire_events sv evs w"
| "fire_events sv (Some i # evs) w = fire_events sv evs (os_epoll_fire (c_fd (sv_clients sv ! i)) w)"

definition main_round ::
  "settings \<Rightarrow> round_env \<Rightarrow> int \<Rightarrow> (nat \<Rightarrow> int) \<Rightarrow> nat option list option \<Rightarrow> server_t \<Rightarrow> os_world \<Rightarrow> (server_t \<times> os_world) res" where
  "main_round cfg env now clock events sv w =
     (case events of
        None \<Rightarrow> Inr (sv, w)
      | Some evs \<Rightarrow>
          bind_res (sweep (set_keep_alive_timeout cfg) clock (set_max_connections cfg) now sv (fire_events sv evs w)) (\<lambda>(oldest, sv1, w1).
            handle_events env oldest evs (sv1, w1)))"

section \<open>The sweep keeps the server consistent\<close>

definition stamp_ok :: "int \<Rightarrow> bool" where
  "stamp_ok t \<longleftrightarrow> 0 \<le> t \<and> t < 1000000000000"

definition stamps_ok :: "server_t \<Rightarrow> bool" where
  "stamps_ok sv \<longleftrightarrow> (\<forall>i\<in>alive_slots sv. stamp_ok (c_last_recv (sv_clients sv ! i)))"

lemma clock_ok_stamps: "clock_ok now oldest \<longleftrightarrow> stamp_ok now \<and> stamp_ok oldest"
  by (auto simp: clock_ok_def stamp_ok_def)

definition expired :: "int \<Rightarrow> (nat \<Rightarrow> int) \<Rightarrow> server_t \<Rightarrow> nat \<Rightarrow> bool" where
  "expired timeout clock sv i \<longleftrightarrow> i \<in> alive_slots sv \<and> \<not> c_in_flight (sv_clients sv ! i) \<and>
     clock i - c_last_recv (sv_clients sv ! i) \<ge> timeout"

lemma remove_frame:
  assumes "server_remove_client sv w c = Inr (sv', w')"
  shows "sv_clients sv' = (sv_clients sv)[nat (c_idx c) := (sv_clients sv ! nat (c_idx c))\<lparr>c_is_alive := False\<rparr>] \<and>
    sv_workers sv' = sv_workers sv \<and> w_sent w' = w_sent w"
  using assms by (auto simp: server_remove_client_def bind_res_Inr Let_def os_free_def os_defs split: if_splits)

text \<open>What the sweep of the slots \<open>is\<close> leads to, and that it follows from a removal and the rest.\<close>

definition swept :: "int set \<Rightarrow> nat set \<Rightarrow> int \<Rightarrow> (nat \<Rightarrow> int) \<Rightarrow> nat list \<Rightarrow> int \<Rightarrow> server_t \<Rightarrow> os_world \<Rightarrow> (int \<times> server_t \<times> os_world) res \<Rightarrow> bool" where
  "swept F H timeout clock is oldest sv w r \<longleftrightarrow> (\<exists>oldest' sv' w'. r = Inr (oldest', sv', w') \<and> server_inv F H sv' w' \<and>
    alive_slots sv' = alive_slots sv - {i \<in> set is. expired timeout clock sv i} \<and>
    (\<forall>i. sv_clients sv' ! i = (if i \<in> set is \<and> expired timeout clock sv i then (sv_clients sv ! i)\<lparr>c_is_alive := False\<rparr> else sv_clients sv ! i)) \<and>
    (\<forall>i\<in>set is. expired timeout clock sv i \<longrightarrow> c_address (sv_clients sv ! i) \<notin> w_heap w' \<and> c_fd (sv_clients sv ! i) \<notin> w_open w') \<and> sv_workers sv' = sv_workers sv \<and>
    length (sv_clients sv') = length (sv_clients sv) \<and>
    w_open w' \<subseteq> w_open w \<and> w_heap w' \<subseteq> w_heap w \<and> (stamps_ok sv \<and> stamp_ok oldest \<longrightarrow> stamp_ok oldest'))"

lemma swept_remove:
  assumes "swept F H timeout clock is oldest sv1 w1 r" and "i \<notin> set is" and "i < length (sv_clients sv)" and "expired timeout clock sv i"
    and al: "alive_slots sv1 = alive_slots sv - {i}" and w1: "w_open w1 = w_open w - {c_fd (sv_clients sv ! i)}" "w_heap w1 = w_heap w - {c_address (sv_clients sv ! i)}"
    and fr: "sv_clients sv1 = (sv_clients sv)[i := (sv_clients sv ! i)\<lparr>c_is_alive := False\<rparr>]" "sv_workers sv1 = sv_workers sv"
  shows "swept F H timeout clock (i # is) oldest sv w r"
proof -
  have ex: "expired timeout clock sv1 j = expired timeout clock sv j" if "j \<noteq> i" for j
    using that by (auto simp: expired_def al fr(1))
  have cl: "sv_clients sv1 ! j = (if j = i then (sv_clients sv ! i)\<lparr>c_is_alive := False\<rparr> else sv_clients sv ! j)" for j
    using assms(3) by (simp add: fr(1))
  have "{j \<in> set is. expired timeout clock sv1 j} = {j \<in> set is. expired timeout clock sv j}"
    using ex assms(2) by (intro Collect_cong) metis
  moreover have "{j \<in> set (i # is). expired timeout clock sv j} = insert i {j \<in> set is. expired timeout clock sv j}" using assms(4) by auto
  ultimately have sets: "alive_slots sv - {i} - {j \<in> set is. expired timeout clock sv1 j} = alive_slots sv - {j \<in> set (i # is). expired timeout clock sv j}"
    by auto
  from assms(1) obtain oldest' sv' w' where r: "r = Inr (oldest', sv', w')" "server_inv F H sv' w'"
      "alive_slots sv' = alive_slots sv1 - {i \<in> set is. expired timeout clock sv1 i}"
    and cl': "\<And>j. sv_clients sv' ! j = (if j \<in> set is \<and> expired timeout clock sv1 j then (sv_clients sv1 ! j)\<lparr>c_is_alive := False\<rparr> else sv_clients sv1 ! j)"
    and ad: "\<And>j. j \<in> set is \<Longrightarrow> expired timeout clock sv1 j \<Longrightarrow> c_address (sv_clients sv1 ! j) \<notin> w_heap w' \<and> c_fd (sv_clients sv1 ! j) \<notin> w_open w'"
    and fr': "sv_workers sv' = sv_workers sv1" "length (sv_clients sv') = length (sv_clients sv1)" "w_open w' \<subseteq> w_open w1" "w_heap w' \<subseteq> w_heap w1"
      "stamps_ok sv1 \<and> stamp_ok oldest \<longrightarrow> stamp_ok oldest'" unfolding swept_def by blast
  have "alive_slots sv' = alive_slots sv - {j \<in> set (i # is). expired timeout clock sv j}" unfolding r(3) al sets ..
  moreover have "sv_clients sv' ! j = (if j \<in> set (i # is) \<and> expired timeout clock sv j then (sv_clients sv ! j)\<lparr>c_is_alive := False\<rparr> else sv_clients sv ! j)" for j
    using assms(2,4) cl' [of j] cl [of j] ex [of j] by (cases "j = i") simp_all
  moreover have "c_address (sv_clients sv ! j) \<notin> w_heap w' \<and> c_fd (sv_clients sv ! j) \<notin> w_open w'" if j: "j \<in> set (i # is)" "expired timeout clock sv j" for j
    using fr'(3,4) w1 ad [of j] j ex [of j] cl [of j] by (cases "j = i") auto
  moreover have "stamps_ok sv1" if "stamps_ok sv" using that by (auto simp: stamps_ok_def al fr(1))
  ultimately show ?thesis using r(1,2) fr' fr w1 unfolding swept_def by auto
qed

lemma sweep_slots_ok:
  assumes "server_inv F H sv w" and "distinct is" and "\<forall>i\<in>set is. i < length (sv_clients sv)"
  shows "swept F H timeout clock is oldest sv w (sweep_slots timeout clock is (oldest, sv, w))"
  using assms
proof (induction "is" arbitrary: oldest sv w)
  case Nil
  then show ?case by (simp add: swept_def)
next
  case (Cons i "is")
  have lt: "i < length (sv_clients sv)" "i \<notin> set is" "distinct is" using Cons.prems by auto
  show ?case
  proof (cases "expired timeout clock sv i")
    case False
    then have "\<exists>o'. sweep_slot timeout (clock i) i (oldest, sv, w) = Inr (o', sv, w) \<and> (stamps_ok sv \<and> stamp_ok oldest \<longrightarrow> stamp_ok o')"
      using lt(1) by (auto simp: sweep_slot_def expired_def alive_slots_def stamps_ok_def Let_def)
    then obtain o' where slot: "sweep_slot timeout (clock i) i (oldest, sv, w) = Inr (o', sv, w)"
      and st: "stamps_ok sv \<and> stamp_ok oldest \<longrightarrow> stamp_ok o'" by blast
    have "{j \<in> set (i # is). expired timeout clock sv j} = {j \<in> set is. expired timeout clock sv j}" using False by auto
    with Cons.IH [OF Cons.prems(1) lt(3), of o'] Cons.prems(3) slot st False show ?thesis by (auto simp: swept_def)
  next
    case True
    then have i: "i \<in> alive_slots sv" by (simp add: expired_def)
    from remove_alive [OF Cons.prems(1) i] obtain sv1 w1 where r: "server_remove_client sv w (sv_clients sv ! i) = Inr (sv1, w1)"
      "server_inv F H sv1 w1" "alive_slots sv1 = alive_slots sv - {i}" "w_open w1 = w_open w - {c_fd (sv_clients sv ! i)}"
      "w_heap w1 = w_heap w - {c_address (sv_clients sv ! i)}" by blast
    have idx: "c_idx (sv_clients sv ! i) = int i" using Cons.prems(1) i by (simp add: server_inv_def slots_inv_def)
    from remove_frame [OF r(1)] have fr: "sv_clients sv1 = (sv_clients sv)[i := (sv_clients sv ! i)\<lparr>c_is_alive := False\<rparr>]"
      "sv_workers sv1 = sv_workers sv" by (simp_all add: idx)
    have slot: "sweep_slot timeout (clock i) i (oldest, sv, w) = Inr (oldest, sv1, w1)"
      using True lt(1) r(1) by (simp add: sweep_slot_def expired_def alive_slots_def)
    have "\<forall>j\<in>set is. j < length (sv_clients sv1)" using Cons.prems(3) by (simp add: fr(1))
    from swept_remove [OF Cons.IH [OF r(2) lt(3) this] lt(2,1) True r(3,4,5) fr] slot show ?thesis by simp
  qed
qed

text \<open>A removed descriptor is closed, so the registrations of those that stay open are kept.\<close>

lemma remove_epoll:
  assumes "server_remove_client sv w c = Inr (sv', w')"
  shows "w_open w' \<subseteq> w_open w \<and> (\<forall>fd\<in>w_open w'. w_epoll w' fd = w_epoll w fd)"
  using assms by (auto simp: server_remove_client_def bind_res_Inr Let_def os_free_def os_defs split: if_splits)

lemma sweep_slots_epoll:
  "sweep_slots timeout clock is (oldest, sv, w) = Inr (oldest', sv', w') \<Longrightarrow>
    w_open w' \<subseteq> w_open w \<and> (\<forall>fd\<in>w_open w'. w_epoll w' fd = w_epoll w fd)"
proof (induction "is" arbitrary: oldest sv w)
  case (Cons i "is")
  from Cons.prems obtain o1 sv1 w1 where s: "sweep_slot timeout (clock i) i (oldest, sv, w) = Inr (o1, sv1, w1)"
    "sweep_slots timeout clock is (o1, sv1, w1) = Inr (oldest', sv', w')" by (auto simp: bind_res_Inr)
  from s(1) have "w_open w1 \<subseteq> w_open w \<and> (\<forall>fd\<in>w_open w1. w_epoll w1 fd = w_epoll w fd)"
    using remove_epoll by (fastforce simp: sweep_slot_def bind_res_Inr Let_def split: if_splits)
  with Cons.IH [OF s(2)] show ?case by auto
qed simp

lemma sweep_ok:
  assumes "server_inv F H sv w" and "nat max_connections = length (sv_clients sv)"
  shows "\<exists>oldest' sv' w'. sweep timeout clock max_connections now sv w = Inr (oldest', sv', w') \<and> server_inv F H sv' w' \<and>
    alive_slots sv' = {i \<in> alive_slots sv. \<not> expired timeout clock sv i} \<and>
    (\<forall>i. sv_clients sv' ! i = (if expired timeout clock sv i then (sv_clients sv ! i)\<lparr>c_is_alive := False\<rparr> else sv_clients sv ! i)) \<and>
    (\<forall>i. expired timeout clock sv i \<longrightarrow> c_address (sv_clients sv ! i) \<notin> w_heap w' \<and> c_fd (sv_clients sv ! i) \<notin> w_open w') \<and> sv_workers sv' = sv_workers sv \<and>
    length (sv_clients sv') = length (sv_clients sv) \<and> w_open w' \<subseteq> w_open w \<and> w_heap w' \<subseteq> w_heap w \<and>
    (stamps_ok sv \<and> stamp_ok now \<longrightarrow> stamp_ok oldest')"
proof -
  have "i \<in> set [0..<length (sv_clients sv)] \<and> expired timeout clock sv i \<longleftrightarrow> expired timeout clock sv i" for i
    by (auto simp: expired_def alive_slots_def)
  moreover have "alive_slots sv - {i. expired timeout clock sv i} = {i \<in> alive_slots sv. \<not> expired timeout clock sv i}" by auto
  ultimately show ?thesis
    using sweep_slots_ok [OF assms(1), of "[0..<length (sv_clients sv)]" timeout clock now] assms(2)
    unfolding sweep_def swept_def Ball_def imp_conjL [symmetric] by simp
qed

section \<open>Accepting\<close>

text \<open>Connections that the system may hand out: new descriptors and blocks, each once.\<close>

fun conns_fresh :: "(nat \<times> int \<times> append_env) list \<Rightarrow> os_world \<Rightarrow> bool" where
  "conns_fresh [] w = True"
| "conns_fresh ((blk, fd, env) # conns) w \<longleftrightarrow>
     blk \<noteq> 0 \<and> blk \<notin> w_heap w \<and> 0 \<le> fd \<and> fd \<notin> w_open w \<and> stamp_ok (e_now env) \<and>
     blk \<notin> fst ` set conns \<and> fd \<notin> (fst \<circ> snd) ` set conns \<and> conns_fresh conns w"

lemma conns_fresh_mono:
  assumes "conns_fresh conns w" and "w_open w' \<subseteq> insert fd (w_open w)" and "w_heap w' \<subseteq> insert blk (w_heap w)"
    and "blk \<notin> fst ` set conns" and "fd \<notin> (fst \<circ> snd) ` set conns"
  shows "conns_fresh conns w'"
  using assms by (induction conns w rule: conns_fresh.induct) auto

lemma conns_fresh_sub:
  "conns_fresh conns w \<Longrightarrow> w_open w' \<subseteq> w_open w \<Longrightarrow> w_heap w' \<subseteq> w_heap w \<Longrightarrow> conns_fresh conns w'"
  by (induction conns w rule: conns_fresh.induct) auto

lemma conns_fresh_apart:
  "conns_fresh conns w \<Longrightarrow> (fst \<circ> snd) ` set conns \<inter> w_open w = {} \<and> fst ` set conns \<inter> w_heap w = {}"
  by (induction conns w rule: conns_fresh.induct) auto

lemma append_frame:
  assumes "server_append_client env sv w fd address oldest = Inr (sv', w')"
  shows "sv_workers sv' = sv_workers sv" and "length (sv_clients sv') = length (sv_clients sv)"
    and "w_open w' \<subseteq> w_open w" and "w_heap w' \<subseteq> w_heap w"
    and "\<exists>i c. (i = nat (fst (int_stack_pop (sv_free_list sv))) \<and> 0 \<le> fst (int_stack_pop (sv_free_list sv)) \<and> sv_clients sv' = (sv_clients sv)[i := c]) \<or>
      sv_clients sv' = sv_clients sv"
  using assms by (auto simp: server_append_client_def bind_res_Inr Let_def os_free_def os_defs split: prod.splits if_splits)

lemma append_keeps_clients:
  assumes "server_append_client env sv w fd address oldest = Inr (sv', w')" and "slots_inv sv" and "j \<in> alive_slots sv"
  shows "sv_clients sv' ! j = sv_clients sv ! j"
proof (cases "stack_items (sv_free_list sv)")
  case Nil
  have "int_stack_pop (sv_free_list sv) = (-1, sv_free_list sv)"
    using assms(2) Nil by (intro fls.pop_empty) (simp_all add: slots_inv_def)
  with append_frame(5) [OF assms(1)] show ?thesis by auto
next
  case (Cons v vs)
  from assms(2) Cons obtain fl where "int_stack_pop (sv_free_list sv) = (v, fl)" "nat v \<notin> alive_slots sv" by (rule pop_slot)
  with append_frame(5) [OF assms(1)] assms(3) show ?thesis by (auto simp: nth_update_fresh)
qed

text \<open>A slot that was just filled.\<close>

definition new_ok :: "client_t \<Rightarrow> bool" where
  "new_ok c \<longleftrightarrow> \<not> c_in_flight c \<and> client_fits c \<and> stamp_ok (c_last_recv c)"

text \<open>
  \<open>grow E sv w sv' w'\<close>: live clients stay, those in \<open>E\<close> are in flight afterwards, registrations stay, and
  clients that appear are new.
\<close>

definition grow :: "nat set \<Rightarrow> server_t \<Rightarrow> os_world \<Rightarrow> server_t \<Rightarrow> os_world \<Rightarrow> bool" where
  "grow E sv w sv' w' \<longleftrightarrow> alive_slots sv \<subseteq> alive_slots sv' \<and> length (sv_clients sv') = length (sv_clients sv) \<and>
     (\<forall>i\<in>alive_slots sv. sv_clients sv' ! i = (if i \<in> E then (sv_clients sv ! i)\<lparr>c_in_flight := True\<rparr> else sv_clients sv ! i) \<and>
        w_epoll w' (c_fd (sv_clients sv ! i)) = w_epoll w (c_fd (sv_clients sv ! i))) \<and>
     (\<forall>i\<in>alive_slots sv' - alive_slots sv. new_ok (sv_clients sv' ! i))"

lemma grow_refl [simp]: "grow {} sv w sv w"
  by (simp add: grow_def)

lemma grow_trans:
  assumes "grow E1 sv w sv1 w1" and "grow E2 sv1 w1 sv2 w2" and "E2 \<subseteq> alive_slots sv"
  shows "grow (E1 \<union> E2) sv w sv2 w2"
proof -
  have 1: "alive_slots sv \<subseteq> alive_slots sv2" "length (sv_clients sv2) = length (sv_clients sv)" using assms(1,2) by (auto simp: grow_def)
  have "sv_clients sv2 ! i = (if i \<in> E1 \<union> E2 then (sv_clients sv ! i)\<lparr>c_in_flight := True\<rparr> else sv_clients sv ! i) \<and>
      w_epoll w2 (c_fd (sv_clients sv ! i)) = w_epoll w (c_fd (sv_clients sv ! i))" if "i \<in> alive_slots sv" for i
  proof -
    have i: "i \<in> alive_slots sv1" using that assms(1) by (auto simp: grow_def)
    have a: "sv_clients sv1 ! i = (if i \<in> E1 then (sv_clients sv ! i)\<lparr>c_in_flight := True\<rparr> else sv_clients sv ! i)"
      "w_epoll w1 (c_fd (sv_clients sv ! i)) = w_epoll w (c_fd (sv_clients sv ! i))" using assms(1) that by (simp_all add: grow_def)
    have b: "sv_clients sv2 ! i = (if i \<in> E2 then (sv_clients sv1 ! i)\<lparr>c_in_flight := True\<rparr> else sv_clients sv1 ! i)"
      "w_epoll w2 (c_fd (sv_clients sv1 ! i)) = w_epoll w1 (c_fd (sv_clients sv1 ! i))" using assms(2) i by (simp_all add: grow_def)
    have "c_fd (sv_clients sv1 ! i) = c_fd (sv_clients sv ! i)" using a(1) by simp
    with a b show ?thesis by auto
  qed
  moreover have "new_ok (sv_clients sv2 ! i)" if "i \<in> alive_slots sv2" "i \<notin> alive_slots sv" for i
  proof (cases "i \<in> alive_slots sv1")
    case True
    then have "sv_clients sv2 ! i = sv_clients sv1 ! i" using assms(2,3) that(2) by (auto simp: grow_def)
    then show ?thesis using assms(1) True that(2) by (simp add: grow_def)
  next
    case False
    then show ?thesis using assms(2) that(1) by (simp add: grow_def)
  qed
  ultimately show ?thesis using 1 by (simp add: grow_def)
qed

text \<open>Connections whose descriptor, address block and address text fit the fields of a client.\<close>

definition conn_fits :: "nat \<times> int \<times> append_env \<Rightarrow> bool" where
  "conn_fits x = (case x of (blk, fd, env) \<Rightarrow> fd < 2 ^ 31 \<and> blk < 2 ^ 64 \<and>
     (case e_ntop env blk of None \<Rightarrow> True | Some s \<Rightarrow> is_cstr s \<and> length s < 16))"

lemma append_grow:
  assumes "server_append_client env sv (os_accept fd address w) fd address oldest = Inr (sv', w')" and "server_inv F H sv w"
    and "fd \<notin> w_open w" and "conn_fits (address, fd, env)" and "0 \<le> fd" and "stamp_ok (e_now env)" and "length (sv_clients sv) \<le> 2 ^ 31"
  shows "grow {} sv w sv' w'"
proof -
  have slots: "slots_inv sv" and owns: "owns_inv F H sv w" using assms(2) by (simp_all add: server_inv_def)
  have fd: "c_fd (sv_clients sv ! i) \<noteq> fd" if "i \<in> alive_slots sv" for i
    using that assms(3) owns by (auto simp: owns_inv_def client_fds_def)
  obtain v fl where pop: "int_stack_pop (sv_free_list sv) = (v, fl)" by (metis surj_pair)
  show ?thesis
  proof (cases "stack_items (sv_free_list sv)")
    case Nil
    then have "v = -1" using fls.pop_empty [of "sv_free_list sv"] slots pop by (simp add: slots_inv_def)
    with assms(1) pop fd show ?thesis
      by (auto simp: server_append_client_def bind_res_Inr os_free_def os_defs grow_def alive_slots_def split: if_splits)
  next
    case (Cons x xs)
    from slots Cons obtain i where i: "v = int i" "i < length (sv_clients sv)" "i \<notin> alive_slots sv"
      by (rule pop_slot) (use pop in \<open>auto intro: that [of "nat v"]\<close>)
    define c where "c = new_client env fd address v"
    have "client_fits (c\<lparr>c_is_alive := True\<rparr>)"
      using assms(4-7) i by (auto simp: c_def new_client_def client_zero_def client_fits_def conn_fits_def stamp_ok_def split: option.splits)
    then have new: "new_ok (c\<lparr>c_is_alive := True\<rparr>)" using assms(6) by (simp add: new_ok_def c_def new_client_def client_zero_def)
    have dead: "\<not> c_is_alive c" by (simp add: c_def new_client_def client_zero_def)
    from assms(1) pop i consider
        "sv_clients sv' = (sv_clients sv)[i := c]" "w_epoll w' = (w_epoll w)(fd := None)"
      | "sv_clients sv' = (sv_clients sv)[i := c\<lparr>c_is_alive := True\<rparr>]" "w_epoll w' = (w_epoll w)(fd \<mapsto> (Some i, True))"
      by (auto simp: server_append_client_def bind_res_Inr os_free_def os_defs Let_def c_def split: if_splits)
    then show ?thesis
    proof cases
      case 1
      then show ?thesis using fd i dead by (auto simp: grow_def alive_slots_def nth_list_update)
    next
      case 2
      then show ?thesis using fd i new by (auto simp: grow_def alive_slots_def nth_list_update)
    qed
  qed
qed

definition conns_fit :: "(nat \<times> int \<times> append_env) list \<Rightarrow> server_t \<Rightarrow> bool" where
  "conns_fit conns sv \<longleftrightarrow> list_all conn_fits conns \<and> length (sv_clients sv) \<le> 2 ^ 31"

lemma accept_loop_ok:
  assumes "server_inv F H sv w" and "stamp_ok oldest" and "conns_fresh conns w" and "mem \<noteq> 0" and "mem \<notin> w_heap w" and "mem \<notin> fst ` set conns"
  shows "\<exists>sv' w'. accept_loop oldest mem True conns (sv, w) = Inr (sv', w') \<and> server_inv F H sv' w' \<and>
    alive_slots sv \<subseteq> alive_slots sv' \<and> (\<forall>i\<in>alive_slots sv. sv_clients sv' ! i = sv_clients sv ! i) \<and>
    sv_workers sv' = sv_workers sv \<and> length (sv_clients sv') = length (sv_clients sv) \<and> (conns_fit conns sv \<longrightarrow> grow {} sv w sv' w')"
  using assms
proof (induction conns arbitrary: sv w)
  case Nil
  define w' where "w' = w\<lparr>w_heap := w_heap w - {mem}\<rparr>"
  have "accept_loop oldest mem True [] (sv, w) = Inr (sv, w')"
    using Nil.prems(4,5) by (simp add: socket_accept_def os_free_def os_defs w'_def)
  moreover have "w' = w" using Nil.prems(5) by (simp add: w'_def)
  ultimately show ?case using Nil.prems(1) by simp
next
  case (Cons x conns)
  obtain blk fd env where x: "x = (blk, fd, env)" by (cases x)
  have f: "blk \<noteq> 0" "blk \<notin> w_heap w" "0 \<le> fd" "fd \<notin> w_open w" "stamp_ok (e_now env)"
    "blk \<notin> fst ` set conns" "fd \<notin> (fst \<circ> snd) ` set conns" "conns_fresh conns w"
    using Cons.prems(3) by (simp_all add: x)
  have acc: "socket_accept blk fd True w = Inr (Some (fd, blk), os_accept fd blk w)" using f(1,3) by (simp add: socket_accept_def)
  have ck: "clock_ok (e_now env) oldest" using f(5) Cons.prems(2) by (simp add: clock_ok_stamps)
  from append_total [OF Cons.prems(1) f(4,2,1) ck] obtain sv1 w1
    where a: "server_append_client env sv (os_accept fd blk w) fd blk oldest = Inr (sv1, w1)" "server_inv F H sv1 w1" by blast
  note fr = append_frame [OF a(1)]
  have slots: "slots_inv sv" using Cons.prems(1) by (simp add: server_inv_def)
  have keep: "\<forall>j\<in>alive_slots sv. sv_clients sv1 ! j = sv_clients sv ! j" using append_keeps_clients [OF a(1) slots] by blast
  have sub: "alive_slots sv \<subseteq> alive_slots sv1" using keep fr(2) by (auto simp: alive_slots_def)
  have "w_open w1 \<subseteq> insert fd (w_open w)" "w_heap w1 \<subseteq> insert blk (w_heap w)" using fr(3,4) by (auto simp: os_defs)
  moreover from this have "mem \<notin> w_heap w1" using Cons.prems(5,6) by (auto simp: x)
  ultimately have "conns_fresh conns w1" "mem \<notin> w_heap w1" using conns_fresh_mono [OF f(8) _ _ f(6,7)] by auto
  from Cons.IH [OF a(2) Cons.prems(2) this(1) Cons.prems(4) this(2)] Cons.prems(6) obtain sv' w' where
    "accept_loop oldest mem True conns (sv1, w1) = Inr (sv', w')" "server_inv F H sv' w'" "alive_slots sv1 \<subseteq> alive_slots sv'"
    "\<forall>i\<in>alive_slots sv1. sv_clients sv' ! i = sv_clients sv1 ! i" "sv_workers sv' = sv_workers sv1" "length (sv_clients sv') = length (sv_clients sv1)"
    "conns_fit conns sv1 \<longrightarrow> grow {} sv1 w1 sv' w'"
    by auto
  moreover from this have "conns_fit (x # conns) sv \<longrightarrow> grow {} sv w sv' w'"
    using append_grow [OF a(1) Cons.prems(1) f(4) _ f(3,5)] grow_trans [of "{}" sv w sv1 w1 "{}" sv' w'] fr(2)
    by (auto simp: conns_fit_def x)
  ultimately show ?case using acc a(1) keep sub fr(1,2) by (auto simp: x)
qed

section \<open>Dispatching\<close>

lemma workers_frame [simp]:
  "alive_slots (sv\<lparr>sv_workers := x\<rparr>) = alive_slots sv" "server_inv F H (sv\<lparr>sv_workers := x\<rparr>) w \<longleftrightarrow> server_inv F H sv w"
  by (simp_all add: alive_slots_def server_inv_def slots_inv_def owns_inv_def client_fds_def client_blocks_def)

abbreviation pool_queue :: "server_t \<Rightarrow> worker_queue" where "pool_queue sv \<equiv> s_queue (sv_workers sv)"

text \<open>The bytes that an event for slot \<open>i\<close> puts into the queue.\<close>

definition event_bytes :: "nat \<Rightarrow> server_t \<Rightarrow> nat \<Rightarrow> string" where
  "event_bytes serv sv i = client_bytes serv ((sv_clients sv ! i)\<lparr>c_in_flight := True\<rparr>)"

lemma slot_update_in_flight:
  assumes "server_inv F H sv w" and "i < length (sv_clients sv)"
  shows "server_inv F H (slot_update i (\<lambda>c. c\<lparr>c_in_flight := b\<rparr>) sv) w"
    and "alive_slots (slot_update i (\<lambda>c. c\<lparr>c_in_flight := b\<rparr>) sv) = alive_slots sv"
  using touch_inv [OF assms, where b = b and t = "c_last_recv (sv_clients sv ! i)"] assms(2)
  by (auto simp: slot_update_def alive_slots_def nth_list_update split: if_splits)

lemma dispatch_slot_ok:
  assumes "server_inv F H sv w" and "queue_inv (pool_queue sv)" and "i \<in> alive_slots sv"
    and "length (c_ip_addr (sv_clients sv ! i)) \<le> 16" and "length (queue_clients (pool_queue sv)) < 2 ^ 30"
  shows "\<exists>sv'. dispatch_slot serv True i sv = Inr sv' \<and> server_inv F H sv' w \<and> queue_inv (pool_queue sv') \<and>
    alive_slots sv' = alive_slots sv \<and> queue_clients (pool_queue sv') = queue_clients (pool_queue sv) @ [event_bytes serv sv i] \<and>
    sv_clients sv' = (sv_clients sv)[i := (sv_clients sv ! i)\<lparr>c_in_flight := True\<rparr>] \<and> c_in_flight (sv_clients sv' ! i)"
proof -
  have lt: "i < length (sv_clients sv)" using assms(3) by (simp add: alive_slots_def)
  let ?sv = "slot_update i (\<lambda>c. c\<lparr>c_in_flight := True\<rparr>) sv"
  have len: "length (event_bytes serv sv i) = CLIENT_SIZE" using assms(4) by (simp add: event_bytes_def client_bytes_length)
  have "unat (q_count (pool_queue sv)) < 2 ^ 30" using assms(5) by (simp add: queue_clients_def)
  from queue_reserve_ok [OF assms(2) this] obtain q1 where q1: "queue_reserve True (pool_queue sv) = Inr (Some q1)" by blast
  with len obtain q' where q': "dispatch_client True (pool_queue sv) (event_bytes serv sv i) = Inr q'"
    by (auto simp: dispatch_client_def dispatch_command_def CLIENT_SIZE_def WORKER_ACTION_PAYLOAD_SIZE_def)
  note d = dispatch_client_reserved [OF assms(2) len q1 q']
  have "dispatch_slot serv True i sv = Inr (?sv\<lparr>sv_workers := (sv_workers sv)\<lparr>s_queue := q'\<rparr>\<rparr>)"
    using lt q' by (simp add: dispatch_slot_def slot_update_def event_bytes_def)
  with d lt slot_update_in_flight [OF assms(1) lt, of True] show ?thesis by (simp add: slot_update_def)
qed

fun event_slots :: "nat option list \<Rightarrow> nat list" where
  "event_slots [] = []"
| "event_slots (Some i # evs) = i # event_slots evs"
| "event_slots (None # evs) = event_slots evs"

lemma event_bytes_update:
  "i < length (sv_clients sv) \<Longrightarrow> sv_clients sv' = (sv_clients sv)[i := (sv_clients sv ! i)\<lparr>c_in_flight := True\<rparr>] \<Longrightarrow>
   event_bytes serv sv' j = event_bytes serv sv j"
  by (cases "j = i") (simp_all add: event_bytes_def)

text \<open>What the events from \<open>(sv, w)\<close> on lead to, and that it follows from the first one and the rest.\<close>

definition handled :: "int set \<Rightarrow> nat set \<Rightarrow> round_env \<Rightarrow> nat option list \<Rightarrow> server_t \<Rightarrow> os_world \<Rightarrow> (server_t \<times> os_world) res \<Rightarrow> bool" where
  "handled F H env evs sv w r \<longleftrightarrow> (\<exists>sv' w'. r = Inr (sv', w') \<and> server_inv F H sv' w' \<and> queue_inv (pool_queue sv') \<and>
    alive_slots sv \<subseteq> alive_slots sv' \<and> (conns_fit (n_conns env) sv \<longrightarrow> grow (set (event_slots evs)) sv w sv' w') \<and>
    queue_clients (pool_queue sv') = queue_clients (pool_queue sv) @ map (event_bytes (n_serv env) sv) (event_slots evs))"

lemma handled_dispatch:
  assumes "handled F H env evs sv1 w r" and "i < length (sv_clients sv)" and "insert i (set (event_slots evs)) \<subseteq> alive_slots sv"
    and "alive_slots sv1 = alive_slots sv" and "sv_clients sv1 = (sv_clients sv)[i := (sv_clients sv ! i)\<lparr>c_in_flight := True\<rparr>]"
    and "queue_clients (pool_queue sv1) = queue_clients (pool_queue sv) @ [event_bytes (n_serv env) sv i]"
  shows "handled F H env (Some i # evs) sv w r"
proof -
  have "map (event_bytes (n_serv env) sv1) (event_slots evs) = map (event_bytes (n_serv env) sv) (event_slots evs)"
    using event_bytes_update [OF assms(2,5)] by simp
  moreover have "grow {i} sv w sv1 w" using assms(2,4,5) by (auto simp: grow_def nth_list_update)
  then have "grow (set (event_slots evs)) sv1 w sv' w' \<Longrightarrow> grow (insert i (set (event_slots evs))) sv w sv' w'" for sv' w'
    using grow_trans [of "{i}" sv w sv1 w "set (event_slots evs)" sv' w'] assms(3) by auto
  moreover have "conns_fit (n_conns env) sv1 = conns_fit (n_conns env) sv" using assms(5) by (simp add: conns_fit_def)
  ultimately show ?thesis using assms(1,4,6) by (auto simp: handled_def)
qed

lemma handled_accept:
  assumes "handled F H env evs sv1 w1 r" and "set (event_slots evs) \<subseteq> alive_slots sv" and "alive_slots sv \<subseteq> alive_slots sv1"
    and "\<forall>i\<in>alive_slots sv. sv_clients sv1 ! i = sv_clients sv ! i" and "sv_workers sv1 = sv_workers sv"
    and "length (sv_clients sv1) = length (sv_clients sv)" and "conns_fit (n_conns env) sv \<longrightarrow> grow {} sv w sv1 w1"
  shows "handled F H env (None # evs) sv w r"
proof -
  have "map (event_bytes (n_serv env) sv1) (event_slots evs) = map (event_bytes (n_serv env) sv) (event_slots evs)"
    using assms(2,4) by (auto simp: event_bytes_def)
  moreover have "grow {} sv w sv1 w1 \<Longrightarrow> grow (set (event_slots evs)) sv1 w1 sv' w' \<Longrightarrow> grow (set (event_slots evs)) sv w sv' w'" for sv' w'
    using grow_trans [of "{}" sv w sv1 w1 "set (event_slots evs)" sv' w'] assms(2) by auto
  moreover have "conns_fit (n_conns env) sv1 = conns_fit (n_conns env) sv" using assms(6) by (simp add: conns_fit_def)
  ultimately show ?thesis using assms(1,3,5,7) by (auto simp: handled_def)
qed

lemma handle_events_ok:
  assumes "server_inv F H sv w" and "queue_inv (pool_queue sv)" and "set (event_slots evs) \<subseteq> alive_slots sv"
    and "\<forall>i\<in>set (event_slots evs). length (c_ip_addr (sv_clients sv ! i)) \<le> 16"
    and "length (queue_clients (pool_queue sv)) + length evs < 2 ^ 30"
    and "n_alloc_ok env" and "n_again env" and "count_list evs None \<le> 1"
    and "None \<in> set evs \<longrightarrow> stamp_ok oldest \<and> conns_fresh (n_conns env) w \<and> n_mem env \<noteq> 0 \<and> n_mem env \<notin> w_heap w \<and> n_mem env \<notin> fst ` set (n_conns env)"
  shows "handled F H env evs sv w (handle_events env oldest evs (sv, w))"
  using assms
proof (induction evs arbitrary: sv w)
  case Nil
  then show ?case by (simp add: handled_def)
next
  case (Cons e evs)
  show ?case
  proof (cases e)
    case (Some i)
    have i: "i \<in> alive_slots sv" "i < length (sv_clients sv)" "length (c_ip_addr (sv_clients sv ! i)) \<le> 16"
      using Cons.prems(3,4) Some by (auto simp: alive_slots_def)
    have "length (queue_clients (pool_queue sv)) < 2 ^ 30" using Cons.prems(5) by simp
    from dispatch_slot_ok [OF Cons.prems(1,2) i(1,3) this] obtain sv1 where
      d: "dispatch_slot (n_serv env) True i sv = Inr sv1" "server_inv F H sv1 w" "queue_inv (pool_queue sv1)" "alive_slots sv1 = alive_slots sv"
        "queue_clients (pool_queue sv1) = queue_clients (pool_queue sv) @ [event_bytes (n_serv env) sv i]"
        "sv_clients sv1 = (sv_clients sv)[i := (sv_clients sv ! i)\<lparr>c_in_flight := True\<rparr>]" by blast
    have "handled F H env evs sv1 w (handle_events env oldest evs (sv1, w))"
      by (rule Cons.IH [OF d(2,3)]) (use Cons.prems(3-9) Some i(2) d(4-6) in \<open>auto simp: nth_list_update\<close>)
    from handled_dispatch [OF this i(2) _ d(4,6,5)] show ?thesis using d(1) Some Cons.prems(3,6) by simp
  next
    case None
    have none: "None \<notin> set evs" using Cons.prems(8) None by (simp add: count_list_0_iff)
    define st1 where "st1 = (if st_head (sv_free_list sv) = 0 then Inr (sv, w) else accept_loop oldest (n_mem env) True (n_conns env) (sv, w))"
    have "\<exists>sv1 w1. st1 = Inr (sv1, w1) \<and> server_inv F H sv1 w1 \<and> alive_slots sv \<subseteq> alive_slots sv1 \<and>
        (\<forall>i\<in>alive_slots sv. sv_clients sv1 ! i = sv_clients sv ! i) \<and> sv_workers sv1 = sv_workers sv \<and>
        length (sv_clients sv1) = length (sv_clients sv) \<and> (conns_fit (n_conns env) sv \<longrightarrow> grow {} sv w sv1 w1)"
      using accept_loop_ok [OF Cons.prems(1), of oldest "n_conns env" "n_mem env"] Cons.prems(1,9) None by (auto simp: st1_def)
    then obtain sv1 w1 where a: "st1 = Inr (sv1, w1)" "server_inv F H sv1 w1" "alive_slots sv \<subseteq> alive_slots sv1"
      "\<forall>i\<in>alive_slots sv. sv_clients sv1 ! i = sv_clients sv ! i" "sv_workers sv1 = sv_workers sv"
      "length (sv_clients sv1) = length (sv_clients sv)" "conns_fit (n_conns env) sv \<longrightarrow> grow {} sv w sv1 w1" by blast
    have "handled F H env evs sv1 w1 (handle_events env oldest evs (sv1, w1))"
      by (rule Cons.IH [OF a(2)]) (use Cons.prems(2-8) None none a(3-5) in auto)
    from handled_accept [OF this _ a(3-7)] show ?thesis
      using a(1) None Cons.prems(3,7) by (simp add: st1_def split: if_splits)
  qed
qed

text \<open>Where descriptors and blocks come from while events are handled: only from the waiting connections.\<close>

definition only_conns :: "(nat \<times> int \<times> append_env) list \<Rightarrow> server_t \<times> os_world \<Rightarrow> server_t \<times> os_world \<Rightarrow> bool" where
  "only_conns conns s s' \<longleftrightarrow> w_open (snd s') \<subseteq> w_open (snd s) \<union> (fst \<circ> snd) ` set conns \<and>
     w_heap (snd s') \<subseteq> w_heap (snd s) \<union> fst ` set conns \<and> sv_fd (fst s') = sv_fd (fst s) \<and> sv_epoll (fst s') = sv_epoll (fst s)"

lemma append_only_conns:
  "server_append_client env sv (os_accept fd blk w) fd blk oldest = Inr s' \<Longrightarrow> only_conns ((blk, fd, env) # conns) (sv, w) s'"
  by (auto simp: only_conns_def server_append_client_def bind_res_Inr Let_def os_free_def os_defs split: prod.splits if_splits)

lemma accept_loop_only_conns:
  "accept_loop oldest mem again conns s = Inr s' \<Longrightarrow> only_conns conns s s'"
proof (induction oldest mem again conns s rule: accept_loop.induct)
  case (1 oldest mem again sv w)
  then show ?case by (auto simp: only_conns_def socket_accept_def bind_res_Inr os_free_def os_defs split: if_splits)
next
  case (2 oldest mem again blk fd env conns sv w)
  show ?case
  proof (cases "0 \<le> fd")
    case True
    with 2(2) have acc: "socket_accept blk fd again w = Inr (Some (fd, blk), os_accept fd blk w)"
      by (auto simp: socket_accept_def split: if_splits)
    with 2(2) obtain s1 where s1: "server_append_client env sv (os_accept fd blk w) fd blk oldest = Inr s1"
      "accept_loop oldest mem again conns s1 = Inr s'" by (auto simp: bind_res_Inr)
    have "only_conns ((blk, fd, env) # conns) (sv, w) s1" by (rule append_only_conns [OF s1(1)])
    moreover have "only_conns conns s1 s'" by (rule 2(1) [OF refl refl s1(2)])
    ultimately show ?thesis by (auto simp: only_conns_def)
  next
    case False
    with 2(2) show ?thesis by (auto simp: only_conns_def socket_accept_def bind_res_Inr os_free_def os_defs split: if_splits)
  qed
qed

lemma handle_events_only_conns:
  "handle_events env oldest evs s = Inr s' \<Longrightarrow> only_conns (n_conns env) s s'"
proof (induction env oldest evs s rule: handle_events.induct)
  case (1 env oldest st)
  then show ?case by (auto simp: only_conns_def)
next
  case (2 env oldest i evs sv w)
  from 2(2) obtain sv1 where d: "dispatch_slot (n_serv env) (n_alloc_ok env) i sv = Inr sv1"
    "handle_events env oldest evs (sv1, w) = Inr s'" by (auto simp: bind_res_Inr)
  from d(1) have "sv_fd sv1 = sv_fd sv" "sv_epoll sv1 = sv_epoll sv"
    by (auto simp: dispatch_slot_def bind_res_Inr slot_update_def Let_def split: if_splits)
  with 2(1) [OF d(2)] show ?case by (simp add: only_conns_def)
next
  case (3 env oldest evs sv w)
  show ?case
  proof (cases "st_head (sv_free_list sv) = 0")
    case True
    with 3 show ?thesis by simp
  next
    case False
    with 3(3) obtain s1 where s1: "accept_loop oldest (n_mem env) (n_again env) (n_conns env) (sv, w) = Inr s1"
      "handle_events env oldest evs s1 = Inr s'" by (auto simp: bind_res_Inr)
    with 3(2) [OF False s1(2)] accept_loop_only_conns [OF s1(1)] show ?thesis by (auto simp: only_conns_def)
  qed
qed

section \<open>Properties of the main loop\<close>

lemma fire_events_resources:
  "w_open (fire_events sv evs w) = w_open w" "w_heap (fire_events sv evs w) = w_heap w"
  "w_epoll w fd = Some (d, b) \<Longrightarrow> \<exists>b'. w_epoll (fire_events sv evs w) fd = Some (d, b')"
proof -
  show "w_open (fire_events sv evs w) = w_open w" "w_heap (fire_events sv evs w) = w_heap w"
    by (induction sv evs w rule: fire_events.induct) (simp_all add: os_epoll_fire_def)
  show "w_epoll w fd = Some (d, b) \<Longrightarrow> \<exists>b'. w_epoll (fire_events sv evs w) fd = Some (d, b')"
  proof (induction sv evs w arbitrary: b rule: fire_events.induct)
    case (3 sv i evs w)
    then show ?case by (cases "fd = c_fd (sv_clients sv ! i)") (auto simp: os_epoll_fire_def)
  qed auto
qed

lemma fire_events_inv:
  assumes "server_inv F H sv w"
  shows "server_inv F H sv (fire_events sv evs w)"
  using assms fire_events_resources(3) unfolding server_inv_def owns_inv_def fire_events_resources(1,2) by blast

lemma sweep_keeps_epoll:
  assumes "sweep timeout clock max_connections now sv w = Inr (oldest, sv', w')" and "server_inv F H sv' w'" and "i \<in> alive_slots sv'"
  shows "w_epoll w' (c_fd (sv_clients sv' ! i)) = w_epoll w (c_fd (sv_clients sv' ! i))"
proof -
  have "c_fd (sv_clients sv' ! i) \<in> w_open w'" using assms(2,3) by (auto simp: server_inv_def owns_inv_def client_fds_def)
  with sweep_slots_epoll [OF assms(1) [unfolded sweep_def]] show ?thesis by blast
qed

text \<open>Everything a round does; the properties below are parts of it.\<close>

lemma main_round_effect:
  assumes "server_inv F H sv w" and "queue_inv (pool_queue sv)" and "nat (set_max_connections cfg) = length (sv_clients sv)"
    and "\<forall>i\<in>set (event_slots evs). i \<in> alive_slots sv \<and> \<not> expired (set_keep_alive_timeout cfg) clock sv i \<and>
      length (c_ip_addr (sv_clients sv ! i)) \<le> 16"
    and "length (queue_clients (pool_queue sv)) + length evs < 2 ^ 30" and "n_alloc_ok env" and "n_again env"
    and "count_list evs None \<le> 1" and "conns_fresh (n_conns env) w" and "n_mem env \<noteq> 0" and "n_mem env \<notin> w_heap w"
    and "n_mem env \<notin> fst ` set (n_conns env)" and "stamps_ok sv" and "stamp_ok now"
  shows "\<exists>sv' w'. main_round cfg env now clock (Some evs) sv w = Inr (sv', w') \<and> server_inv F H sv' w' \<and> queue_inv (pool_queue sv') \<and>
    {i \<in> alive_slots sv. \<not> expired (set_keep_alive_timeout cfg) clock sv i} \<subseteq> alive_slots sv' \<and>
    queue_clients (pool_queue sv') = queue_clients (pool_queue sv) @ map (event_bytes (n_serv env) sv) (event_slots evs) \<and>
    (conns_fit (n_conns env) sv \<longrightarrow> length (sv_clients sv') = length (sv_clients sv) \<and>
      (\<forall>i\<in>alive_slots sv. \<not> expired (set_keep_alive_timeout cfg) clock sv i \<longrightarrow>
        sv_clients sv' ! i = (if i \<in> set (event_slots evs) then (sv_clients sv ! i)\<lparr>c_in_flight := True\<rparr> else sv_clients sv ! i) \<and>
        w_epoll w' (c_fd (sv_clients sv ! i)) = w_epoll (fire_events sv evs w) (c_fd (sv_clients sv ! i))) \<and>
      (\<forall>i\<in>alive_slots sv'. i \<notin> alive_slots sv \<or> expired (set_keep_alive_timeout cfg) clock sv i \<longrightarrow> new_ok (sv_clients sv' ! i)))"
proof -
  let ?ex = "expired (set_keep_alive_timeout cfg) clock sv"
  define w0 where "w0 = fire_events sv evs w"
  have w0: "server_inv F H sv w0" "w_open w0 = w_open w" "w_heap w0 = w_heap w"
    using fire_events_inv [OF assms(1)] fire_events_resources(1,2) by (simp_all add: w0_def)
  from sweep_ok [OF w0(1) assms(3), of "set_keep_alive_timeout cfg" clock now] obtain oldest sv1 w1 where
    s: "sweep (set_keep_alive_timeout cfg) clock (set_max_connections cfg) now sv w0 = Inr (oldest, sv1, w1)" "server_inv F H sv1 w1"
      "alive_slots sv1 = {i \<in> alive_slots sv. \<not> ?ex i}"
      "\<forall>i. sv_clients sv1 ! i = (if ?ex i then (sv_clients sv ! i)\<lparr>c_is_alive := False\<rparr> else sv_clients sv ! i)"
      "sv_workers sv1 = sv_workers sv" "w_open w1 \<subseteq> w_open w" "w_heap w1 \<subseteq> w_heap w" "stamps_ok sv \<and> stamp_ok now \<longrightarrow> stamp_ok oldest"
      "length (sv_clients sv1) = length (sv_clients sv)" unfolding w0 by blast
  have al: "set (event_slots evs) \<subseteq> alive_slots sv1" using assms(4) s(3) by auto
  have fresh: "conns_fresh (n_conns env) w1"
    using assms(9) s(6,7) by (blast intro: conns_fresh_sub)
  have "handled F H env evs sv1 w1 (handle_events env oldest evs (sv1, w1))"
  proof (rule handle_events_ok [OF s(2) _ al])
    show "\<forall>i\<in>set (event_slots evs). length (c_ip_addr (sv_clients sv1 ! i)) \<le> 16" using assms(4) s(4) by auto
    show "None \<in> set evs \<longrightarrow> stamp_ok oldest \<and> conns_fresh (n_conns env) w1 \<and> n_mem env \<noteq> 0 \<and> n_mem env \<notin> w_heap w1 \<and> n_mem env \<notin> fst ` set (n_conns env)"
      using fresh assms(10-14) s(7,8) by blast
  qed (use assms(2,5-8) s(5) in simp_all)
  then obtain sv' w' where h: "handle_events env oldest evs (sv1, w1) = Inr (sv', w')" "server_inv F H sv' w'" "queue_inv (pool_queue sv')"
    "alive_slots sv1 \<subseteq> alive_slots sv'" "conns_fit (n_conns env) sv1 \<longrightarrow> grow (set (event_slots evs)) sv1 w1 sv' w'"
    "queue_clients (pool_queue sv') = queue_clients (pool_queue sv1) @ map (event_bytes (n_serv env) sv1) (event_slots evs)"
    unfolding handled_def by blast
  have "map (event_bytes (n_serv env) sv1) (event_slots evs) = map (event_bytes (n_serv env) sv) (event_slots evs)"
    using assms(4) s(4) by (auto simp: event_bytes_def)
  with h(6) s(5) have q: "queue_clients (pool_queue sv') = queue_clients (pool_queue sv) @ map (event_bytes (n_serv env) sv) (event_slots evs)" by simp
  have ep: "w_epoll w1 (c_fd (sv_clients sv ! i)) = w_epoll w0 (c_fd (sv_clients sv ! i))" if "i \<in> alive_slots sv1" for i
    using sweep_keeps_epoll [OF s(1,2) that] s(3,4) that by auto
  have "length (sv_clients sv') = length (sv_clients sv) \<and>
      (\<forall>i\<in>alive_slots sv. \<not> ?ex i \<longrightarrow>
        sv_clients sv' ! i = (if i \<in> set (event_slots evs) then (sv_clients sv ! i)\<lparr>c_in_flight := True\<rparr> else sv_clients sv ! i) \<and>
        w_epoll w' (c_fd (sv_clients sv ! i)) = w_epoll w0 (c_fd (sv_clients sv ! i))) \<and>
      (\<forall>i\<in>alive_slots sv'. i \<notin> alive_slots sv \<or> ?ex i \<longrightarrow> new_ok (sv_clients sv' ! i))" if "conns_fit (n_conns env) sv"
  proof -
    have "grow (set (event_slots evs)) sv1 w1 sv' w'" using h(5) that s(9) by (simp add: conns_fit_def)
    with ep s(3,4,9) show ?thesis by (auto simp: grow_def)
  qed
  then show ?thesis using h(1-4) s(1,3) q by (simp add: main_round_def w0_def [symmetric])
qed

text \<open>What a round closes and frees, and whose descriptors are open after it.\<close>

lemma main_round_removes:
  assumes "server_inv F H sv w" and "nat (set_max_connections cfg) = length (sv_clients sv)" and "conns_fresh (n_conns env) w"
    and "main_round cfg env now clock (Some evs) sv w = Inr (sv', w')"
  defines "ex \<equiv> expired (set_keep_alive_timeout cfg) clock sv"
  shows "\<forall>i. ex i \<longrightarrow> c_fd (sv_clients sv ! i) \<notin> w_open w' \<and> c_address (sv_clients sv ! i) \<notin> w_heap w'"
    and "w_open w' \<subseteq> (\<lambda>i. c_fd (sv_clients sv ! i)) ` {i \<in> alive_slots sv. \<not> ex i} \<union> {sv_fd sv', sv_epoll sv'} \<union> F
      \<union> (fst \<circ> snd) ` set (n_conns env)"
proof -
  define w0 where "w0 = fire_events sv evs w"
  have w0: "server_inv F H sv w0" "w_open w0 = w_open w" "w_heap w0 = w_heap w"
    using fire_events_inv [OF assms(1)] fire_events_resources(1,2) by (simp_all add: w0_def)
  from sweep_ok [OF w0(1) assms(2), of "set_keep_alive_timeout cfg" clock now] obtain oldest sv1 w1 where
    s: "sweep (set_keep_alive_timeout cfg) clock (set_max_connections cfg) now sv w0 = Inr (oldest, sv1, w1)" "server_inv F H sv1 w1"
      "alive_slots sv1 = {i \<in> alive_slots sv. \<not> ex i}"
      "\<forall>i. sv_clients sv1 ! i = (if ex i then (sv_clients sv ! i)\<lparr>c_is_alive := False\<rparr> else sv_clients sv ! i)"
      "\<forall>i. ex i \<longrightarrow> c_address (sv_clients sv ! i) \<notin> w_heap w1 \<and> c_fd (sv_clients sv ! i) \<notin> w_open w1" unfolding w0 ex_def by blast
  from assms(4) s(1) have "handle_events env oldest evs (sv1, w1) = Inr (sv', w')" by (simp add: main_round_def w0_def)
  from handle_events_only_conns [OF this] have o: "w_open w' \<subseteq> w_open w1 \<union> (fst \<circ> snd) ` set (n_conns env)"
    "w_heap w' \<subseteq> w_heap w1 \<union> fst ` set (n_conns env)" "sv_fd sv' = sv_fd sv1" "sv_epoll sv' = sv_epoll sv1" by (auto simp: only_conns_def)
  have old: "c_fd (sv_clients sv ! i) \<in> w_open w" "c_address (sv_clients sv ! i) \<in> w_heap w" if "ex i" for i
    using assms(1) that by (auto simp: server_inv_def owns_inv_def client_fds_def client_blocks_def ex_def expired_def)
  have apart: "x \<notin> (fst \<circ> snd) ` set (n_conns env)" "y \<notin> fst ` set (n_conns env)" if "x \<in> w_open w" "y \<in> w_heap w" for x y
    using conns_fresh_apart [OF assms(3)] that by (auto simp: disjoint_iff)
  show "\<forall>i. ex i \<longrightarrow> c_fd (sv_clients sv ! i) \<notin> w_open w' \<and> c_address (sv_clients sv ! i) \<notin> w_heap w'"
    using s(5) subsetD [OF o(1)] subsetD [OF o(2)] apart [OF old] by (metis Un_iff)
  have "w_open w1 = (\<lambda>i. c_fd (sv_clients sv ! i)) ` {i \<in> alive_slots sv. \<not> ex i} \<union> {sv_fd sv', sv_epoll sv'} \<union> F"
    using s(2-4) o(3,4) by (auto simp: server_inv_def owns_inv_def client_fds_def)
  with o(1) show "w_open w' \<subseteq> (\<lambda>i. c_fd (sv_clients sv ! i)) ` {i \<in> alive_slots sv. \<not> ex i} \<union> {sv_fd sv', sv_epoll sv'} \<union> F
      \<union> (fst \<circ> snd) ` set (n_conns env)" by simp
qed

text \<open>
  C5: One round of the main loop does what it should, provided no reported client is idle for the timeout (it
  would be swept in the same round), the queue can grow, and \<open>accept\<close> hands out new descriptors and ends with \<open>EAGAIN\<close>.
  A client that is in flight or not idle for the timeout keeps its slot, marked in flight when it was reported and
  otherwise unchanged. Every other client is removed: its descriptor is closed and its address block freed, and a slot
  that is alive afterwards and is not one of those kept holds one of the connections that were waiting. The reported
  clients are queued for the workers in the order of the events, behind what was queued before, and the
  invariants of slots, ownership and queue hold.
\<close>

theorem main_round_ok:
  assumes "server_inv F H sv w" and "queue_inv (pool_queue sv)" and "nat (set_max_connections cfg) = length (sv_clients sv)"
    and "\<forall>i\<in>set (event_slots evs). i \<in> alive_slots sv \<and> \<not> expired (set_keep_alive_timeout cfg) clock sv i \<and>
      length (c_ip_addr (sv_clients sv ! i)) \<le> 16"
    and "length (queue_clients (pool_queue sv)) + length evs < 2 ^ 30" and "n_alloc_ok env" and "n_again env"
    and "count_list evs None \<le> 1" and "conns_fresh (n_conns env) w" and "n_mem env \<noteq> 0" and "n_mem env \<notin> w_heap w"
    and "n_mem env \<notin> fst ` set (n_conns env)" and "stamps_ok sv" and "stamp_ok now" and "conns_fit (n_conns env) sv"
    and "kept = {i \<in> alive_slots sv. c_in_flight (sv_clients sv ! i) \<or> clock i - c_last_recv (sv_clients sv ! i) < set_keep_alive_timeout cfg}"
  shows "\<exists>sv' w'. main_round cfg env now clock (Some evs) sv w = Inr (sv', w') \<and> server_inv F H sv' w' \<and> queue_inv (pool_queue sv') \<and>
    (\<forall>i\<in>kept. i \<in> alive_slots sv' \<and>
      sv_clients sv' ! i = (if i \<in> set (event_slots evs) then (sv_clients sv ! i)\<lparr>c_in_flight := True\<rparr> else sv_clients sv ! i)) \<and>
    (\<forall>i\<in>alive_slots sv - kept. c_fd (sv_clients sv ! i) \<notin> w_open w' \<and> c_address (sv_clients sv ! i) \<notin> w_heap w') \<and>
    (\<forall>i\<in>alive_slots sv' - kept. c_fd (sv_clients sv' ! i) \<in> (fst \<circ> snd) ` set (n_conns env)) \<and>
    queue_clients (pool_queue sv') = queue_clients (pool_queue sv) @ map (event_bytes (n_serv env) sv) (event_slots evs)"
proof -
  let ?ex = "expired (set_keep_alive_timeout cfg) clock sv"
  have kept: "kept = {i \<in> alive_slots sv. \<not> ?ex i}" by (auto simp: assms(16) expired_def)
  from main_round_effect [OF assms(1-14)] assms(15) obtain sv' w' where
    r: "main_round cfg env now clock (Some evs) sv w = Inr (sv', w')" "server_inv F H sv' w'" "queue_inv (pool_queue sv')" "kept \<subseteq> alive_slots sv'"
      "queue_clients (pool_queue sv') = queue_clients (pool_queue sv) @ map (event_bytes (n_serv env) sv) (event_slots evs)"
    and cl: "\<forall>i\<in>kept. sv_clients sv' ! i = (if i \<in> set (event_slots evs) then (sv_clients sv ! i)\<lparr>c_in_flight := True\<rparr> else sv_clients sv ! i)"
    unfolding kept by blast
  note rm = main_round_removes [OF assms(1,3,9) r(1)]
  have own: "inj_on (\<lambda>i. c_fd (sv_clients sv' ! i)) (alive_slots sv')" "client_fds sv' \<inter> ({sv_fd sv', sv_epoll sv'} \<union> F) = {}"
    "client_fds sv' \<subseteq> w_open w'" using r(2) by (auto simp: server_inv_def owns_inv_def)
  have "c_fd (sv_clients sv' ! i) \<in> (fst \<circ> snd) ` set (n_conns env)" if i: "i \<in> alive_slots sv'" "i \<notin> kept" for i
  proof -
    have fd: "c_fd (sv_clients sv' ! i) \<in> client_fds sv'" using i(1) by (simp add: client_fds_def)
    have "c_fd (sv_clients sv' ! i) \<noteq> c_fd (sv_clients sv ! j)" if j: "j \<in> kept" for j
    proof -
      have "c_fd (sv_clients sv' ! j) = c_fd (sv_clients sv ! j)" using cl j by simp
      moreover have "c_fd (sv_clients sv' ! i) \<noteq> c_fd (sv_clients sv' ! j)" using inj_onD [OF own(1)] i j r(4) by blast
      ultimately show ?thesis by simp
    qed
    with rm(2) own(2,3) fd show ?thesis unfolding kept [symmetric] by blast
  qed
  moreover have "?ex i" if "i \<in> alive_slots sv - kept" for i using that by (simp add: kept)
  ultimately show ?thesis using r cl rm(1) by blast
qed

lemma full_fits: "client_fits ((sv_clients full_server ! 0)\<lparr>c_in_flight := True\<rparr>)"
  by (simp add: client_fits_def full_server_def)

lemma empty_queue_inv: "queue_inv empty_queue" "queue_clients empty_queue = []"
proof -
  show "queue_inv empty_queue" by (rule init_queue_inv) (simp add: init_queue_def empty_queue_def)
  show "queue_clients empty_queue = []" by (simp add: queue_clients_def queue_slots_def empty_queue_def)
qed

lemma full_pool: "pool_queue full_server = empty_queue"
  by (simp add: full_server_def idle_server_def wsys_init_def)

lemma full_slots: "length (sv_clients full_server) = 1" "length (c_ip_addr (sv_clients full_server ! 0)) \<le> 16"
  by (simp_all add: full_server_def)

definition sample_settings :: settings where
  "sample_settings = \<lparr>set_log_level = 0, set_num_workers = 1, set_max_connections = 1, set_keep_alive_timeout = 75,
     set_backend_timeout = 5, set_unix_path = None, set_port = 8080\<rparr>"

definition sample_round :: round_env where
  "sample_round = \<lparr>n_serv = 4096, n_alloc_ok = True, n_conns = [(9, 6, sample_env)], n_mem = 10, n_again = True\<rparr>"

text \<open>The only client is idle for 80 seconds: it is removed and the waiting connection takes its slot.\<close>

theorem main_round_ok_witness:
  "\<exists>sv' w'. main_round sample_settings sample_round 180 (\<lambda>_. 180) (Some [None]) full_server full_world = Inr (sv', w') \<and>
    server_inv {} {} sv' w' \<and> 5 \<notin> w_open w' \<and> 8 \<notin> w_heap w' \<and> (\<forall>i\<in>alive_slots sv'. c_fd (sv_clients sv' ! i) = 6) \<and>
    queue_clients (pool_queue sv') = []"
proof -
  have "conns_fresh (n_conns sample_round) full_world" by (simp add: sample_round_def sample_env_def full_world_def stamp_ok_def)
  moreover have "stamps_ok full_server" unfolding stamps_ok_def full_alive by (simp add: stamp_ok_def full_server_def)
  moreover have "{} = {i \<in> alive_slots full_server. c_in_flight (sv_clients full_server ! i) \<or> 180 - c_last_recv (sv_clients full_server ! i) < 75}"
    unfolding full_alive by (auto simp: full_server_def)
  moreover have "conns_fit (n_conns sample_round) full_server" by (simp add: conns_fit_def conn_fits_def sample_round_def sample_env_def full_slots is_cstr_def)
  moreover have "c_fd (sv_clients full_server ! 0) = 5" "c_address (sv_clients full_server ! 0) = 8" by (simp_all add: full_server_def)
  ultimately show ?thesis
    using main_round_ok [OF full_inv, of sample_settings "[None]" "\<lambda>_. 180" sample_round 180 "{}"] empty_queue_inv full_pool full_alive
    by (auto simp: sample_settings_def sample_round_def full_world_def stamp_ok_def full_slots)
qed

text \<open>
  C36: The sweep removes exactly the clients that are alive, not in flight and idle for at least the
  keep-alive timeout; every other client keeps its slot unchanged, and the sweep never faults.
\<close>

theorem sweep_removes_idle:
  assumes "server_inv F H sv w" and "nat max_connections = length (sv_clients sv)"
  shows "\<exists>oldest sv' w'. sweep timeout clock max_connections now sv w = Inr (oldest, sv', w') \<and> server_inv F H sv' w' \<and>
    alive_slots sv' = {i \<in> alive_slots sv. c_in_flight (sv_clients sv ! i) \<or> clock i - c_last_recv (sv_clients sv ! i) < timeout} \<and>
    (\<forall>i\<in>alive_slots sv'. sv_clients sv' ! i = sv_clients sv ! i)"
proof -
  have "{i \<in> alive_slots sv. \<not> expired timeout clock sv i} =
      {i \<in> alive_slots sv. c_in_flight (sv_clients sv ! i) \<or> clock i - c_last_recv (sv_clients sv ! i) < timeout}"
    by (auto simp: expired_def)
  moreover from sweep_ok [OF assms, of timeout clock now] obtain oldest sv' w' where
    "sweep timeout clock max_connections now sv w = Inr (oldest, sv', w')" "server_inv F H sv' w'"
    "alive_slots sv' = {i \<in> alive_slots sv. \<not> expired timeout clock sv i}"
    "\<forall>i. sv_clients sv' ! i = (if expired timeout clock sv i then (sv_clients sv ! i)\<lparr>c_is_alive := False\<rparr> else sv_clients sv ! i)"
    by blast
  ultimately show ?thesis by auto
qed

theorem sweep_removes_idle_witness:
  "\<exists>oldest sv' w'. sweep 75 (\<lambda>_. 200) 1 200 full_server full_world = Inr (oldest, sv', w') \<and> alive_slots sv' = {}"
  using sweep_removes_idle [OF full_inv, of 1 75 "\<lambda>_. 200" 200] full_alive by (auto simp: full_server_def)

text \<open>
  Without a configuration the server runs with 8 workers, 512 connections, a keep-alive timeout of
  75 seconds and a backend timeout of 5, on port 8080; the same values stand in for every key
  that is missing or zero.
\<close>

theorem default_settings:
  "read_settings config_zero = Inr \<lparr>set_log_level = 0, set_num_workers = 8, set_max_connections = 512,
     set_keep_alive_timeout = 75, set_backend_timeout = 5, set_unix_path = None, set_port = 8080\<rparr>"
proof -
  have "config_get config_zero s k = Inr None" for s k by (simp add: config_get_def config_zero_def cloop.loop_end)
  then show ?thesis by (simp add: read_settings_def config_get_int_def or_default_def)
qed

lemma dispatch_client_ok:
  assumes "queue_inv q" and "length (queue_clients q) < 2 ^ 30" and "client_fits c"
  shows "\<exists>q'. dispatch_client True q (client_bytes serv c) = Inr q' \<and> queue_clients q' = queue_clients q @ [client_bytes serv c]"
proof -
  have len: "length (client_bytes serv c) = CLIENT_SIZE" using assms(3) by (intro client_bytes_length) (simp add: client_fits_def)
  have "unat (q_count q) < 2 ^ 30" using assms(2) by (simp add: queue_clients_def)
  from queue_reserve_ok [OF assms(1) this] obtain q1 where q1: "queue_reserve True q = Inr (Some q1)" by blast
  with len obtain q' where q': "dispatch_client True q (client_bytes serv c) = Inr q'"
    by (auto simp: dispatch_client_def dispatch_command_def CLIENT_SIZE_def WORKER_ACTION_PAYLOAD_SIZE_def)
  with dispatch_client_reserved(2) [OF assms(1) len q1 q'] show ?thesis by blast
qed

text \<open>A callback that finds the connection closed frees the block of its client, whoever freed it before.\<close>

lemma stale_callback_undefined:
  assumes "c_address c \<notin> w_heap w" and "c_address c \<noteq> 0" and "h_malloc_ok env 4096"
  shows "worker_callback env WORKER_ACTION_NEW_CLIENT c [] sv w = Inl Undefined"
proof -
  have "drop_client c sv w = Inl Undefined"
    using assms(1,2) by (simp add: drop_client_def server_remove_client_def os_free_def os_defs)
  with assms(3) show ?thesis
    by (simp add: worker_callback_def WORKER_ACTION_NEW_CLIENT_def WORKER_ACTION_NOOP_def http_recv_message_def recv_loop.simps [of _ _ _ _ "[]"])
qed

text \<open>
  C38: The events are fetched before the sweep, so a client whose data arrives just when its idle time
  is over is removed and dispatched all the same: its slot is free, its descriptor closed, and
  the queue holds it once more. The callback that then finds the connection closed frees the
  client's address block a second time.
\<close>

theorem swept_client_still_dispatched:
  assumes "server_inv F H sv w" and "queue_inv (pool_queue sv)" and "nat (set_max_connections cfg) = length (sv_clients sv)"
    and "expired (set_keep_alive_timeout cfg) clock sv i" and "n_alloc_ok env"
    and "length (queue_clients (pool_queue sv)) < 2 ^ 30"
    and "client_fits ((sv_clients sv ! i)\<lparr>c_in_flight := True\<rparr>)" and "h_malloc_ok henv 4096"
  shows "\<exists>sv' w' bytes. main_round cfg env now clock (Some [Some i]) sv w = Inr (sv', w') \<and> i \<notin> alive_slots sv' \<and>
    queue_clients (pool_queue sv') = queue_clients (pool_queue sv) @ [bytes] \<and>
    worker_callback henv WORKER_ACTION_NEW_CLIENT (client_of_bytes bytes) [] sv' w' = Inl Undefined"
proof -
  have i: "i \<in> alive_slots sv" "i < length (sv_clients sv)" using assms(4) by (auto simp: expired_def alive_slots_def)
  define w0 where "w0 = fire_events sv [Some i] w"
  have w0: "server_inv F H sv w0" unfolding w0_def by (rule fire_events_inv [OF assms(1)])
  from sweep_ok [OF w0 assms(3), of "set_keep_alive_timeout cfg" clock now] obtain oldest sv1 w1 where
    s: "sweep (set_keep_alive_timeout cfg) clock (set_max_connections cfg) now sv w0 = Inr (oldest, sv1, w1)"
      "alive_slots sv1 = {i \<in> alive_slots sv. \<not> expired (set_keep_alive_timeout cfg) clock sv i}"
      "\<forall>i. sv_clients sv1 ! i = (if expired (set_keep_alive_timeout cfg) clock sv i then (sv_clients sv ! i)\<lparr>c_is_alive := False\<rparr> else sv_clients sv ! i)"
      "\<forall>i. expired (set_keep_alive_timeout cfg) clock sv i \<longrightarrow> c_address (sv_clients sv ! i) \<notin> w_heap w1"
      "sv_workers sv1 = sv_workers sv" "length (sv_clients sv1) = length (sv_clients sv)" by blast
  define c where "c = (sv_clients sv ! i)\<lparr>c_is_alive := False, c_in_flight := True\<rparr>"
  have fits: "client_fits c" using assms(7) by (simp add: client_fits_def c_def)
  from dispatch_client_ok [OF assms(2,6) fits, of "n_serv env"] obtain q' where
    q': "dispatch_client True (pool_queue sv) (client_bytes (n_serv env) c) = Inr q'"
      "queue_clients q' = queue_clients (pool_queue sv) @ [client_bytes (n_serv env) c]" by blast
  define sv' where "sv' = sv1\<lparr>sv_clients := (sv_clients sv1)[i := c], sv_workers := (sv_workers sv)\<lparr>s_queue := q'\<rparr>\<rparr>"
  have upd: "slot_update i (\<lambda>c. c\<lparr>c_in_flight := True\<rparr>) sv1 = sv1\<lparr>sv_clients := (sv_clients sv1)[i := c]\<rparr>"
    using s(3) assms(4) by (simp add: slot_update_def c_def)
  have disp: "dispatch_slot (n_serv env) True i sv1 = Inr sv'"
    using i(2) s(5,6) q'(1) by (simp add: dispatch_slot_def upd sv'_def)
  have run: "main_round cfg env now clock (Some [Some i]) sv w = Inr (sv', w1)"
    using s(1) disp assms(5) unfolding main_round_def option.case w0_def [symmetric] by simp
  have ad: "c_address c \<notin> w_heap w1" "c_address c \<noteq> 0"
  proof -
    show "c_address c \<notin> w_heap w1" using s(4) assms(4) by (simp add: c_def)
    have "c_address (sv_clients sv ! i) \<in> client_blocks sv" using i(1) by (simp add: client_blocks_def)
    then show "c_address c \<noteq> 0" using assms(1) by (auto simp: server_inv_def owns_inv_def c_def)
  qed
  have "worker_callback henv WORKER_ACTION_NEW_CLIENT c [] sv' w1 = Inl Undefined" by (rule stale_callback_undefined [OF ad assms(8)])
  moreover have "i \<notin> alive_slots sv'" using i(2) s(6) by (simp add: alive_slots_def sv'_def c_def)
  moreover have "queue_clients (pool_queue sv') = queue_clients (pool_queue sv) @ [client_bytes (n_serv env) c]"
    using q'(2) by (simp add: sv'_def)
  ultimately show ?thesis using run client_round_trip [OF fits, of "n_serv env"] by auto
qed

theorem swept_client_still_dispatched_witness:
  "\<exists>sv' w' bytes. main_round sample_settings sample_round 200 (\<lambda>_. 200) (Some [Some 0]) full_server full_world = Inr (sv', w') \<and>
    queue_clients (pool_queue sv') = [bytes] \<and>
    worker_callback site_env WORKER_ACTION_NEW_CLIENT (client_of_bytes bytes) [] sv' w' = Inl Undefined"
proof -
  have "expired 75 (\<lambda>_. 200) full_server 0" unfolding expired_def full_alive by (simp add: full_server_def)
  then show ?thesis
    using swept_client_still_dispatched [OF full_inv, of sample_settings "\<lambda>_. 200" 0 sample_round site_env 200]
      empty_queue_inv full_pool full_fits full_slots
    by (auto simp: sample_settings_def sample_round_def site_env_def)
qed

text \<open>
  \<open>oldest_timestamp\<close>, from which Retry-After is computed, is the time stamp of the last live slot in the
  table and not the oldest one.
\<close>

theorem oldest_is_last_slot:
  assumes "i < length (sv_clients sv)" and "c_is_alive (sv_clients sv ! i)" and "\<not> c_in_flight (sv_clients sv ! i)"
    and "clock i - c_last_recv (sv_clients sv ! i) < timeout"
  shows "sweep_slot timeout (clock i) i (oldest, sv, w) = Inr (c_last_recv (sv_clients sv ! i), sv, w)"
  using assms by (simp add: sweep_slot_def)

text \<open>
  A dispatch that is lost because the queue cannot grow pins the slot: the client stays in flight
  though no worker has it, so no later sweep removes it.
\<close>

theorem lost_dispatch_pins_slot:
  assumes "queue_reserve False (pool_queue sv) = Inr None" and "i < length (sv_clients sv)"
    and "length (c_ip_addr (sv_clients sv ! i)) \<le> 16"
  shows "\<exists>sv'. dispatch_slot serv False i sv = Inr sv' \<and> pool_queue sv' = pool_queue sv \<and> (\<forall>timeout clock. \<not> expired timeout clock sv' i)"
proof -
  have "length (client_bytes serv ((sv_clients sv ! i)\<lparr>c_in_flight := True\<rparr>)) = CLIENT_SIZE"
    using assms(3) by (intro client_bytes_length) simp
  then have "dispatch_client False (pool_queue sv) (client_bytes serv ((sv_clients sv ! i)\<lparr>c_in_flight := True\<rparr>)) = Inr (pool_queue sv)"
    using assms(1) by (simp add: dispatch_client_def dispatch_command_def CLIENT_SIZE_def WORKER_ACTION_PAYLOAD_SIZE_def)
  then show ?thesis using assms(2) by (simp add: dispatch_slot_def slot_update_def expired_def)
qed

end
