(* ===== verification/Program.thy ===== *)
theory Program
  imports Main_Loop
begin

text \<open>
  The whole server: the start of \<open>main\<close>, then rounds of the main loop and callbacks of the workers, in
  any order. A callback runs with the lock of the queue held, so it is one step here; its race with
  the main thread that this lock does not exclude is treated at the end.
\<close>

section \<open>Start\<close>

text \<open>
  What the calls during the start give: the files, the results of the allocations and of
  \<open>pthread_create\<close>, the listening socket with its address block, and the epoll instance.
\<close>

record start_env =
  z_files :: "string \<Rightarrow> os_file option"
  z_config_fd :: int
  z_realloc_ok :: "nat \<Rightarrow> bool"
  z_threads_ok :: bool
  z_queue_ok :: bool
  z_slots_ok :: bool
  z_args_ok :: "nat \<Rightarrow> bool"
  z_create_ok :: "nat \<Rightarrow> bool"
  z_sock :: int
  z_setopt_ok :: bool
  z_addr :: nat
  z_bind_ok :: bool
  z_clients_ok :: bool
  z_epoll :: int
  z_ctl_ok :: bool
  z_stack_ok :: bool
  z_listen_ok :: bool

text \<open>The part that \<open>server_init_http\<close> and \<open>server_init_unix\<close> share.\<close>

definition init_on :: "start_env \<Rightarrow> int \<Rightarrow> int \<Rightarrow> socket_t \<times> os_world \<Rightarrow> (server_t \<times> os_world) res" where
  "init_on env max_connections num_workers s =
     server_init_common
       (worker_pool_init (z_threads_ok env) (z_queue_ok env) (z_slots_ok env) (z_args_ok env) (z_create_ok env) (word_of_int num_workers))
       (z_clients_ok env) (z_epoll env) (z_ctl_ok env) (z_stack_ok env) max_connections (so_fd (fst s)) (so_address (fst s)) (snd s)"

definition server_init_http :: "start_env \<Rightarrow> int \<Rightarrow> int \<Rightarrow> int \<Rightarrow> os_world \<Rightarrow> (server_t \<times> os_world) res" where
  "server_init_http env max_connections num_workers port w =
     bind_res (socket_create_http (z_sock env) (z_setopt_ok env) (z_addr env) (z_bind_ok env) port w)
       (init_on env max_connections num_workers)"

definition server_init_unix :: "start_env \<Rightarrow> int \<Rightarrow> int \<Rightarrow> string \<Rightarrow> os_world \<Rightarrow> (server_t \<times> os_world) res" where
  "server_init_unix env max_connections num_workers path w =
     bind_res (socket_create_unix (z_sock env) (z_setopt_ok env) (z_addr env) (z_bind_ok env) path w)
       (init_on env max_connections num_workers)"

text \<open>
  The descriptor of the configuration file stays open when the file could be mapped, else \<open>config_parse\<close>
  closes it again and its result has the descriptor 0. \<open>routes_parse\<close> closes its file in any case.
\<close>

definition config_loaded :: "start_env \<Rightarrow> bool" where
  "config_loaded env = (case z_files env ''foxtails.conf'' of None \<Rightarrow> False | Some f \<Rightarrow> fstat_ok f \<and> file_bytes f \<noteq> [] \<and> mmap_ok f)"

definition config_open :: "start_env \<Rightarrow> os_world \<Rightarrow> os_world" where
  "config_open env w = (if config_loaded env then os_open (z_config_fd env) w else w)"

lemma config_parse_fd: "cf_fd (config_parse (z_files env) (z_config_fd env) ''foxtails.conf'') = (if config_loaded env then z_config_fd env else 0)"
  by (simp add: config_parse_def config_loaded_def config_zero_def split: option.split)

text \<open>\<open>main\<close> up to its loop.\<close>

definition main_start :: "start_env \<Rightarrow> os_world \<Rightarrow> (config_t \<times> settings \<times> route_table_t \<times> server_t \<times> os_world) res" where
  "main_start env w0 =
     (let config = config_parse (z_files env) (z_config_fd env) ''foxtails.conf'';
          w = config_open env w0
      in bind_res (read_settings config) (\<lambda>cfg.
        let routes = routes_parse (z_files env) (z_realloc_ok env) ''routes.conf''
        in bind_res (case set_unix_path cfg of
                       None \<Rightarrow> server_init_http env (set_max_connections cfg) (set_num_workers cfg) (set_port cfg) w
                     | Some path \<Rightarrow> server_init_unix env (set_max_connections cfg) (set_num_workers cfg) path w) (\<lambda>(sv, w1).
             bind_res (socket_listen (z_listen_ok env) w1) (\<lambda>w2. Inr (config, cfg, routes, sv, w2)))))"

lemma config_get_int_range: "config_get_int conf s k = Inr v \<Longrightarrow> - (2 ^ 31) \<le> v \<and> v < 2 ^ 31"
  using to_int32_range by (auto simp: config_get_int_def bind_res_Inr split: option.splits)

lemma read_settings_range:
  assumes "read_settings config = Inr cfg"
  shows "set_max_connections cfg < 2 ^ 31"
proof -
  from assms obtain m where "config_get_int config ''server'' ''max-connections'' = Inr m" "set_max_connections cfg = or_default m 512"
    by (auto simp: read_settings_def bind_res_Inr)
  with config_get_int_range [of config "''server''" "''max-connections''" m] show ?thesis by (simp add: or_default_def)
qed

text \<open>The descriptors and the block that the system hands out during the start are new.\<close>

definition start_fresh :: "start_env \<Rightarrow> os_world \<Rightarrow> bool" where
  "start_fresh env w \<longleftrightarrow> \<not> (config_loaded env \<and> z_config_fd env \<in> w_open w) \<and> z_sock env \<notin> w_open (config_open env w) \<and>
     z_epoll env \<notin> insert (z_sock env) (w_open (config_open env w)) \<and> z_addr env \<notin> w_heap w"

lemma config_open_heap [simp]: "w_heap (config_open env w) = w_heap w"
  by (simp add: config_open_def os_defs)

lemma init_on_ok:
  assumes "init_on env m n (bound_socket (z_sock env) (z_addr env) content w) = Inr (sv, w')"
    and "z_sock env \<notin> w_open w \<and> z_epoll env \<notin> insert (z_sock env) (w_open w) \<and> z_addr env \<notin> w_heap w"
    and "m < 2 ^ 31" and "z_addr env \<noteq> 0"
  shows "server_inv (w_open w) (w_heap w) sv w' \<and> alive_slots sv = {} \<and> queue_inv (pool_queue sv) \<and> queue_clients (pool_queue sv) = [] \<and>
    length (sv_clients sv) = nat m"
proof -
  let ?w = "snd (bound_socket (z_sock env) (z_addr env) content w)"
  from assms(1) obtain k ws where pool: "worker_pool_init (z_threads_ok env) (z_queue_ok env) (z_slots_ok env) (z_args_ok env) (z_create_ok env) (word_of_int n) = Inr (k, ws)"
    and ok: "z_clients_ok env" "z_ctl_ok env" "z_stack_ok env" "0 \<le> z_epoll env" "0 < m" and len: "length (sv_clients sv) = nat m"
    by (auto simp: init_on_def server_init_common_def bind_res_Inr Let_def split: if_splits)
  have w: "w_open ?w = insert (z_sock env) (w_open w)" "w_heap ?w = insert (z_addr env) (w_heap w)"
    by (simp_all add: bound_socket_def os_defs)
  have "server_init_common (Inr (k, ws)) True (z_epoll env) True True m (z_sock env) (z_addr env) ?w = Inr (sv, w')"
    using assms(1) pool ok by (simp add: init_on_def bound_socket_def)
  moreover have "\<exists>sv w'. server_init_common (Inr (k, ws)) True (z_epoll env) True True m (z_sock env) (z_addr env) ?w = Inr (sv, w') \<and>
      server_inv (w_open ?w - {z_sock env}) (w_heap ?w - {z_addr env}) sv w' \<and> alive_slots sv = {} \<and> sv_workers sv = ws \<and>
      stack_items (sv_free_list sv) = map int [0..<nat m] \<and> w_epoll w' (z_sock env) = Some (None, True)"
    by (rule server_init_ok) (use assms(2-4) ok w in auto)
  ultimately have s: "server_inv (w_open ?w - {z_sock env}) (w_heap ?w - {z_addr env}) sv w'" "alive_slots sv = {}" "sv_workers sv = ws" by auto
  have "w_open ?w - {z_sock env} = w_open w" "w_heap ?w - {z_addr env} = w_heap w" using assms(2) w by auto
  moreover from pool obtain q where "init_queue True = Inr q" "ws = wsys_init k q"
    by (auto simp: worker_pool_init_def bind_res_Inr init_queue_def Let_def split: if_splits)
  then have "queue_inv (s_queue ws)" "queue_clients (s_queue ws) = []"
    using init_queue_inv [of q] by (simp_all add: wsys_init_def queue_clients_def)
  ultimately show ?thesis using s len by simp
qed

lemma main_start_ok:
  assumes "main_start env w = Inr (config, cfg, routes, sv, w')" and "start_fresh env w"
  shows "server_inv (w_open (config_open env w)) (w_heap w) sv w' \<and> alive_slots sv = {} \<and> queue_inv (pool_queue sv) \<and> queue_clients (pool_queue sv) = [] \<and>
    length (sv_clients sv) = nat (set_max_connections cfg) \<and> set_max_connections cfg < 2 ^ 31"
proof -
  from assms(1) have "read_settings (config_parse (z_files env) (z_config_fd env) ''foxtails.conf'') = Inr cfg"
    by (auto simp: main_start_def bind_res_Inr Let_def split: option.splits)
  from read_settings_range [OF this] have max: "set_max_connections cfg < 2 ^ 31" .
  have "\<exists>content w0. init_on env (set_max_connections cfg) (set_num_workers cfg) (bound_socket (z_sock env) (z_addr env) content w0) = Inr (sv, w') \<and>
      z_addr env \<noteq> 0 \<and> w_open w0 = w_open (config_open env w) \<and> w_heap w0 = w_heap w"
  proof (cases "set_unix_path cfg")
    case None
    with assms(1) show ?thesis
      by (intro exI [of _ "Inet 0 (htons (set_port cfg))"] exI [of _ "config_open env w"])
        (auto simp: main_start_def bind_res_Inr Let_def server_init_http_def socket_create_http_def socket_listen_def split: if_splits)
  next
    case (Some path)
    with assms(1) show ?thesis
      by (intro exI [of _ "Unix (take 107 path)"] exI [of _ "(config_open env w)\<lparr>w_unlinked := w_unlinked (config_open env w) @ [path]\<rparr>"])
        (auto simp: main_start_def bind_res_Inr Let_def server_init_unix_def socket_create_unix_def socket_listen_def split: if_splits)
  qed
  then obtain content w0 where "init_on env (set_max_connections cfg) (set_num_workers cfg) (bound_socket (z_sock env) (z_addr env) content w0) = Inr (sv, w')"
    and z: "z_addr env \<noteq> 0" and w0: "w_open w0 = w_open (config_open env w)" "w_heap w0 = w_heap w" by blast
  from init_on_ok [OF this(1) _ max z] assms(2) w0 max show ?thesis by (simp add: start_fresh_def)
qed


section \<open>Steps\<close>

text \<open>
  A worker takes the oldest client from the queue and answers it; the other fields of the pool
  belong to the threads and are not changed.
\<close>

definition set_queue :: "worker_queue \<Rightarrow> server_t \<Rightarrow> server_t" where
  "set_queue q sv = sv\<lparr>sv_workers := (sv_workers sv)\<lparr>s_queue := q\<rparr>\<rparr>"

definition work :: "handler_env \<Rightarrow> string list \<Rightarrow> server_t \<Rightarrow> os_world \<Rightarrow> (server_t \<times> os_world) res" where
  "work env segs sv w =
     (let (bytes, q) = take_client (pool_queue sv)
      in worker_callback env WORKER_ACTION_NEW_CLIENT (client_of_bytes bytes) segs (set_queue q sv) w)"

text \<open>
  What the system guarantees for a round: it reports armed descriptors, each once, and the listening
  socket at most once; new connections come with new descriptors and blocks. That no reported client
  is idle for the timeout, and that the queue can grow, is assumed.
\<close>

definition round_ok :: "settings \<Rightarrow> round_env \<Rightarrow> int \<Rightarrow> (nat \<Rightarrow> int) \<Rightarrow> nat option list \<Rightarrow> server_t \<Rightarrow> os_world \<Rightarrow> bool" where
  "round_ok cfg env now clock evs sv w \<longleftrightarrow>
     distinct (event_slots evs) \<and> count_list evs None \<le> 1 \<and>
     (\<forall>i\<in>set (event_slots evs). i \<in> alive_slots sv \<and> w_epoll w (c_fd (sv_clients sv ! i)) = Some (Some i, True) \<and>
        \<not> expired (set_keep_alive_timeout cfg) clock sv i) \<and>
     length (queue_clients (pool_queue sv)) + length evs < 2 ^ 30 \<and> n_alloc_ok env \<and> n_again env \<and>
     conns_fresh (n_conns env) w \<and> list_all conn_fits (n_conns env) \<and>
     n_mem env \<noteq> 0 \<and> n_mem env \<notin> w_heap w \<and> n_mem env \<notin> fst ` set (n_conns env) \<and> stamp_ok now"

inductive prog_step :: "settings \<Rightarrow> nat \<Rightarrow> server_t \<times> os_world \<Rightarrow> server_t \<times> os_world \<Rightarrow> bool" for cfg :: settings and serv :: nat where
  Round: "round_ok cfg env now clock evs sv w \<Longrightarrow> n_serv env = serv \<Longrightarrow>
    main_round cfg env now clock (Some evs) sv w = Inr s' \<Longrightarrow> prog_step cfg serv (sv, w) s'"
| Interrupted: "main_round cfg env now clock None sv w = Inr s' \<Longrightarrow> prog_step cfg serv (sv, w) s'"
| Work: "q_count (pool_queue sv) \<noteq> 0 \<Longrightarrow> backend_fresh env w \<Longrightarrow> stamp_ok (h_now env) \<Longrightarrow>
    work env segs sv w = Inr s' \<Longrightarrow> prog_step cfg serv (sv, w) s'"

text \<open>
  The end of \<open>main\<close>, after the loop: \<open>config_delete\<close> closes the descriptor of the configuration. The
  workers that \<open>server_delete\<close> joins are the subject of \<open>Worker_Threads\<close>, the arena that \<open>cpool_uninit\<close> frees the
  one of \<open>Cpool_Heap\<close>; \<open>routes_delete\<close> frees the table.
\<close>

definition config_delete :: "config_t \<Rightarrow> os_world \<Rightarrow> os_world" where
  "config_delete config w = os_close (cf_fd config) w"

definition main_end :: "config_t \<Rightarrow> server_t \<Rightarrow> os_world \<Rightarrow> os_world res" where
  "main_end config sv w = bind_res (server_delete sv w) (\<lambda>w'. Inr (config_delete config w'))"

lemma main_start_config: "main_start env w = Inr (config, cfg, routes, sv, w') \<Longrightarrow>
  config = config_parse (z_files env) (z_config_fd env) ''foxtails.conf''"
  by (auto simp: main_start_def bind_res_Inr Let_def)

lemma main_end_closes:
  assumes "server_inv (w_open (config_open env w0)) H sv w" and "start_fresh env w0"
    and "config = config_parse (z_files env) (z_config_fd env) ''foxtails.conf''"
  shows "\<exists>w'. main_end config sv w = Inr w' \<and> w_open w' = (if config_loaded env then w_open w0 else w_open w0 - {0}) \<and> w_heap w' = H"
proof -
  from server_delete_frees [OF assms(1)] obtain w' where
    "server_delete sv w = Inr w'" "w_open w' = w_open (config_open env w0)" "w_heap w' = H" by blast
  then show ?thesis
    using assms(2) by (auto simp: main_end_def config_delete_def assms(3) config_parse_fd os_close_def config_open_def os_open_def start_fresh_def)
qed

section \<open>Invariant\<close>

text \<open>The slots that are marked as handed to the workers.\<close>

definition marked :: "server_t \<Rightarrow> nat set" where
  "marked sv = {i \<in> alive_slots sv. c_in_flight (sv_clients sv ! i)}"

text \<open>The queue holds exactly the marked clients, each once, and a marked client is disarmed.\<close>

definition queued_inv :: "nat \<Rightarrow> server_t \<Rightarrow> bool" where
  "queued_inv serv sv \<longleftrightarrow> queue_inv (pool_queue sv) \<and>
     (\<exists>is. distinct is \<and> set is = marked sv \<and> queue_clients (pool_queue sv) = map (event_bytes serv sv) is)"

definition clients_inv :: "server_t \<Rightarrow> os_world \<Rightarrow> bool" where
  "clients_inv sv w \<longleftrightarrow> (\<forall>i\<in>alive_slots sv. client_fits (sv_clients sv ! i) \<and> stamp_ok (c_last_recv (sv_clients sv ! i)) \<and>
     (c_in_flight (sv_clients sv ! i) \<longrightarrow> w_epoll w (c_fd (sv_clients sv ! i)) = Some (Some i, False)))"

definition prog_inv :: "settings \<Rightarrow> nat \<Rightarrow> int set \<Rightarrow> nat set \<Rightarrow> server_t \<times> os_world \<Rightarrow> bool" where
  "prog_inv cfg serv F H s \<longleftrightarrow> (case s of (sv, w) \<Rightarrow> server_inv F H sv w \<and> clients_inv sv w \<and> queued_inv serv sv \<and>
     length (sv_clients sv) = nat (set_max_connections cfg) \<and> set_max_connections cfg < 2 ^ 31)"

lemma start_inv:
  assumes "main_start env w = Inr (config, cfg, routes, sv, w')" and "start_fresh env w"
  shows "prog_inv cfg serv (w_open (config_open env w)) (w_heap w) (sv, w')"
  using main_start_ok [OF assms] by (auto simp: prog_inv_def clients_inv_def queued_inv_def marked_def)

lemma event_bytes_same: "sv_clients sv' ! i = sv_clients sv ! i \<or> sv_clients sv' ! i = (sv_clients sv ! i)\<lparr>c_in_flight := b\<rparr> \<Longrightarrow>
  event_bytes serv sv' i = event_bytes serv sv i"
  by (auto simp: event_bytes_def)

subsection \<open>Rounds\<close>

lemma fire_events_epoll:
  "w_epoll (fire_events sv evs w) fd =
     (if fd \<in> (\<lambda>i. c_fd (sv_clients sv ! i)) ` set (event_slots evs) then map_option (\<lambda>(d, _). (d, False)) (w_epoll w fd) else w_epoll w fd)"
proof (induction sv evs w rule: fire_events.induct)
  case (3 sv i evs w)
  have "map_option (\<lambda>(d, _). (d, False)) (map_option (\<lambda>(d, _). (d, False)) x) = map_option (\<lambda>(d, _). (d, False)) x"
    for x :: "(nat option \<times> bool) option" by (cases x) auto
  then show ?case using 3 by (auto simp: os_epoll_fire_def simp del: option.map_comp)
qed auto

text \<open>
  What a round leaves: clients that are not expired stay, marked if they were reported; every other
  client is new.
\<close>

definition events_ok :: "settings \<Rightarrow> (nat \<Rightarrow> int) \<Rightarrow> nat option list \<Rightarrow> server_t \<Rightarrow> os_world \<Rightarrow> bool" where
  "events_ok cfg clock evs sv w \<longleftrightarrow> (\<forall>i\<in>set (event_slots evs). i \<in> alive_slots sv \<and>
     w_epoll w (c_fd (sv_clients sv ! i)) = Some (Some i, True) \<and> \<not> expired (set_keep_alive_timeout cfg) clock sv i)"

definition round_leaves :: "settings \<Rightarrow> (nat \<Rightarrow> int) \<Rightarrow> nat option list \<Rightarrow> server_t \<Rightarrow> os_world \<Rightarrow> server_t \<Rightarrow> os_world \<Rightarrow> bool" where
  "round_leaves cfg clock evs sv w sv' w' \<longleftrightarrow>
     (\<forall>i\<in>alive_slots sv. \<not> expired (set_keep_alive_timeout cfg) clock sv i \<longrightarrow> i \<in> alive_slots sv' \<and>
        sv_clients sv' ! i = (if i \<in> set (event_slots evs) then (sv_clients sv ! i)\<lparr>c_in_flight := True\<rparr> else sv_clients sv ! i) \<and>
        w_epoll w' (c_fd (sv_clients sv ! i)) = w_epoll (fire_events sv evs w) (c_fd (sv_clients sv ! i))) \<and>
     (\<forall>i\<in>alive_slots sv'. i \<notin> alive_slots sv \<or> expired (set_keep_alive_timeout cfg) clock sv i \<longrightarrow> new_ok (sv_clients sv' ! i))"

lemma round_effect:
  assumes "round_ok cfg env now clock evs sv w" and "prog_inv cfg serv F H (sv, w)"
  shows "\<exists>sv' w'. main_round cfg env now clock (Some evs) sv w = Inr (sv', w') \<and> server_inv F H sv' w' \<and> queue_inv (pool_queue sv') \<and>
    queue_clients (pool_queue sv') = queue_clients (pool_queue sv) @ map (event_bytes (n_serv env) sv) (event_slots evs) \<and>
    length (sv_clients sv') = length (sv_clients sv) \<and> round_leaves cfg clock evs sv w sv' w'"
proof -
  have inv: "server_inv F H sv w" "clients_inv sv w" "queue_inv (pool_queue sv)" "nat (set_max_connections cfg) = length (sv_clients sv)"
    "set_max_connections cfg < 2 ^ 31" using assms(2) by (auto simp: prog_inv_def queued_inv_def)
  have ip: "length (c_ip_addr (sv_clients sv ! i)) \<le> 16" if "i \<in> set (event_slots evs)" for i
  proof -
    have "i \<in> alive_slots sv" using assms(1) that by (simp add: round_ok_def)
    with inv(2) show ?thesis by (auto simp: clients_inv_def client_fits_def)
  qed
  have fit: "conns_fit (n_conns env) sv" using assms(1) inv(4,5) by (auto simp: conns_fit_def round_ok_def)
  let ?ex = "expired (set_keep_alive_timeout cfg) clock sv" and ?E = "set (event_slots evs)"
  have "\<exists>sv' w'. main_round cfg env now clock (Some evs) sv w = Inr (sv', w') \<and> server_inv F H sv' w' \<and> queue_inv (pool_queue sv') \<and>
    {i \<in> alive_slots sv. \<not> ?ex i} \<subseteq> alive_slots sv' \<and>
    queue_clients (pool_queue sv') = queue_clients (pool_queue sv) @ map (event_bytes (n_serv env) sv) (event_slots evs) \<and>
    (conns_fit (n_conns env) sv \<longrightarrow> length (sv_clients sv') = length (sv_clients sv) \<and>
      (\<forall>i\<in>alive_slots sv. \<not> ?ex i \<longrightarrow>
        sv_clients sv' ! i = (if i \<in> ?E then (sv_clients sv ! i)\<lparr>c_in_flight := True\<rparr> else sv_clients sv ! i) \<and>
        w_epoll w' (c_fd (sv_clients sv ! i)) = w_epoll (fire_events sv evs w) (c_fd (sv_clients sv ! i))) \<and>
      (\<forall>i\<in>alive_slots sv'. i \<notin> alive_slots sv \<or> ?ex i \<longrightarrow> new_ok (sv_clients sv' ! i)))"
    by (rule main_round_effect [OF inv(1,3,4)]) (use assms(1) inv(2) ip in \<open>auto simp: round_ok_def stamps_ok_def clients_inv_def\<close>)
  with fit show ?thesis unfolding round_leaves_def by blast
qed

lemma marked_not_reported:
  assumes "events_ok cfg clock evs sv w" and "clients_inv sv w" and "i \<in> marked sv"
  shows "i \<in> alive_slots sv" and "\<not> expired (set_keep_alive_timeout cfg) clock sv i" and "i \<notin> set (event_slots evs)"
  using assms by (auto simp: marked_def expired_def clients_inv_def events_ok_def)

lemma round_marked:
  assumes "round_leaves cfg clock evs sv w sv' w'" and "events_ok cfg clock evs sv w" and "clients_inv sv w"
  shows "marked sv' = marked sv \<union> set (event_slots evs)"
proof (intro equalityI subsetI)
  fix i assume "i \<in> marked sv'"
  then have i: "i \<in> alive_slots sv'" "c_in_flight (sv_clients sv' ! i)" by (auto simp: marked_def)
  then have a: "i \<in> alive_slots sv" "\<not> expired (set_keep_alive_timeout cfg) clock sv i" using assms(1) by (auto simp: round_leaves_def new_ok_def)
  then have "sv_clients sv' ! i = (if i \<in> set (event_slots evs) then (sv_clients sv ! i)\<lparr>c_in_flight := True\<rparr> else sv_clients sv ! i)"
    using assms(1) by (simp add: round_leaves_def)
  with a(1) i(2) show "i \<in> marked sv \<union> set (event_slots evs)" by (cases "i \<in> set (event_slots evs)") (simp_all add: marked_def)
next
  fix i assume "i \<in> marked sv \<union> set (event_slots evs)"
  then have i: "i \<in> alive_slots sv" "\<not> expired (set_keep_alive_timeout cfg) clock sv i" "c_in_flight (sv_clients sv ! i) \<or> i \<in> set (event_slots evs)"
    using marked_not_reported [OF assms(2,3), of i] assms(2) unfolding marked_def events_ok_def by blast+
  then have "i \<in> alive_slots sv'"
    "sv_clients sv' ! i = (if i \<in> set (event_slots evs) then (sv_clients sv ! i)\<lparr>c_in_flight := True\<rparr> else sv_clients sv ! i)"
    using assms(1) by (simp_all add: round_leaves_def)
  with i(3) show "i \<in> marked sv'" by (cases "i \<in> set (event_slots evs)") (simp_all add: marked_def)
qed

lemma round_queued:
  assumes "round_leaves cfg clock evs sv w sv' w'" and "events_ok cfg clock evs sv w" and "clients_inv sv w" and "queued_inv serv sv"
    and "queue_inv (pool_queue sv')" and "distinct (event_slots evs)"
    and "queue_clients (pool_queue sv') = queue_clients (pool_queue sv) @ map (event_bytes serv sv) (event_slots evs)"
  shows "queued_inv serv sv'"
proof -
  note mk = marked_not_reported [OF assms(2,3)]
  from assms(4) obtain "is" where is': "distinct is" "set is = marked sv" "queue_clients (pool_queue sv) = map (event_bytes serv sv) is"
    by (auto simp: queued_inv_def)
  have "event_bytes serv sv' i = event_bytes serv sv i" if "i \<in> marked sv \<union> set (event_slots evs)" for i
  proof -
    have "i \<in> alive_slots sv" "\<not> expired (set_keep_alive_timeout cfg) clock sv i"
      using that mk [of i] assms(2) unfolding events_ok_def by blast+
    then show ?thesis using assms(1) by (intro event_bytes_same) (auto simp: round_leaves_def)
  qed
  then have "queue_clients (pool_queue sv') = map (event_bytes serv sv') (is @ event_slots evs)" using assms(7) is'(2,3) by auto
  moreover have "distinct (is @ event_slots evs)" using is' mk assms(6) by auto
  ultimately show ?thesis
    using assms(5) is'(2) round_marked [OF assms(1-3)] unfolding queued_inv_def by (metis set_append)
qed

lemma round_clients:
  assumes "round_leaves cfg clock evs sv w sv' w'" and "events_ok cfg clock evs sv w" and "clients_inv sv w" and "server_inv F H sv w"
  shows "clients_inv sv' w'"
  unfolding clients_inv_def
proof
  fix i assume i: "i \<in> alive_slots sv'"
  show "client_fits (sv_clients sv' ! i) \<and> stamp_ok (c_last_recv (sv_clients sv' ! i)) \<and>
    (c_in_flight (sv_clients sv' ! i) \<longrightarrow> w_epoll w' (c_fd (sv_clients sv' ! i)) = Some (Some i, False))"
  proof (cases "i \<in> alive_slots sv \<and> \<not> expired (set_keep_alive_timeout cfg) clock sv i")
    case False
    with assms(1) i show ?thesis by (auto simp: round_leaves_def new_ok_def)
  next
    case True
    have inj: "inj_on (\<lambda>i. c_fd (sv_clients sv ! i)) (alive_slots sv)" using assms(4) by (simp add: server_inv_def owns_inv_def)
    have fd: "c_fd (sv_clients sv ! i) \<in> (\<lambda>i. c_fd (sv_clients sv ! i)) ` set (event_slots evs) \<longleftrightarrow> i \<in> set (event_slots evs)"
      using inj_onD [OF inj] True assms(2) unfolding events_ok_def by blast
    have "client_fits (sv_clients sv ! i)" "stamp_ok (c_last_recv (sv_clients sv ! i))"
      "c_in_flight (sv_clients sv ! i) \<longrightarrow> w_epoll w (c_fd (sv_clients sv ! i)) = Some (Some i, False)"
      using assms(3) True by (auto simp: clients_inv_def)
    moreover have "sv_clients sv' ! i = (if i \<in> set (event_slots evs) then (sv_clients sv ! i)\<lparr>c_in_flight := True\<rparr> else sv_clients sv ! i)"
      "w_epoll w' (c_fd (sv_clients sv ! i)) = w_epoll (fire_events sv evs w) (c_fd (sv_clients sv ! i))"
      using assms(1) True by (simp_all add: round_leaves_def)
    ultimately show ?thesis
      using assms(2) fd by (auto simp: fire_events_epoll client_fits_def events_ok_def split: if_splits)
  qed
qed

lemma round_inv:
  assumes "round_ok cfg env now clock evs sv w" and "n_serv env = serv" and "prog_inv cfg serv F H (sv, w)"
  shows "\<exists>s'. main_round cfg env now clock (Some evs) sv w = Inr s' \<and> prog_inv cfg serv F H s'"
proof -
  have inv: "server_inv F H sv w" "clients_inv sv w" "queued_inv serv sv" using assms(3) by (auto simp: prog_inv_def)
  have ev: "events_ok cfg clock evs sv w" "distinct (event_slots evs)" using assms(1) by (auto simp: round_ok_def events_ok_def)
  from round_effect [OF assms(1,3)] obtain sv' w' where r: "main_round cfg env now clock (Some evs) sv w = Inr (sv', w')" "server_inv F H sv' w'"
    "queue_inv (pool_queue sv')" "queue_clients (pool_queue sv') = queue_clients (pool_queue sv) @ map (event_bytes serv sv) (event_slots evs)"
    "length (sv_clients sv') = length (sv_clients sv)" "round_leaves cfg clock evs sv w sv' w'" using assms(2) by blast
  from round_queued [OF r(6) ev(1) inv(2,3) r(3) ev(2) r(4)] round_clients [OF r(6) ev(1) inv(2,1)] r(1,2,5) assms(3)
  show ?thesis by (auto simp: prog_inv_def)
qed


subsection \<open>Callbacks\<close>

lemma set_queue_simps [simp]:
  "sv_clients (set_queue q sv) = sv_clients sv" "pool_queue (set_queue q sv) = q" "alive_slots (set_queue q sv) = alive_slots sv"
  "server_inv F H (set_queue q sv) w = server_inv F H sv w" "copy_of_slot c (set_queue q sv) i = copy_of_slot c sv i"
  by (simp_all add: set_queue_def copy_of_slot_def)

lemma drop_client_effect:
  assumes "drop_client c sv w = Inr (sv', w')"
  shows "sv_clients sv' = (sv_clients sv)[nat (c_idx c) := (sv_clients sv ! nat (c_idx c))\<lparr>c_is_alive := False, c_in_flight := False\<rparr>]"
    and "sv_workers sv' = sv_workers sv" and "\<forall>fd\<in>w_open w'. w_epoll w' fd = w_epoll w fd"
proof -
  from assms obtain sv1 where sv1: "server_remove_client sv w c = Inr (sv1, w')" "sv' = slot_update (nat (c_idx c)) (\<lambda>c. c\<lparr>c_in_flight := False\<rparr>) sv1"
    by (auto simp: drop_client_def bind_res_Inr)
  note fr = remove_frame [OF sv1(1)] and ep = remove_epoll [OF sv1(1)]
  show "\<forall>fd\<in>w_open w'. w_epoll w' fd = w_epoll w fd" using ep by blast
  show "sv_workers sv' = sv_workers sv" using fr sv1(2) by (simp add: slot_update_def)
  show "sv_clients sv' = (sv_clients sv)[nat (c_idx c) := (sv_clients sv ! nat (c_idx c))\<lparr>c_is_alive := False, c_in_flight := False\<rparr>]"
    using fr sv1(2) by (cases "nat (c_idx c) < length (sv_clients sv)") (simp_all add: slot_update_def list_update_beyond)
qed

text \<open>
  What a callback for the client in slot \<open>i\<close> leaves: the other clients and their registrations are
  untouched, the client itself is gone or alive and not marked.
\<close>

lemma callback_effect:
  assumes "worker_callback env WORKER_ACTION_NEW_CLIENT c segs sv w = Inr (sv', w')" and "server_inv F H sv w" and "copy_of_slot c sv i"
    and "backend_fresh env w"
  shows "sv_workers sv' = sv_workers sv" and "length (sv_clients sv') = length (sv_clients sv)"
    and "\<And>j. j \<noteq> i \<Longrightarrow> sv_clients sv' ! j = sv_clients sv ! j"
    and "\<And>j. j \<in> alive_slots sv \<Longrightarrow> j \<noteq> i \<Longrightarrow> w_epoll w' (c_fd (sv_clients sv ! j)) = w_epoll w (c_fd (sv_clients sv ! j))"
    and "i \<in> alive_slots sv' \<Longrightarrow> sv_clients sv' ! i = (sv_clients sv ! i)\<lparr>c_last_recv := h_now env, c_in_flight := False\<rparr>"
proof -
  have idx: "nat (c_idx c) = i" and i: "i < length (sv_clients sv)" "i \<in> alive_slots sv" and fdc: "c_fd c = c_fd (sv_clients sv ! i)"
    using assms(2,3) by (auto simp: copy_of_slot_def server_inv_def slots_inv_def alive_slots_def)
  have own: "inj_on (\<lambda>i. c_fd (sv_clients sv ! i)) (alive_slots sv)" "\<forall>j\<in>alive_slots sv. c_fd (sv_clients sv ! j) \<in> w_open w"
    using assms(2) by (auto simp: server_inv_def owns_inv_def client_fds_def)
  have ne: "c_fd (sv_clients sv ! j) \<noteq> c_fd c" if "j \<in> alive_slots sv" "j \<noteq> i" for j
    using inj_onD [OF own(1) _ that(1) i(2)] that(2) fdc by auto
  have "sv_workers sv' = sv_workers sv \<and> length (sv_clients sv') = length (sv_clients sv) \<and> (\<forall>j. j \<noteq> i \<longrightarrow> sv_clients sv' ! j = sv_clients sv ! j) \<and>
    (\<forall>j\<in>alive_slots sv. j \<noteq> i \<longrightarrow> w_epoll w' (c_fd (sv_clients sv ! j)) = w_epoll w (c_fd (sv_clients sv ! j))) \<and>
    (i \<in> alive_slots sv' \<longrightarrow> sv_clients sv' ! i = (sv_clients sv ! i)\<lparr>c_last_recv := h_now env, c_in_flight := False\<rparr>)"
    using assms(1,4)
  proof (cases rule: worker_callback_cases)
    case (dropped w1)
    note d = drop_client_effect [OF dropped(2), unfolded idx]
    have op: "w_open w' = w_open w1 - {c_fd c}"
      using drop_client_inv [OF same_resources_inv [OF assms(2) dropped(1)] assms(3)] dropped(2) by auto
    have "w_epoll w' (c_fd (sv_clients sv ! j)) = w_epoll w (c_fd (sv_clients sv ! j))" if j: "j \<in> alive_slots sv" "j \<noteq> i" for j
      using d(3) op own(2) ne [OF j] j(1) dropped(1) by (auto simp: same_resources_def)
    moreover have "i \<notin> alive_slots sv'" using d(1) i(1) by (simp add: alive_slots_def)
    ultimately show ?thesis using d(1,2) by auto
  next
    case (kept w1)
    then show ?thesis using idx i(1) ne own(2) by (auto simp: slot_update_def os_epoll_set_def same_resources_def)
  qed
  then show "sv_workers sv' = sv_workers sv" and "length (sv_clients sv') = length (sv_clients sv)"
    and "\<And>j. j \<noteq> i \<Longrightarrow> sv_clients sv' ! j = sv_clients sv ! j"
    and "\<And>j. j \<in> alive_slots sv \<Longrightarrow> j \<noteq> i \<Longrightarrow> w_epoll w' (c_fd (sv_clients sv ! j)) = w_epoll w (c_fd (sv_clients sv ! j))"
    and "i \<in> alive_slots sv' \<Longrightarrow> sv_clients sv' ! i = (sv_clients sv ! i)\<lparr>c_last_recv := h_now env, c_in_flight := False\<rparr>" by auto
qed

lemma next_client:
  assumes "prog_inv cfg serv F H (sv, w)" and "q_count (pool_queue sv) \<noteq> 0"
  obtains i js q where "take_client (pool_queue sv) = (event_bytes serv sv i, q)" and "queue_inv q"
    and "queue_clients q = map (event_bytes serv sv) js" and "distinct (i # js)" and "set (i # js) = marked sv"
    and "client_of_bytes (event_bytes serv sv i) = sv_clients sv ! i" and "copy_of_slot (sv_clients sv ! i) sv i"
proof -
  from assms(1) obtain "is" where qi: "queue_inv (pool_queue sv)" and is': "distinct is" "set is = marked sv"
    "queue_clients (pool_queue sv) = map (event_bytes serv sv) is" by (auto simp: prog_inv_def queued_inv_def)
  obtain x q where t: "take_client (pool_queue sv) = (x, q)" by (metis surj_pair)
  have ne: "queue_clients (pool_queue sv) \<noteq> []" using ring.is_empty_items [OF qi] assms(2) by simp
  have "queue_inv q" and items: "map (event_bytes serv sv) is = x # queue_clients q"
    using ring.deq_inv [OF qi ne] ring.deq_items [OF qi ne] t is'(3) by auto
  from items obtain i js where ij: "is = i # js" "x = event_bytes serv sv i" "queue_clients q = map (event_bytes serv sv) js"
    by (cases "is") auto
  then have "i \<in> marked sv" using is'(2) by auto
  then have i: "i \<in> alive_slots sv" "c_in_flight (sv_clients sv ! i)" by (auto simp: marked_def)
  then have eq: "(sv_clients sv ! i)\<lparr>c_in_flight := True\<rparr> = sv_clients sv ! i" by simp
  have "client_fits (sv_clients sv ! i)" using assms(1) i(1) by (auto simp: prog_inv_def clients_inv_def)
  then have "client_of_bytes (event_bytes serv sv i) = sv_clients sv ! i" unfolding event_bytes_def eq by (rule client_round_trip)
  then show ?thesis using that [of i q js] t ij is' \<open>queue_inv q\<close> i(1) by (simp add: copy_of_slot_def)
qed

text \<open>The same for the whole state: slot \<open>i\<close> is handled at time \<open>t\<close>.\<close>

definition callback_leaves :: "int \<Rightarrow> nat \<Rightarrow> server_t \<Rightarrow> os_world \<Rightarrow> server_t \<Rightarrow> os_world \<Rightarrow> bool" where
  "callback_leaves t i sv w sv' w' \<longleftrightarrow> alive_slots sv' \<subseteq> alive_slots sv \<and> alive_slots sv - {i} \<subseteq> alive_slots sv' \<and>
     (\<forall>j. j \<noteq> i \<longrightarrow> sv_clients sv' ! j = sv_clients sv ! j) \<and>
     (\<forall>j\<in>alive_slots sv. j \<noteq> i \<longrightarrow> w_epoll w' (c_fd (sv_clients sv ! j)) = w_epoll w (c_fd (sv_clients sv ! j))) \<and>
     (i \<in> alive_slots sv' \<longrightarrow> sv_clients sv' ! i = (sv_clients sv ! i)\<lparr>c_last_recv := t, c_in_flight := False\<rparr>)"

lemma callback_marked:
  assumes "callback_leaves t i sv w sv' w'"
  shows "marked sv' = marked sv - {i}"
proof (intro equalityI subsetI)
  fix j assume "j \<in> marked sv'"
  then have j: "j \<in> alive_slots sv'" "c_in_flight (sv_clients sv' ! j)" by (auto simp: marked_def)
  then have "j \<noteq> i" using assms by (auto simp: callback_leaves_def)
  with j assms show "j \<in> marked sv - {i}" by (auto simp: marked_def callback_leaves_def)
next
  fix j assume "j \<in> marked sv - {i}"
  with assms show "j \<in> marked sv'" by (auto simp: marked_def callback_leaves_def)
qed

lemma callback_clients:
  assumes "callback_leaves t i sv w sv' w'" and "clients_inv sv w" and "stamp_ok t"
  shows "clients_inv sv' w'"
  unfolding clients_inv_def
proof
  fix j assume j: "j \<in> alive_slots sv'"
  then have al: "j \<in> alive_slots sv" using assms(1) by (auto simp: callback_leaves_def)
  have ok: "client_fits (sv_clients sv ! j)" "stamp_ok (c_last_recv (sv_clients sv ! j))"
    "c_in_flight (sv_clients sv ! j) \<longrightarrow> w_epoll w (c_fd (sv_clients sv ! j)) = Some (Some j, False)"
    using assms(2) al by (auto simp: clients_inv_def)
  show "client_fits (sv_clients sv' ! j) \<and> stamp_ok (c_last_recv (sv_clients sv' ! j)) \<and>
    (c_in_flight (sv_clients sv' ! j) \<longrightarrow> w_epoll w' (c_fd (sv_clients sv' ! j)) = Some (Some j, False))"
  proof (cases "j = i")
    case True
    then have "sv_clients sv' ! j = (sv_clients sv ! j)\<lparr>c_last_recv := t, c_in_flight := False\<rparr>" using assms(1) j by (simp add: callback_leaves_def)
    with ok assms(3) show ?thesis by (simp add: client_fits_def stamp_ok_def)
  next
    case False
    then have "sv_clients sv' ! j = sv_clients sv ! j" "w_epoll w' (c_fd (sv_clients sv ! j)) = w_epoll w (c_fd (sv_clients sv ! j))"
      using assms(1) al by (simp_all add: callback_leaves_def)
    with ok show ?thesis by simp
  qed
qed

lemma work_inv:
  assumes "work env segs sv w = Inr s'" and "q_count (pool_queue sv) \<noteq> 0" and "backend_fresh env w" and "stamp_ok (h_now env)"
    and "prog_inv cfg serv F H (sv, w)"
  shows "prog_inv cfg serv F H s'"
proof -
  have inv: "server_inv F H sv w" "clients_inv sv w" using assms(5) by (auto simp: prog_inv_def)
  from assms(5,2) obtain i js q where t: "take_client (pool_queue sv) = (event_bytes serv sv i, q)" "queue_inv q"
    "queue_clients q = map (event_bytes serv sv) js" "distinct (i # js)" "set (i # js) = marked sv"
    "client_of_bytes (event_bytes serv sv i) = sv_clients sv ! i" "copy_of_slot (sv_clients sv ! i) sv i" by (rule next_client)
  obtain sv' w' where s': "s' = (sv', w')" by (cases s')
  have cb: "worker_callback env WORKER_ACTION_NEW_CLIENT (sv_clients sv ! i) segs (set_queue q sv) w = Inr (sv', w')"
    using assms(1) t(1,6) by (simp add: work_def s')
  have c: "copy_of_slot (sv_clients sv ! i) (set_queue q sv) i" and iq: "server_inv F H (set_queue q sv) w" using t(7) inv(1) by simp_all
  note e = callback_effect [OF cb iq c assms(3)] and k = callback_server [OF cb iq c assms(3)]
  have l: "callback_leaves (h_now env) i sv w sv' w'" using e k(2) by (auto simp: callback_leaves_def)
  have marked': "marked sv' = set js" using callback_marked [OF l] t(4,5) by auto
  have "map (event_bytes serv sv') js = map (event_bytes serv sv) js"
  proof (rule map_cong [OF refl])
    fix j assume "j \<in> set js"
    then have "j \<noteq> i" using t(4) by auto
    from e(3) [OF this] show "event_bytes serv sv' j = event_bytes serv sv j" by (intro event_bytes_same) simp
  qed
  moreover have "pool_queue sv' = q" using e(1) by (simp add: set_queue_def)
  ultimately have "queued_inv serv sv'" using t(2,3,4) marked' by (auto simp: queued_inv_def)
  with callback_clients [OF l inv(2) assms(4)] k(1) e(2) assms(5) show ?thesis by (simp add: prog_inv_def s')
qed


subsection \<open>Runs\<close>

lemma prog_step_keeps: "prog_step cfg serv s t \<Longrightarrow> prog_inv cfg serv F H s \<Longrightarrow> prog_inv cfg serv F H t"
proof (induction rule: prog_step.induct)
  case (Round env now clock evs sv w s')
  from round_inv [OF Round(1,2,4)] Round(3) show ?case by simp
next
  case (Interrupted env now clock sv w s')
  then show ?case by (simp add: main_round_def)
next
  case (Work sv env w segs s')
  from work_inv [OF Work(4,1-3,5)] show ?case .
qed

interpretation prog: invariant_steps "prog_step cfg serv" "prog_inv cfg serv F H" for cfg serv F H
  by unfold_locales (rule prog_step_keeps)

lemma queue_holds_marked:
  assumes "prog_inv cfg serv F H (sv, w)"
  shows "\<exists>is. distinct is \<and> set is = marked sv \<and>
    map client_of_bytes (queue_clients (pool_queue sv)) = map (\<lambda>i. sv_clients sv ! i) is"
proof -
  from assms obtain "is" where is': "distinct is" "set is = marked sv" "queue_clients (pool_queue sv) = map (event_bytes serv sv) is"
    by (auto simp: prog_inv_def queued_inv_def)
  have "client_of_bytes (event_bytes serv sv i) = sv_clients sv ! i" if "i \<in> marked sv" for i
  proof -
    have "(sv_clients sv ! i)\<lparr>c_in_flight := True\<rparr> = sv_clients sv ! i" using that by (simp add: marked_def)
    moreover have "client_fits (sv_clients sv ! i)" using that assms by (auto simp: marked_def prog_inv_def clients_inv_def)
    ultimately show ?thesis unfolding event_bytes_def by (simp add: client_round_trip)
  qed
  with is' show ?thesis by (intro exI [of _ "is"]) simp
qed

text \<open>
  C3: The server from its start to its end, for rounds and callbacks of the following kind. A round
  (\<open>round_ok\<close>) reports only armed clients, each once and none that is idle for the timeout, the queue can grow,
  \<open>accept\<close> gives new descriptors and blocks and ends with \<open>EAGAIN\<close>; a callback is one step that returns without a
  fault. After \<open>main\<close> has come up, and after any sequence of these, the queue holds the current contents of exactly
  the slots that are marked as in flight, each once; every further round of this kind returns without a fault; and the
  end of \<open>main\<close> succeeds, with the sockets, descriptors and address blocks of before the start, no more and no less, when a
  configuration file was loaded. Without one it closes descriptor 0 in addition.
\<close>

theorem server_runs_safely:
  assumes "main_start senv w0 = Inr (config, cfg, routes, sv0, w1)" and "start_fresh senv w0"
    and "(prog_step cfg serv)\<^sup>*\<^sup>* (sv0, w1) (sv, w)"
  shows "(\<exists>is. distinct is \<and> set is = marked sv \<and> map client_of_bytes (queue_clients (pool_queue sv)) = map (\<lambda>i. sv_clients sv ! i) is) \<and>
    (\<forall>env now clock evs. round_ok cfg env now clock evs sv w \<longrightarrow> n_serv env = serv \<longrightarrow>
       (\<exists>s'. main_round cfg env now clock (Some evs) sv w = Inr s')) \<and>
    (\<exists>w'. main_end config sv w = Inr w' \<and> w_open w' = (if config_loaded senv then w_open w0 else w_open w0 - {0}) \<and> w_heap w' = w_heap w0)"
proof -
  have inv: "prog_inv cfg serv (w_open (config_open senv w0)) (w_heap w0) (sv, w)" by (rule prog.run_keeps [OF assms(3) start_inv [OF assms(1,2)]])
  then have "server_inv (w_open (config_open senv w0)) (w_heap w0) sv w" by (simp add: prog_inv_def)
  from main_end_closes [OF this assms(2) main_start_config [OF assms(1)]] queue_holds_marked [OF inv] round_inv [OF _ _ inv]
  show ?thesis by blast
qed

definition boot_env :: start_env where
  "boot_env = \<lparr>z_files = (\<lambda>_. None), z_config_fd = 5, z_realloc_ok = (\<lambda>_. True), z_threads_ok = True, z_queue_ok = True, z_slots_ok = True,
     z_args_ok = (\<lambda>_. True), z_create_ok = (\<lambda>_. True), z_sock = 3, z_setopt_ok = True, z_addr = 7, z_bind_ok = True,
     z_clients_ok = True, z_epoll = 4, z_ctl_ok = True, z_stack_ok = True, z_listen_ok = True\<rparr>"

definition boot_world :: os_world where
  "boot_world = \<lparr>w_open = {0, 1, 2}, w_heap = {}, w_epoll = (\<lambda>_. None), w_nonblock = {}, w_sent = [], w_unlinked = [],
     w_timeo = (\<lambda>_. None)\<rparr>"

lemma boot_open [simp]: "\<not> config_loaded boot_env" "config_open boot_env w = w"
  by (simp_all add: config_loaded_def config_open_def boot_env_def)

lemma boot_fresh: "start_fresh boot_env boot_world"
  by (simp add: start_fresh_def) (simp add: boot_env_def boot_world_def)

lemma boot_starts:
  obtains config cfg routes sv w where "main_start boot_env boot_world = Inr (config, cfg, routes, sv, w)"
    and "set_keep_alive_timeout cfg = 75" and "w_open w = {0, 1, 2, 3, 4}" and "w_heap w = {7}"
proof -
  let ?w = "snd (bound_socket 3 7 (Inet 0 (htons 8080)) boot_world)" and ?ws = "wsys_init 8 empty_queue"
  have w: "w_open ?w = {0, 1, 2, 3}" "w_heap ?w = {7}" by (auto simp: bound_socket_def boot_world_def os_defs)
  have pool: "worker_pool_init True True True (\<lambda>_. True) (\<lambda>_. True) (8 :: 32 word) = Inr (8, ?ws)"
    by (simp add: worker_pool_init_def init_queue_def empty_queue_def Let_def list_all_iff)
  from server_init_ok [of 512 4 ?w 3 7 8 ?ws] w obtain sv w' where
    init: "server_init_common (Inr (8, ?ws)) True 4 True True 512 3 7 ?w = Inr (sv, w')" by auto
  then have w': "w' = os_epoll_set 3 None (os_open 4 ?w)" by (auto simp: server_init_common_def bind_res_Inr Let_def)
  have "init_on boot_env 512 8 (bound_socket 3 7 (Inet 0 (htons 8080)) boot_world) = Inr (sv, w')"
    using init pool by (simp add: init_on_def boot_env_def bound_socket_def)
  then have "main_start boot_env boot_world =
      Inr (config_zero, \<lparr>set_log_level = 0, set_num_workers = 8, set_max_connections = 512,
        set_keep_alive_timeout = 75, set_backend_timeout = 5, set_unix_path = None, set_port = 8080\<rparr>, [], sv, w')"
    by (simp add: main_start_def) (simp add: config_parse_def routes_parse_def default_settings server_init_http_def socket_create_http_def socket_listen_def
        boot_env_def)
  with that show ?thesis using w by (auto simp: w' os_defs)
qed

theorem server_runs_safely_witness:
  "\<exists>config cfg routes sv0 w1 sv w w'. main_start boot_env boot_world = Inr (config, cfg, routes, sv0, w1) \<and>
     main_round cfg sample_round 120 (\<lambda>_. 120) (Some [None]) sv0 w1 = Inr (sv, w) \<and>
     main_end config sv w = Inr w' \<and> w_open w' = {1, 2} \<and> w_heap w' = {}"
proof -
  obtain config cfg routes sv0 w1 where st: "main_start boot_env boot_world = Inr (config, cfg, routes, sv0, w1)"
    and w1: "w_open w1 = {0, 1, 2, 3, 4}" "w_heap w1 = {7}" by (rule boot_starts)
  have "round_ok cfg sample_round 120 (\<lambda>_. 120) [None] sv0 w1"
    using main_start_ok [OF st boot_fresh] w1
    by (simp add: round_ok_def sample_round_def sample_env_def conn_fits_def is_cstr_def stamp_ok_def)
  moreover have "n_serv sample_round = 4096" by (simp add: sample_round_def)
  moreover obtain sv w where "main_round cfg sample_round 120 (\<lambda>_. 120) (Some [None]) sv0 w1 = Inr (sv, w)"
    using server_runs_safely [OF st boot_fresh rtranclp.rtrancl_refl, of 4096] calculation by (metis surj_pair)
  ultimately have "prog_step cfg 4096 (sv0, w1) (sv, w)" and run: "main_round cfg sample_round 120 (\<lambda>_. 120) (Some [None]) sv0 w1 = Inr (sv, w)"
    by (auto intro: prog_step.Round)
  from server_runs_safely [OF st boot_fresh r_into_rtranclp [of "prog_step cfg 4096", OF this(1)]] st run
  show ?thesis by (auto simp: boot_world_def)
qed


section \<open>A race\<close>

text \<open>
  The two parts of \<open>dispatch_slot\<close>, between which the main thread waits for the lock of the queue, and the
  last part of a callback, which runs after it has armed its client again and with that lock held.
\<close>

definition mark_slot :: "nat \<Rightarrow> server_t \<Rightarrow> server_t" where
  "mark_slot i = slot_update i (\<lambda>c. c\<lparr>c_in_flight := True\<rparr>)"

definition enqueue_slot :: "nat \<Rightarrow> bool \<Rightarrow> nat \<Rightarrow> server_t \<Rightarrow> server_t res" where
  "enqueue_slot serv alloc_ok i sv =
     bind_res (dispatch_client alloc_ok (pool_queue sv) (client_bytes serv (sv_clients sv ! i))) (\<lambda>q. Inr (set_queue q sv))"

definition keep_slot :: "int \<Rightarrow> nat \<Rightarrow> server_t \<Rightarrow> server_t" where
  "keep_slot now i = slot_update i (\<lambda>c. c\<lparr>c_last_recv := now, c_in_flight := False\<rparr>)"

lemma dispatch_slot_parts:
  "i < length (sv_clients sv) \<Longrightarrow> dispatch_slot serv alloc_ok i sv = enqueue_slot serv alloc_ok i (mark_slot i sv)"
  by (simp add: dispatch_slot_def enqueue_slot_def mark_slot_def set_queue_def Let_def)

lemma keep_after_mark:
  assumes "i < length (sv_clients sv)"
  shows "keep_slot now i (mark_slot i sv) = keep_slot now i sv"
  using assms by (simp add: keep_slot_def mark_slot_def slot_update_def)

text \<open>
  C39: A callback arms its client again before it takes back the mark. When the next request is
  reported in between, the main thread sets the mark, the callback clears it, and the main thread
  queues the client: it now waits in the queue unmarked. If it waits for the keep-alive timeout, the
  sweep removes it, and a callback that finds the connection closed frees its block a second time.
\<close>

theorem rearm_race:
  assumes "server_inv F H sv w" and "i \<in> alive_slots sv" and "queue_inv (pool_queue sv)" and "length (queue_clients (pool_queue sv)) < 2 ^ 30"
    and "client_fits ((sv_clients sv ! i)\<lparr>c_last_recv := now, c_in_flight := False\<rparr>)" and "nat (set_max_connections cfg) = length (sv_clients sv)"
    and "set_keep_alive_timeout cfg \<le> clock i - now" and "h_malloc_ok henv 4096"
  shows "\<exists>sv' sv'' w'' bytes. enqueue_slot serv True i (keep_slot now i (mark_slot i sv)) = Inr sv' \<and> i \<in> alive_slots sv' \<and> i \<notin> marked sv' \<and>
    queue_clients (pool_queue sv') = queue_clients (pool_queue sv) @ [bytes] \<and>
    main_round cfg env later clock (Some []) sv' w = Inr (sv'', w'') \<and> i \<notin> alive_slots sv'' \<and>
    worker_callback henv WORKER_ACTION_NEW_CLIENT (client_of_bytes bytes) [] sv'' w'' = Inl Undefined"
proof -
  define c where "c = (sv_clients sv ! i)\<lparr>c_last_recv := now, c_in_flight := False\<rparr>"
  have lt: "i < length (sv_clients sv)" using assms(2) by (simp add: alive_slots_def)
  have k: "keep_slot now i (mark_slot i sv) = sv\<lparr>sv_clients := (sv_clients sv)[i := c]\<rparr>"
    unfolding keep_after_mark [OF lt] by (simp add: keep_slot_def slot_update_def c_def)
  from dispatch_client_ok [OF assms(3,4), of c serv] obtain q where
    q: "dispatch_client True (pool_queue sv) (client_bytes serv c) = Inr q" "queue_clients q = queue_clients (pool_queue sv) @ [client_bytes serv c]"
    using assms(5) by (auto simp: c_def)
  define sv' where "sv' = set_queue q (keep_slot now i (mark_slot i sv))"
  have sv': "enqueue_slot serv True i (keep_slot now i (mark_slot i sv)) = Inr sv'" "sv_clients sv' = (sv_clients sv)[i := c]" "pool_queue sv' = q"
    using lt q(1) by (simp_all add: enqueue_slot_def sv'_def k)
  have inv: "server_inv F H sv' w" using touch_inv [OF assms(1) lt, where t = now and b = False] by (simp add: sv'_def k c_def)
  have al: "i \<in> alive_slots sv'" "i \<notin> marked sv'" using assms(2) lt sv'(2) by (auto simp: alive_slots_def marked_def c_def)
  have ex: "expired (set_keep_alive_timeout cfg) clock sv' i" using al(1) lt sv'(2) assms(7) by (simp add: expired_def c_def)
  from sweep_ok [OF inv, of "set_max_connections cfg" "set_keep_alive_timeout cfg" clock later] ex obtain oldest sv'' w'' where
    s: "sweep (set_keep_alive_timeout cfg) clock (set_max_connections cfg) later sv' w = Inr (oldest, sv'', w'')"
      "i \<notin> alive_slots sv''" "c_address (sv_clients sv' ! i) \<notin> w_heap w''"
    using assms(6) sv'(2) by auto
  have "c_address (sv_clients sv' ! i) \<noteq> 0"
    using inv al(1) by (auto simp: server_inv_def owns_inv_def client_blocks_def)
  then have "worker_callback henv WORKER_ACTION_NEW_CLIENT c [] sv'' w'' = Inl Undefined"
    using s(3) lt sv'(2) assms(8) by (intro stale_callback_undefined) simp_all
  moreover have "client_of_bytes (client_bytes serv c) = c" using assms(5) by (intro client_round_trip) (simp add: c_def)
  moreover have "main_round cfg env later clock (Some []) sv' w = Inr (sv'', w'')" using s(1) by (simp add: main_round_def)
  ultimately show ?thesis using sv' al s(2) q(2) by auto
qed

theorem rearm_race_witness:
  "\<exists>sv' sv'' w'' bytes. enqueue_slot 4096 True 0 (keep_slot 100 0 (mark_slot 0 full_server)) = Inr sv' \<and>
     queue_clients (pool_queue sv') = [bytes] \<and>
     main_round sample_settings sample_round 200 (\<lambda>_. 200) (Some []) sv' full_world = Inr (sv'', w'') \<and>
     worker_callback site_env WORKER_ACTION_NEW_CLIENT (client_of_bytes bytes) [] sv'' w'' = Inl Undefined"
proof -
  have "client_fits ((sv_clients full_server ! 0)\<lparr>c_last_recv := 100, c_in_flight := False\<rparr>)"
    by (simp add: client_fits_def full_server_def)
  then show ?thesis
    using rearm_race [OF full_inv, of 0 100 sample_settings "\<lambda>_. 200" site_env 4096 sample_round 200] full_alive full_slots full_pool empty_queue_inv
    by (auto simp: sample_settings_def site_env_def)
qed

end
