(* ===== verification/Cpool.thy ===== *)
theory Cpool
  imports Foxtails_Prelude
begin

text \<open>
  The arena allocator \<open>include/cpool.h\<close>: a chain of equal blocks that are filled from the front, a
  chain of large blocks, and a stack of snapshots to which the arena can be taken back. The
  chains are lists, a block is named by its place in the chain (blocks are only ever appended
  to it), a large block by the pointer \<open>malloc\<close> gave. Sizes are far below the range of \<open>size_t\<close>.
\<close>

unbundle bit_operations_syntax

section \<open>State\<close>

record cpool_block =
  b_head :: nat
  b_full :: bool

text \<open>\<open>sn_current\<close> and \<open>sn_large\<close> are \<open>None\<close> for a null pointer.\<close>

record cpool_snapshot =
  sn_head :: nat
  sn_full :: bool
  sn_current :: "nat option"
  sn_last :: nat
  sn_large :: "nat option"

record cpool =
  cp_blocks :: "cpool_block list"
  cp_current :: "nat option"
  cp_last :: nat
  cp_block_size :: nat
  cp_large :: "nat list"
  cp_large_last :: "nat option"
  cp_snapshots :: "cpool_snapshot list"

definition CPOOL_MAX_SAVE_DEPTH :: nat where "CPOOL_MAX_SAVE_DEPTH = 8"

text \<open>Where an allocation lies: in a block at an offset, or in a large block of its own.\<close>

datatype place = In_block nat nat | Large nat

section \<open>Allocation\<close>

definition zero_block :: cpool_block where
  "zero_block = \<lparr>b_head = 0, b_full = False\<rparr>"

text \<open>
  \<open>__append_block\<close>: the new block becomes the successor of \<open>last\<close>. \<open>None\<close> when \<open>malloc\<close> fails, which
  leaves \<open>last\<close> without a successor.
\<close>

definition append_block :: "bool \<Rightarrow> cpool \<Rightarrow> bool \<times> cpool" where
  "append_block malloc_ok p =
     (let chain = take (cp_last p + 1) (cp_blocks p)
      in if \<not> malloc_ok then (False, p\<lparr>cp_blocks := chain\<rparr>)
         else (True, p\<lparr>cp_blocks := chain @ [zero_block], cp_last := length chain, cp_current := Some (length chain)\<rparr>))"

text \<open>
  \<open>__alloc_large_block\<close>: \<open>node_ok\<close> and \<open>data\<close> are the results of the two calls of \<open>malloc\<close> (0 is null).
  The node is linked behind \<open>large_last\<close>; with blocks but no \<open>large_last\<close> it would be linked
  through a null pointer.
\<close>

definition alloc_large_block :: "bool \<Rightarrow> nat \<Rightarrow> cpool \<Rightarrow> (place option \<times> cpool) res" where
  "alloc_large_block node_ok data p =
     (case (cp_large p, cp_large_last p) of
        (_ # _, None) \<Rightarrow> Inl Undefined
      | (large, llast) \<Rightarrow>
          let chain = (if large = [] then [] else take (the llast + 1) large)
          in if \<not> node_ok \<or> data = 0 then Inr (None, p\<lparr>cp_large := chain\<rparr>)
             else Inr (Some (Large data), p\<lparr>cp_large := chain @ [data], cp_large_last := Some (length chain)\<rparr>))"

text \<open>\<open>current->next\<close>.\<close>

definition next_block :: "cpool \<Rightarrow> nat \<Rightarrow> nat option" where
  "next_block p c = (if c + 1 < length (cp_blocks p) then Some (c + 1) else None)"

definition set_block :: "nat \<Rightarrow> (cpool_block \<Rightarrow> cpool_block) \<Rightarrow> cpool \<Rightarrow> cpool" where
  "set_block c f p = p\<lparr>cp_blocks := (cp_blocks p)[c := f (cp_blocks p ! c)]\<rparr>"

text \<open>The block that the allocation will be taken from; \<open>None\<close>: a new block was needed and not to be had.\<close>

definition room_for :: "bool \<Rightarrow> nat \<Rightarrow> cpool \<Rightarrow> bool \<times> cpool" where
  "room_for malloc_ok sz p =
     (case cp_current p of
        None \<Rightarrow> append_block malloc_ok p
      | Some c \<Rightarrow>
          if b_head (cp_blocks p ! c) + sz > cp_block_size p then
            (case next_block p c of
               Some d \<Rightarrow> (True, p\<lparr>cp_current := Some d\<rparr>)
             | None \<Rightarrow> append_block malloc_ok p)
          else (True, p))"

text \<open>What \<open>malloc\<close> answers to an allocation: for a new block, for the node and the data of a large block.\<close>

record malloc_env =
  ml_block :: bool
  ml_node :: bool
  ml_data :: nat

definition palloc :: "malloc_env \<Rightarrow> nat \<Rightarrow> cpool \<Rightarrow> (place option \<times> cpool) res" where
  "palloc env sz p =
     (if sz = 0 then Inl Assert_fail
      else if sz > cp_block_size p then alloc_large_block (ml_node env) (ml_data env) p
      else let (ok, p1) = room_for (ml_block env) sz p
           in if \<not> ok then Inr (None, p1)
              else let c = the (cp_current p1);
                       h = b_head (cp_blocks p1 ! c);
                       p2 = set_block c (\<lambda>b. b\<lparr>b_head := h + sz\<rparr>) p1;
                       p3 = (if h + sz = cp_block_size p
                             then (set_block c (\<lambda>b. b\<lparr>b_full := True\<rparr>) p2)\<lparr>cp_current := next_block p2 c\<rparr>
                             else p2)
                   in Inr (Some (In_block c h), p3))"

text \<open>\<open>pcalloc\<close>: the test for overflow of the product, then the cleared allocation.\<close>

definition pcalloc :: "malloc_env \<Rightarrow> nat \<Rightarrow> nat \<Rightarrow> cpool \<Rightarrow> (place option \<times> cpool) res" where
  "pcalloc env num sz p =
     (if num \<noteq> 0 \<and> sz > (2 ^ 64 - 1) div num then Inr (None, p) else palloc env (sz * num) p)"

definition cpool_init :: "bool \<Rightarrow> bool \<Rightarrow> nat \<Rightarrow> cpool option" where
  "cpool_init pool_ok block_ok block_size =
     (if \<not> pool_ok \<or> \<not> block_ok then None
      else Some \<lparr>cp_blocks = [zero_block], cp_current = Some 0, cp_last = 0, cp_block_size = block_size,
                 cp_large = [], cp_large_last = None, cp_snapshots = []\<rparr>)"

text \<open>\<open>cpool_align\<close>; the result is whether it returned 0. The rounding is the one of \<open>size_t\<close>.\<close>

definition align_up :: "nat \<Rightarrow> nat \<Rightarrow> nat" where
  "align_up h align = unat ((of_nat h + of_nat align - 1 :: 64 word) AND NOT (of_nat align - 1))"

definition cpool_align :: "bool \<Rightarrow> bool \<Rightarrow> nat \<Rightarrow> cpool \<Rightarrow> (bool \<times> cpool) res" where
  "cpool_align first_ok second_ok align p =
     (if \<not> (0 < align \<and> (of_nat align :: 64 word) AND (of_nat align - 1) = 0) then Inl Assert_fail
      else let (ok, p1) = (case cp_current p of None \<Rightarrow> append_block first_ok p | Some _ \<Rightarrow> (True, p))
           in if \<not> ok then Inr (False, p1)
              else let c = the (cp_current p1);
                       h = align_up (b_head (cp_blocks p1 ! c)) align;
                       p2 = set_block c (\<lambda>b. b\<lparr>b_head := h\<rparr>) p1
                   in if h \<ge> cp_block_size p
                      then Inr (append_block second_ok (set_block c (\<lambda>b. b\<lparr>b_full := True\<rparr>) p2))
                      else Inr (True, p2))"

section \<open>Snapshots\<close>

definition cpool_save :: "cpool \<Rightarrow> cpool res" where
  "cpool_save p =
     (if length (cp_snapshots p) \<ge> CPOOL_MAX_SAVE_DEPTH then Inl Assert_fail
      else let c = (case cp_current p of Some c \<Rightarrow> c | None \<Rightarrow> cp_last p)
           in Inr (p\<lparr>cp_snapshots := cp_snapshots p @
                 [\<lparr>sn_head = b_head (cp_blocks p ! c), sn_full = b_full (cp_blocks p ! c), sn_current = cp_current p,
                   sn_last = cp_last p, sn_large = cp_large_last p\<rparr>]\<rparr>))"

text \<open>The number of large blocks up to a node, none for the null pointer.\<close>

definition large_count :: "nat option \<Rightarrow> nat" where
  "large_count l = (case l of None \<Rightarrow> 0 | Some k \<Rightarrow> k + 1)"

text \<open>
  \<open>cpool_restore\<close>: the block of the snapshot gets its head back, the blocks behind it are emptied, the
  large blocks behind the snapshot are freed, and \<open>last\<close> is moved to the end of the chain.
\<close>

definition cpool_restore :: "cpool \<Rightarrow> cpool res" where
  "cpool_restore p =
     (if cp_snapshots p = [] then Inl Assert_fail
      else let sn = last (cp_snapshots p);
               b = (case sn_current sn of Some c \<Rightarrow> c | None \<Rightarrow> sn_last sn)
           in Inr (p\<lparr>cp_snapshots := butlast (cp_snapshots p),
                     cp_blocks := take b (cp_blocks p) @ [\<lparr>b_head = sn_head sn, b_full = sn_full sn\<rparr>]
                       @ replicate (length (cp_blocks p) - (b + 1)) zero_block,
                     cp_current := Some b, cp_last := length (cp_blocks p) - 1,
                     cp_large := take (large_count (sn_large sn)) (cp_large p), cp_large_last := sn_large sn\<rparr>))"

definition cpool_reset :: "cpool \<Rightarrow> cpool" where
  "cpool_reset p = p\<lparr>cp_blocks := replicate (length (cp_blocks p)) zero_block, cp_current := Some 0,
     cp_last := length (cp_blocks p) - 1, cp_large := [], cp_large_last := None, cp_snapshots := []\<rparr>"

section \<open>Live allocations\<close>

text \<open>
  The position of the arena: the block it fills and how far. An allocation of \<open>n\<close> bytes is before a
  position when it lies in an earlier block or ends at or before it.
\<close>

definition front :: "cpool \<Rightarrow> nat" where
  "front p = (case cp_current p of Some c \<Rightarrow> c | None \<Rightarrow> cp_last p)"

definition pos :: "cpool \<Rightarrow> nat \<times> nat" where
  "pos p = (front p, b_head (cp_blocks p ! front p))"

definition pos_le :: "nat \<times> nat \<Rightarrow> nat \<times> nat \<Rightarrow> bool" where
  "pos_le a b \<longleftrightarrow> fst a < fst b \<or> fst a = fst b \<and> snd a \<le> snd b"

fun before_pos :: "nat \<times> nat \<Rightarrow> place \<times> nat \<Rightarrow> bool" where
  "before_pos q (In_block i off, n) \<longleftrightarrow> i < fst q \<or> i = fst q \<and> off + n \<le> snd q"
| "before_pos q (Large d, n) = True"

fun apart :: "place \<times> nat \<Rightarrow> place \<times> nat \<Rightarrow> bool" where
  "apart (In_block i off, n) (In_block j off', n') \<longleftrightarrow> i \<noteq> j \<or> off + n \<le> off' \<or> off' + n' \<le> off"
| "apart (Large d, n) (Large d', n') \<longleftrightarrow> d \<noteq> d'"
| "apart _ _ = True"

fun inside :: "nat \<Rightarrow> place \<times> nat \<Rightarrow> bool" where
  "inside bs (In_block i off, n) \<longleftrightarrow> off + n \<le> bs"
| "inside bs (Large d, n) = True"

fun large_of :: "(place \<times> nat) list \<Rightarrow> nat list" where
  "large_of [] = []"
| "large_of ((Large d, n) # rs) = d # large_of rs"
| "large_of ((In_block i off, n) # rs) = large_of rs"

text \<open>The chain: \<open>last\<close> is its end, and behind the block that is being filled all blocks are empty.\<close>

definition chain_inv :: "cpool \<Rightarrow> bool" where
  "chain_inv p \<longleftrightarrow> cp_blocks p \<noteq> [] \<and> cp_last p = length (cp_blocks p) - 1 \<and> front p < length (cp_blocks p) \<and>
     (\<forall>i. front p < i \<and> i < length (cp_blocks p) \<longrightarrow> b_head (cp_blocks p ! i) = 0) \<and>
     large_count (cp_large_last p) = length (cp_large p)"

text \<open>The allocations that are alive, oldest first: inside their blocks, before the position, pairwise apart.\<close>

definition live_inv :: "cpool \<Rightarrow> (place \<times> nat) list \<Rightarrow> bool" where
  "live_inv p live \<longleftrightarrow> (\<forall>r\<in>set live. before_pos (pos p) r \<and> inside (cp_block_size p) r) \<and>
     sorted_wrt apart live \<and> large_of live = cp_large p"

text \<open>
  A snapshot with the number of allocations that were alive when it was taken: they are before its
  position. Snapshots are ordered by position.
\<close>

definition snap_pos :: "cpool_snapshot \<Rightarrow> nat \<times> nat" where
  "snap_pos sn = ((case sn_current sn of Some c \<Rightarrow> c | None \<Rightarrow> sn_last sn), sn_head sn)"

fun snaps_inv :: "(place \<times> nat) list \<Rightarrow> nat list \<Rightarrow> (cpool_snapshot \<times> nat) list \<Rightarrow> nat \<times> nat \<Rightarrow> bool" where
  "snaps_inv live large [] q = True"
| "snaps_inv live large ((sn, m) # sns) q \<longleftrightarrow>
     m \<le> length live \<and> pos_le (snap_pos sn) q \<and> (\<forall>r\<in>set (take m live). before_pos (snap_pos sn) r) \<and>
     large_of (take m live) = take (large_count (sn_large sn)) large \<and> large_count (sn_large sn) \<le> length large \<and>
     snaps_inv (take m live) (take (large_count (sn_large sn)) large) sns (snap_pos sn)"

definition pool_inv :: "cpool \<Rightarrow> (place \<times> nat) list \<Rightarrow> nat list \<Rightarrow> bool" where
  "pool_inv p live marks \<longleftrightarrow> chain_inv p \<and> live_inv p live \<and> length marks = length (cp_snapshots p) \<and>
     snaps_inv live (cp_large p) (zip (rev (cp_snapshots p)) marks) (pos p)"

lemma pos_le_refl [simp]: "pos_le q q"
  by (simp add: pos_le_def)

lemma pos_le_trans: "pos_le a b \<Longrightarrow> pos_le b c \<Longrightarrow> pos_le a c"
  by (auto simp: pos_le_def)

lemma before_pos_mono: "before_pos a r \<Longrightarrow> pos_le a b \<Longrightarrow> before_pos b r"
  by (cases "(a, r)" rule: before_pos.cases) (auto simp: pos_le_def)

lemma large_of_append [simp]: "large_of (xs @ ys) = large_of xs @ large_of ys"
  by (induction xs rule: large_of.induct) auto

lemma snaps_inv_mono:
  assumes "snaps_inv live large sns q" and "pos_le q q'"
  shows "snaps_inv (live @ rs) (large @ ds) sns q'"
  using assms by (cases sns) (auto intro: pos_le_trans)

section \<open>Steps of an allocation\<close>

lemma append_block_ok:
  assumes "chain_inv p" and "append_block True p = (ok, p')"
  shows "ok" and "chain_inv p'" and "cp_blocks p' = cp_blocks p @ [zero_block]" and "cp_current p' = Some (length (cp_blocks p))"
    and "pos p' = (length (cp_blocks p), 0)" and "pos_le (pos p) (pos p')"
    and "cp_large p' = cp_large p" and "cp_large_last p' = cp_large_last p" and "cp_snapshots p' = cp_snapshots p" and "cp_block_size p' = cp_block_size p"
proof -
  have last: "take (cp_last p + 1) (cp_blocks p) = cp_blocks p" using assms(1) by (simp add: chain_inv_def)
  have "p' = p\<lparr>cp_blocks := cp_blocks p @ [zero_block], cp_last := length (cp_blocks p), cp_current := Some (length (cp_blocks p))\<rparr>" "ok"
    using assms(2) unfolding append_block_def last by (simp_all add: Let_def)
  then show "ok" "chain_inv p'" "cp_blocks p' = cp_blocks p @ [zero_block]" "cp_current p' = Some (length (cp_blocks p))"
    "pos p' = (length (cp_blocks p), 0)" "pos_le (pos p) (pos p')"
    "cp_large p' = cp_large p" "cp_large_last p' = cp_large_last p" "cp_snapshots p' = cp_snapshots p" "cp_block_size p' = cp_block_size p"
    using assms(1) by (auto simp: chain_inv_def pos_def pos_le_def front_def zero_block_def nth_append)
qed

lemma append_block_fail: "chain_inv p \<Longrightarrow> append_block False p = (False, p)"
  by (simp add: append_block_def chain_inv_def)

lemma append_block_cases:
  assumes "chain_inv p" and "append_block mok p = (ok, p')"
  shows "chain_inv p' \<and> pos_le (pos p) (pos p') \<and> cp_large p' = cp_large p \<and> cp_large_last p' = cp_large_last p \<and>
    cp_snapshots p' = cp_snapshots p \<and> cp_block_size p' = cp_block_size p \<and> length (cp_blocks p) \<le> length (cp_blocks p') \<and>
    (ok \<longrightarrow> (\<exists>c. cp_current p' = Some c \<and> b_head (cp_blocks p' ! c) = 0)) \<and> (\<not> ok \<longrightarrow> p' = p)"
proof (cases mok)
  case True
  with assms(2) have "append_block True p = (ok, p')" by simp
  from append_block_ok [OF assms(1) this] show ?thesis by (auto simp: zero_block_def)
next
  case False
  with assms append_block_fail [OF assms(1)] show ?thesis by simp
qed

lemma room_for_cases:
  assumes "chain_inv p" and "room_for mok n p = (ok, p')" and "n \<le> cp_block_size p"
  shows "chain_inv p' \<and> pos_le (pos p) (pos p') \<and> cp_large p' = cp_large p \<and> cp_large_last p' = cp_large_last p \<and>
    cp_snapshots p' = cp_snapshots p \<and> cp_block_size p' = cp_block_size p \<and> length (cp_blocks p) \<le> length (cp_blocks p') \<and>
    (ok \<longrightarrow> (\<exists>c. cp_current p' = Some c \<and> b_head (cp_blocks p' ! c) + n \<le> cp_block_size p)) \<and> (\<not> ok \<longrightarrow> p' = p)"
proof (cases "cp_current p")
  case None
  with assms(2) have "append_block mok p = (ok, p')" by (simp add: room_for_def)
  from append_block_cases [OF assms(1) this] assms(3) show ?thesis by auto
next
  case (Some c)
  show ?thesis
  proof (cases "b_head (cp_blocks p ! c) + n > cp_block_size p")
    case False
    with Some assms(1,2) show ?thesis by (auto simp: room_for_def)
  next
    case True
    show ?thesis
    proof (cases "c + 1 < length (cp_blocks p)")
      case False
      with True Some assms(2) have "append_block mok p = (ok, p')" by (simp add: room_for_def next_block_def)
      from append_block_cases [OF assms(1) this] assms(3) show ?thesis by auto
    next
      case nxt: True
      with True Some assms(2) have "ok" "p' = p\<lparr>cp_current := Some (c + 1)\<rparr>" by (simp_all add: room_for_def next_block_def)
      moreover have "b_head (cp_blocks p ! (c + 1)) = 0" using assms(1) Some nxt by (simp add: chain_inv_def front_def)
      ultimately show ?thesis
        using assms(1,3) Some nxt by (auto simp: chain_inv_def pos_def pos_le_def front_def)
    qed
  qed
qed

text \<open>The part of \<open>palloc\<close> behind the choice of the block.\<close>

lemma take_from_block:
  assumes "chain_inv p" and "cp_current p = Some c" and "0 < n"
    and "p2 = set_block c (\<lambda>b. b\<lparr>b_head := b_head (cp_blocks p ! c) + n\<rparr>) p"
    and "p3 = (if b_head (cp_blocks p ! c) + n = cp_block_size p
      then (set_block c (\<lambda>b. b\<lparr>b_full := True\<rparr>) p2)\<lparr>cp_current := next_block p2 c\<rparr> else p2)"
  shows "chain_inv p3 \<and> pos_le (c, b_head (cp_blocks p ! c) + n) (pos p3) \<and> pos p = (c, b_head (cp_blocks p ! c)) \<and>
    cp_large p3 = cp_large p \<and> cp_large_last p3 = cp_large_last p \<and>
    cp_snapshots p3 = cp_snapshots p \<and> cp_block_size p3 = cp_block_size p \<and> length (cp_blocks p3) = length (cp_blocks p)"
proof -
  have c: "c < length (cp_blocks p)" "cp_last p = length (cp_blocks p) - 1" "\<forall>i. c < i \<and> i < length (cp_blocks p) \<longrightarrow> b_head (cp_blocks p ! i) = 0"
    "cp_blocks p \<noteq> []" "large_count (cp_large_last p) = length (cp_large p)"
    using assms(1,2) by (auto simp: chain_inv_def front_def)
  show ?thesis
  proof (cases "b_head (cp_blocks p ! c) + n = cp_block_size p")
    case False
    then show ?thesis using c assms(2) by (auto simp: assms(4,5) set_block_def chain_inv_def front_def pos_def nth_list_update)
  next
    case True
    then show ?thesis
      using c assms(2) by (auto simp: assms(4,5) set_block_def next_block_def chain_inv_def front_def pos_def pos_le_def nth_list_update)
  qed
qed


lemma large_cases:
  assumes "chain_inv p" and "alloc_large_block node data p = r"
  shows "r = Inr (None, p) \<or> data \<noteq> 0 \<and>
    r = Inr (Some (Large data), p\<lparr>cp_large := cp_large p @ [data], cp_large_last := Some (length (cp_large p))\<rparr>)"
proof -
  have eq: "p\<lparr>cp_large := cp_large p\<rparr> = p" by simp
  show ?thesis
  proof (cases "cp_large p")
    case Nil
    with assms(1) have "cp_large_last p = None" by (simp add: chain_inv_def large_count_def split: option.splits)
    with Nil assms(2) eq show ?thesis by (auto simp: alloc_large_block_def Let_def split: if_splits)
  next
    case (Cons d ds)
    with assms(1) have "cp_large_last p = Some (length ds)" by (auto simp: chain_inv_def large_count_def split: option.splits)
    with Cons assms(2) eq show ?thesis by (auto simp: alloc_large_block_def Let_def split: if_splits)
  qed
qed

text \<open>Bounds that keep every sum of the code inside \<open>size_t\<close>.\<close>

definition heads_inv :: "cpool \<Rightarrow> bool" where
  "heads_inv p \<longleftrightarrow> cp_block_size p < 2 ^ 63 \<and> (\<forall>b\<in>set (cp_blocks p). b_head b \<le> 2 ^ 63) \<and>
     (\<forall>sn\<in>set (cp_snapshots p). sn_head sn \<le> 2 ^ 63)"

lemma heads_inv_update:
  "heads_inv p \<Longrightarrow> \<forall>b. b_head (f b) \<le> 2 ^ 63 \<Longrightarrow> heads_inv (set_block c f p)"
  using set_update_subset_insert by (fastforce simp: heads_inv_def set_block_def)

lemma heads_inv_full: "heads_inv p \<Longrightarrow> heads_inv (set_block c (\<lambda>b. b\<lparr>b_full := True\<rparr>) p)"
  by (cases "c < length (cp_blocks p)")
    (auto simp: heads_inv_def set_block_def list_update_beyond dest!: subsetD [OF set_update_subset_insert])

lemma heads_inv_append_block: "heads_inv p \<Longrightarrow> append_block mok p = (ok, p') \<Longrightarrow> heads_inv p'"
  by (auto simp: append_block_def heads_inv_def zero_block_def Let_def dest!: in_set_takeD split: if_splits)

lemma heads_inv_room_for: "heads_inv p \<Longrightarrow> room_for mok n p = (ok, p') \<Longrightarrow> heads_inv p'"
  by (auto simp: room_for_def intro: heads_inv_append_block split: option.splits if_splits) (auto simp: heads_inv_def)


section \<open>Every operation keeps the invariant\<close>

text \<open>The large blocks of the live allocations, and what a new one must be apart from.\<close>

lemma front_large [simp]: "front (p\<lparr>cp_large := ds, cp_large_last := l\<rparr>) = front p"
  by (simp add: front_def split: option.split)

lemma apart_new_block:
  "\<forall>r\<in>set live. before_pos (c, h) r \<Longrightarrow> \<forall>r\<in>set live. apart r (In_block c h, n)"
proof
  fix r assume "\<forall>r\<in>set live. before_pos (c, h) r" and "r \<in> set live"
  then have "before_pos (c, h) r" by blast
  then show "apart r (In_block c h, n)" by (cases "((c, h), r)" rule: before_pos.cases) auto
qed

lemma apart_new_large: "d \<notin> set (large_of live) \<Longrightarrow> \<forall>r\<in>set live. apart r (Large d, n)"
  by (induction live rule: large_of.induct) auto

text \<open>
  A state that lies further on: the relation of an arena to what allocations and alignments make of it.
\<close>

definition ahead :: "cpool \<Rightarrow> cpool \<Rightarrow> bool" where
  "ahead p p' \<longleftrightarrow> chain_inv p' \<and> pos_le (pos p) (pos p') \<and> cp_snapshots p' = cp_snapshots p \<and> cp_block_size p' = cp_block_size p \<and>
     length (cp_blocks p) \<le> length (cp_blocks p')"

lemma ahead_trans: "ahead p q \<Longrightarrow> ahead q r \<Longrightarrow> ahead p r"
  by (auto simp: ahead_def intro: pos_le_trans)

lemma pool_inv_forward:
  assumes "pool_inv p live marks" and "ahead p p'" and "cp_large p' = cp_large p"
  shows "pool_inv p' live marks"
  using assms snaps_inv_mono [of live "cp_large p" _ "pos p" "pos p'" "[]" "[]"] before_pos_mono [of "pos p" _ "pos p'"]
  by (auto simp: pool_inv_def live_inv_def ahead_def)

lemma pool_inv_extend:
  assumes "pool_inv p live marks" and "ahead p p'" and "cp_large p' = cp_large p @ large_of [r]"
    and "before_pos (pos p') r" and "inside (cp_block_size p) r" and "\<forall>s\<in>set live. apart s r"
  shows "pool_inv p' (live @ [r]) marks"
  using assms snaps_inv_mono [of live "cp_large p" _ "pos p" "pos p'" "[r]" "large_of [r]"] before_pos_mono [of "pos p" _ "pos p'"]
  by (auto simp: pool_inv_def live_inv_def sorted_wrt_append ahead_def)

text \<open>Where \<open>palloc\<close> takes the memory from.\<close>

fun taken :: "malloc_env \<Rightarrow> nat \<Rightarrow> cpool \<Rightarrow> cpool \<Rightarrow> place option \<Rightarrow> bool" where
  "taken env n p p' None \<longleftrightarrow> cp_large p' = cp_large p"
| "taken env n p p' (Some (Large d)) \<longleftrightarrow> d = ml_data env \<and> cp_large p' = cp_large p @ [d]"
| "taken env n p p' (Some (In_block c h)) \<longleftrightarrow>
     cp_large p' = cp_large p \<and> pos_le (pos p) (c, h) \<and> pos_le (c, h + n) (pos p') \<and> h + n \<le> cp_block_size p"

lemma palloc_taken:
  assumes "chain_inv p" and "0 < n"
  shows "\<exists>r p'. palloc env n p = Inr (r, p') \<and> ahead p p' \<and> taken env n p p' r"
proof (cases "n > cp_block_size p")
  case True
  let ?p' = "p\<lparr>cp_large := cp_large p @ [ml_data env], cp_large_last := Some (length (cp_large p))\<rparr>"
  have "ahead p ?p'" "ahead p p" using assms(1) by (auto simp: ahead_def chain_inv_def pos_def large_count_def)
  with large_cases [OF assms(1) refl, of "ml_node env" "ml_data env"] True assms(2) show ?thesis by (auto simp: palloc_def)
next
  case False
  obtain ok p1 where rf: "room_for (ml_block env) n p = (ok, p1)" by (metis surj_pair)
  have r: "ahead p p1" "cp_large p1 = cp_large p" "cp_block_size p1 = cp_block_size p"
    "ok \<longrightarrow> (\<exists>c. cp_current p1 = Some c \<and> b_head (cp_blocks p1 ! c) + n \<le> cp_block_size p)"
    using room_for_cases [OF assms(1) rf] False by (auto simp: ahead_def)
  show ?thesis
  proof (cases ok)
    case False': False
    with False assms(2) rf r(1,2) show ?thesis by (auto simp: palloc_def)
  next
    case True
    then obtain c where c: "cp_current p1 = Some c" "b_head (cp_blocks p1 ! c) + n \<le> cp_block_size p" using r(4) by blast
    define h where "h = b_head (cp_blocks p1 ! c)"
    define p2 where "p2 = set_block c (\<lambda>b. b\<lparr>b_head := h + n\<rparr>) p1"
    define p3 where "p3 = (if h + n = cp_block_size p1
      then (set_block c (\<lambda>b. b\<lparr>b_full := True\<rparr>) p2)\<lparr>cp_current := next_block p2 c\<rparr> else p2)"
    have eq: "palloc env n p = Inr (Some (In_block c h), p3)"
      using False assms(2) rf True c(1) r(3) by (simp add: palloc_def Let_def h_def p2_def p3_def)
    have ch1: "chain_inv p1" using r(1) by (simp add: ahead_def)
    note t = take_from_block [OF ch1 c(1) assms(2) p2_def [unfolded h_def] p3_def [unfolded h_def], folded h_def]
    have "ahead p1 p3" using t by (auto simp: ahead_def pos_le_def)
    moreover have "taken env n p p3 (Some (In_block c h))" using t r(1,2) c(2) h_def by (auto simp: ahead_def)
    ultimately show ?thesis using eq ahead_trans [OF r(1)] by blast
  qed
qed

lemma palloc_inv:
  assumes "pool_inv p live marks" and "0 < n" and "ml_data env \<notin> set (cp_large p)"
  shows "\<exists>r p'. palloc env n p = Inr (r, p') \<and>
    (case r of None \<Rightarrow> pool_inv p' live marks | Some pl \<Rightarrow> pool_inv p' (live @ [(pl, n)]) marks)"
proof -
  have ch: "chain_inv p" and lo: "large_of live = cp_large p" and bef: "\<forall>r\<in>set live. before_pos (pos p) r"
    using assms(1) by (auto simp: pool_inv_def live_inv_def)
  from palloc_taken [OF ch assms(2)] obtain r p' where r: "palloc env n p = Inr (r, p')" "ahead p p'" "taken env n p p' r" by blast
  show ?thesis
  proof (cases r)
    case None
    with r pool_inv_forward [OF assms(1) r(2)] show ?thesis by auto
  next
    case (Some pl)
    have "pool_inv p' (live @ [(pl, n)]) marks"
    proof (cases pl)
      case (Large d)
      with Some r lo apart_new_large [of d live n] assms(3) show ?thesis by (intro pool_inv_extend [OF assms(1) r(2)]) auto
    next
      case (In_block c h)
      with Some r have "pos_le (pos p) (c, h)" by simp
      then have "\<forall>s\<in>set live. apart s (In_block c h, n)" using bef by (intro apart_new_block) (blast intro: before_pos_mono)
      with In_block Some r show ?thesis by (intro pool_inv_extend [OF assms(1) r(2)]) (auto simp: pos_le_def)
    qed
    with Some r show ?thesis by auto
  qed
qed

lemma palloc_heads:
  assumes "chain_inv p" and "heads_inv p" and "palloc env n p = Inr (r, p')"
  shows "heads_inv p'"
proof (cases "n > cp_block_size p")
  case True
  with assms show ?thesis
    by (auto simp: palloc_def alloc_large_block_def heads_inv_def Let_def split: if_splits list.splits option.splits)
next
  case False
  obtain ok p1 where rf: "room_for (ml_block env) n p = (ok, p1)" by (metis surj_pair)
  have h1: "heads_inv p1" by (rule heads_inv_room_for [OF assms(2) rf])
  have "ok \<Longrightarrow> b_head (cp_blocks p1 ! the (cp_current p1)) + n \<le> 2 ^ 63"
    using room_for_cases [OF assms(1) rf] False assms(2) by (fastforce simp: heads_inv_def)
  then have "ok \<Longrightarrow> heads_inv (set_block c (\<lambda>b. b\<lparr>b_head := b_head (cp_blocks p1 ! the (cp_current p1)) + n\<rparr>) p1)" for c
    by (intro heads_inv_update [OF h1]) auto
  moreover have "heads_inv (q\<lparr>cp_current := cc\<rparr>) = heads_inv q" for q cc by (simp add: heads_inv_def)
  ultimately show ?thesis
    using assms(3) False rf h1 by (auto simp: palloc_def Let_def heads_inv_full split: if_splits)
qed

section \<open>Alignment\<close>

text \<open>A number that has no bit in common with its predecessor is a power of two.\<close>

lemma power_of_two_test: "0 < a \<Longrightarrow> a AND (a - 1) = 0 \<Longrightarrow> \<exists>k. a = (2 ^ k :: nat)"
proof (induction a rule: less_induct)
  case (less a)
  show ?case
  proof (cases "even a")
    case True
    then obtain b where b: "a = 2 * b" by blast
    with less.prems(1) have "a - 1 = 2 * (b - 1) + 1" by simp
    then have "a AND (a - 1) = 2 * (b AND (b - 1))" using b less.prems(1) by (simp add: and_nat_unfold [of "2 * b"])
    with less.prems(2) have "b AND (b - 1) = 0" by simp
    with less.IH [of b] less.prems(1) b obtain k where "b = 2 ^ k" by auto
    then have "a = 2 ^ Suc k" by (simp add: b)
    then show ?thesis by blast
  next
    case False
    then obtain b where b: "a = 2 * b + 1" by (elim oddE)
    then have "a AND (a - 1) = 2 * b" by (simp add: and_nat_unfold [of "Suc (2 * b)"])
    with less.prems(2) have "b = 0" by simp
    then have "a = 2 ^ 0" by (simp add: b)
    then show ?thesis by blast
  qed
qed

lemma align_test:
  assumes "0 < align" and "align < 2 ^ 64" and "(of_nat align :: 64 word) AND (of_nat align - 1) = 0"
  shows "\<exists>k. align = 2 ^ k \<and> k \<le> 63"
proof -
  have u: "unat (of_nat align :: 64 word) = align" using assms(2) by (simp add: unat_of_nat take_bit_nat_eq_self)
  then have "unat (of_nat align - 1 :: 64 word) = align - 1" using assms(1) by (simp add: unat_minus_one unat_eq_zero [symmetric] del: unat_eq_zero)
  with u assms(3) have "align AND (align - 1) = 0" by (metis unsigned_0 unsigned_and_eq)
  from power_of_two_test [OF assms(1) this] obtain k where k: "align = 2 ^ k" by blast
  with assms(2) have "k < 64" by (metis nat_power_less_imp_less zero_less_numeral)
  with k show ?thesis by auto
qed

lemma align_up_eq:
  assumes "k \<le> 63" and "h \<le> 2 ^ 63"
  shows "align_up h (2 ^ k) = ((h + 2 ^ k - 1) div 2 ^ k) * 2 ^ k"
proof -
  have "(2 :: nat) ^ k \<le> 2 ^ 63" by (rule power_increasing [OF assms(1)]) simp
  then have lt: "h + 2 ^ k - 1 < 2 ^ 64" using assms(2) by simp
  let ?x = "of_nat (h + 2 ^ k - 1) :: 64 word"
  have x: "of_nat h + of_nat (2 ^ k) - 1 = ?x" by (subst of_nat_diff) (simp_all add: Suc_le_eq)
  have ux: "unat ?x = h + 2 ^ k - 1" using lt by (simp add: unat_of_nat take_bit_nat_eq_self)
  have "(of_nat (2 ^ k) - 1 :: 64 word) = mask k" by (simp add: mask_eq_exp_minus_1)
  then have "align_up h (2 ^ k) = unat (?x AND NOT (mask k))" using x by (simp add: align_up_def)
  also have "?x AND NOT (mask k) = push_bit k (drop_bit k ?x)"
    by (rule bit_word_eqI) (auto simp: bit_and_iff bit_not_iff bit_mask_iff bit_push_bit_iff bit_drop_bit_eq)
  also have "unat (push_bit k (drop_bit k ?x)) = take_bit 64 ((h + 2 ^ k - 1) div 2 ^ k * 2 ^ k)"
    unfolding unsigned_push_bit_eq unsigned_drop_bit_eq ux using lt
    by (simp add: push_bit_eq_mult drop_bit_eq_div take_bit_nat_eq_self)
  also have "\<dots> = (h + 2 ^ k - 1) div 2 ^ k * 2 ^ k"
    using lt by (intro take_bit_nat_eq_self) (meson div_times_less_eq_dividend le_less_trans)
  finally show ?thesis .
qed


lemma div_round_down: "0 < s \<Longrightarrow> (s * e + (s - 1)) div s = (e :: nat)"
  by (rule div_nat_eqI) auto

lemma align_up_bounds:
  assumes "k \<le> 63" and "h \<le> 2 ^ 63"
  shows "h \<le> align_up h (2 ^ k)" and "align_up h (2 ^ k) \<le> 2 ^ 63" and "align_up h (2 ^ k) mod 2 ^ k = 0"
proof -
  have d: "(2 :: nat) ^ k dvd 2 ^ 63" by (rule le_imp_power_dvd [OF assms(1)])
  let ?q = "(h + 2 ^ k - 1) div 2 ^ k"
  have m: "?q * 2 ^ k + (h + 2 ^ k - 1) mod 2 ^ k = h + 2 ^ k - 1" by (rule div_mult_mod_eq)
  have "(h + 2 ^ k - 1) mod 2 ^ k < 2 ^ k" by simp
  then show "h \<le> align_up h (2 ^ k)" using m unfolding align_up_eq [OF assms] by linarith
  obtain e where e: "(2 :: nat) ^ 63 = 2 ^ k * e" using d by (elim dvdE)
  have "?q \<le> (2 ^ k * e + (2 ^ k - 1)) div 2 ^ k" using assms(2) e by (intro div_le_mono) simp
  also have "\<dots> = e" by (rule div_round_down) simp
  finally show "align_up h (2 ^ k) \<le> 2 ^ 63" unfolding align_up_eq [OF assms] e by (simp add: mult.commute)
  show "align_up h (2 ^ k) mod 2 ^ k = 0" unfolding align_up_eq [OF assms] by simp
qed

text \<open>Moving the head of the block that is being filled forward.\<close>

lemma set_head:
  assumes "chain_inv p" and "cp_current p = Some c" and "b_head (cp_blocks p ! c) \<le> h"
    and "p' = set_block c (\<lambda>b. b\<lparr>b_head := h\<rparr>) p \<or> p' = set_block c (\<lambda>b. b\<lparr>b_full := True\<rparr>) (set_block c (\<lambda>b. b\<lparr>b_head := h\<rparr>) p)"
  shows "chain_inv p'" and "pos p' = (c, h)" and "pos_le (pos p) (pos p')" and "cp_current p' = Some c"
    and "cp_large p' = cp_large p" and "cp_snapshots p' = cp_snapshots p" and "cp_block_size p' = cp_block_size p"
    and "length (cp_blocks p') = length (cp_blocks p)"
proof -
  have c: "c < length (cp_blocks p)" "\<forall>i. c < i \<and> i < length (cp_blocks p) \<longrightarrow> b_head (cp_blocks p ! i) = 0"
    "cp_last p = length (cp_blocks p) - 1" "cp_blocks p \<noteq> []" "large_count (cp_large_last p) = length (cp_large p)"
    using assms(1,2) by (auto simp: chain_inv_def front_def)
  show "chain_inv p'" "pos p' = (c, h)" "pos_le (pos p) (pos p')" "cp_current p' = Some c"
    "cp_large p' = cp_large p" "cp_snapshots p' = cp_snapshots p" "cp_block_size p' = cp_block_size p"
    "length (cp_blocks p') = length (cp_blocks p)"
    using assms(2,3,4) c by (auto simp: set_block_def chain_inv_def front_def pos_def pos_le_def)
qed

text \<open>The snapshot that \<open>cpool_save\<close> takes.\<close>

lemma save_state:
  assumes "chain_inv p" and "length (cp_snapshots p) < CPOOL_MAX_SAVE_DEPTH"
  shows "\<exists>p' sn. cpool_save p = Inr p' \<and> cp_snapshots p' = cp_snapshots p @ [sn] \<and> snap_pos sn = pos p \<and> pos p' = pos p \<and>
    large_count (sn_large sn) = length (cp_large p) \<and> cp_large p' = cp_large p \<and> cp_block_size p' = cp_block_size p \<and>
    length (cp_blocks p') = length (cp_blocks p) \<and> chain_inv p' \<and> (heads_inv p \<longrightarrow> heads_inv p')"
proof -
  define sn where "sn = \<lparr>sn_head = b_head (cp_blocks p ! front p), sn_full = b_full (cp_blocks p ! front p),
    sn_current = cp_current p, sn_last = cp_last p, sn_large = cp_large_last p\<rparr>"
  define p' where "p' = p\<lparr>cp_snapshots := cp_snapshots p @ [sn]\<rparr>"
  have same: "cp_blocks p' = cp_blocks p" "cp_last p' = cp_last p" "cp_large p' = cp_large p" "cp_large_last p' = cp_large_last p"
    "cp_block_size p' = cp_block_size p" "cp_snapshots p' = cp_snapshots p @ [sn]" "cp_current p' = cp_current p" by (simp_all add: p'_def)
  have eq: "cpool_save p = Inr p'" using assms(2) by (simp add: cpool_save_def sn_def front_def Let_def p'_def)
  have sp: "snap_pos sn = pos p" by (simp add: snap_pos_def sn_def pos_def front_def split: option.split)
  have fr: "front p' = front p" by (simp add: front_def same split: option.split)
  show ?thesis
    using assms(1) eq sp fr same by (intro exI [of _ p'] exI [of _ sn]) (auto simp: chain_inv_def pos_def sn_def heads_inv_def)
qed

lemma cpool_save_inv:
  assumes "pool_inv p live marks" and "cpool_save p = Inr p'"
  shows "pool_inv p' live (length live # marks)" and "heads_inv p \<Longrightarrow> heads_inv p'"
proof -
  have ch: "chain_inv p" and "length (cp_snapshots p) < CPOOL_MAX_SAVE_DEPTH"
    using assms by (auto simp: pool_inv_def cpool_save_def split: if_splits)
  from save_state [OF this] assms(2) show "pool_inv p' live (length live # marks)" "heads_inv p \<Longrightarrow> heads_inv p'"
    using assms(1) by (auto simp: pool_inv_def live_inv_def)
qed

text \<open>What is left by \<open>cpool_restore\<close>: the position and the large blocks of the newest snapshot.\<close>

lemma restore_state:
  assumes "chain_inv p" and "cp_snapshots p = sns @ [sn]" and "pos_le (snap_pos sn) (pos p)"
    and "large_count (sn_large sn) \<le> length (cp_large p)"
  shows "\<exists>p'. cpool_restore p = Inr p' \<and> chain_inv p' \<and> pos p' = snap_pos sn \<and> cp_snapshots p' = sns \<and>
    cp_large p' = take (large_count (sn_large sn)) (cp_large p) \<and> cp_block_size p' = cp_block_size p \<and>
    length (cp_blocks p') = length (cp_blocks p) \<and> (heads_inv p \<longrightarrow> heads_inv p')"
proof -
  define b where "b = fst (snap_pos sn)"
  have b: "b < length (cp_blocks p)" using assms(1,3) by (auto simp: pos_le_def pos_def chain_inv_def b_def)
  define p' where "p' = p\<lparr>cp_snapshots := sns, cp_blocks := take b (cp_blocks p) @ [\<lparr>b_head = sn_head sn, b_full = sn_full sn\<rparr>]
      @ replicate (length (cp_blocks p) - (b + 1)) zero_block, cp_current := Some b, cp_last := length (cp_blocks p) - 1,
      cp_large := take (large_count (sn_large sn)) (cp_large p), cp_large_last := sn_large sn\<rparr>"
  have eq: "cpool_restore p = Inr p'" by (simp add: cpool_restore_def assms(2) p'_def b_def snap_pos_def Let_def)
  have fr: "front p' = b" and po: "pos p' = snap_pos sn" using b by (simp_all add: p'_def front_def pos_def nth_append b_def snap_pos_def)
  have "chain_inv p'" using b assms(4) fr by (auto simp: chain_inv_def p'_def nth_append zero_block_def)
  moreover have "heads_inv p \<longrightarrow> heads_inv p'" by (auto simp: heads_inv_def p'_def assms(2) zero_block_def dest!: in_set_takeD)
  moreover have "length (cp_blocks p') = length (cp_blocks p)" using b by (simp add: p'_def)
  ultimately show ?thesis using eq po by (auto simp: p'_def)
qed

lemma cpool_restore_inv:
  assumes "pool_inv p live (m # marks)"
  shows "\<exists>p'. cpool_restore p = Inr p' \<and> pool_inv p' (take m live) marks \<and> (heads_inv p \<longrightarrow> heads_inv p')"
proof -
  from assms obtain sns sn where sns: "cp_snapshots p = sns @ [sn]"
    by (cases "cp_snapshots p" rule: rev_cases) (auto simp: pool_inv_def)
  have si: "pos_le (snap_pos sn) (pos p)" "large_count (sn_large sn) \<le> length (cp_large p)"
    and sj: "\<forall>r\<in>set (take m live). before_pos (snap_pos sn) r" "large_of (take m live) = take (large_count (sn_large sn)) (cp_large p)"
    "snaps_inv (take m live) (take (large_count (sn_large sn)) (cp_large p)) (zip (rev sns) marks) (snap_pos sn)"
    and ch: "chain_inv p" and li: "live_inv p live" and len: "length marks = length sns"
    using assms by (auto simp: pool_inv_def sns)
  from restore_state [OF ch sns si] obtain p' where p': "cpool_restore p = Inr p'" "chain_inv p'" "pos p' = snap_pos sn"
    "cp_snapshots p' = sns" "cp_large p' = take (large_count (sn_large sn)) (cp_large p)" "cp_block_size p' = cp_block_size p"
    "heads_inv p \<longrightarrow> heads_inv p'" by blast
  have "live_inv p' (take m live)" using li sj p' by (auto simp: live_inv_def sorted_wrt_take dest: in_set_takeD)
  with sj len p' show ?thesis by (auto simp: pool_inv_def)
qed

lemma cpool_reset_inv:
  assumes "chain_inv p"
  shows "pool_inv (cpool_reset p) [] []" and "heads_inv p \<Longrightarrow> heads_inv (cpool_reset p)"
  using assms
  by (auto simp: pool_inv_def chain_inv_def live_inv_def cpool_reset_def front_def large_count_def heads_inv_def zero_block_def)


text \<open>The first part of \<open>cpool_align\<close> makes sure that there is a block.\<close>

lemma align_start:
  assumes "chain_inv p" and "heads_inv p" and "(case cp_current p of None \<Rightarrow> append_block first_ok p | Some _ \<Rightarrow> (True, p)) = (ok, p1)"
  shows "ahead p p1 \<and> cp_large p1 = cp_large p \<and> heads_inv p1 \<and> (ok \<longrightarrow> cp_current p1 \<noteq> None)"
proof (cases "cp_current p")
  case None
  with assms(3) have a: "append_block first_ok p = (ok, p1)" by simp
  from append_block_cases [OF assms(1) a] heads_inv_append_block [OF assms(2) a] show ?thesis by (auto simp: ahead_def)
next
  case (Some c) with assms show ?thesis by (auto simp: ahead_def)
qed

text \<open>The state with the head rounded up, and with the block marked as full.\<close>

lemma align_head:
  assumes "chain_inv p" and "heads_inv p" and "cp_current p = Some c" and "k \<le> 63" and "h = align_up (b_head (cp_blocks p ! c)) (2 ^ k)"
    and "p2 = set_block c (\<lambda>b. b\<lparr>b_head := h\<rparr>) p" and "q = p2 \<or> q = set_block c (\<lambda>b. b\<lparr>b_full := True\<rparr>) p2"
  shows "ahead p q" and "pos q = (c, h)" and "cp_current q = Some c" and "cp_large q = cp_large p" and "heads_inv q" and "h mod 2 ^ k = 0"
proof -
  have "b_head (cp_blocks p ! c) \<le> 2 ^ 63" using assms(1,2,3) by (auto simp: heads_inv_def chain_inv_def front_def)
  note h = align_up_bounds [OF assms(4) this, folded assms(5)]
  from set_head [OF assms(1,3) h(1), of q] assms(6,7) show "ahead p q" "pos q = (c, h)" "cp_current q = Some c" "cp_large q = cp_large p"
    by (auto simp: ahead_def)
  have "heads_inv p2" unfolding assms(6) using assms(2) h(2) by (intro heads_inv_update) auto
  then show "heads_inv q" using assms(7) heads_inv_full by auto
  show "h mod 2 ^ k = 0" by (rule h(3))
qed

lemma cpool_align_ahead:
  assumes "chain_inv p" and "heads_inv p" and "k \<le> 63"
  shows "\<exists>ok p'. cpool_align first_ok second_ok (2 ^ k) p = Inr (ok, p') \<and> ahead p p' \<and> cp_large p' = cp_large p \<and> heads_inv p' \<and>
    (ok \<longrightarrow> cp_current p' \<noteq> None \<and> snd (pos p') mod 2 ^ k = 0)"
proof -
  have test: "0 < (2 :: nat) ^ k \<and> (of_nat (2 ^ k) :: 64 word) AND (of_nat (2 ^ k) - 1) = 0"
    by (simp, rule bit_word_eqI) (simp add: bit_and_iff bit_exp_iff mask_eq_exp_minus_1 [symmetric] bit_mask_iff)
  obtain ok p1 where p1: "(case cp_current p of None \<Rightarrow> append_block first_ok p | Some _ \<Rightarrow> (True, p)) = (ok, p1)"
    by (metis surj_pair)
  note f1 = align_start [OF assms(1,2) p1]
  show ?thesis
  proof (cases ok)
    case False
    with f1 p1 test show ?thesis by (auto simp: cpool_align_def)
  next
    case True
    with f1 obtain c where c: "cp_current p1 = Some c" by blast
    have ch1: "chain_inv p1" using f1 by (simp add: ahead_def)
    have he1: "heads_inv p1" using f1 by simp
    define h where "h = align_up (b_head (cp_blocks p1 ! c)) (2 ^ k)"
    define p2 where "p2 = set_block c (\<lambda>b. b\<lparr>b_head := h\<rparr>) p1"
    define p2' where "p2' = set_block c (\<lambda>b. b\<lparr>b_full := True\<rparr>) p2"
    note s = align_head [OF ch1 he1 c assms(3) h_def p2_def, folded p2'_def]
    note far = ahead_trans [OF conjunct1 [OF f1]]
    show ?thesis
    proof (cases "h \<ge> cp_block_size p")
      case False
      with True p1 test c have "cpool_align first_ok second_ok (2 ^ k) p = Inr (True, p2)"
        by (simp add: cpool_align_def p2_def h_def)
      with s [of p2] far f1 show ?thesis by auto
    next
      case full: True
      obtain ok2 p3 where a: "append_block second_ok p2' = (ok2, p3)" by (metis surj_pair)
      from full True p1 test c a have "cpool_align first_ok second_ok (2 ^ k) p = Inr (ok2, p3)"
        by (simp add: cpool_align_def p2_def p2'_def h_def)
      moreover have ch2: "chain_inv p2'" using s(1) [of p2'] by (simp add: ahead_def)
      moreover have "ahead p2' p3" "cp_large p3 = cp_large p2'" using append_block_cases [OF ch2 a] by (auto simp: ahead_def)
      moreover have "heads_inv p3" by (rule heads_inv_append_block [OF s(5) a]) simp
      moreover have "ok2 \<longrightarrow> cp_current p3 \<noteq> None \<and> snd (pos p3) = 0"
        using append_block_cases [OF ch2 a] by (auto simp: pos_def front_def)
      ultimately show ?thesis using f1 s [of p2'] far ahead_trans [of p1 p2' p3] by auto
    qed
  qed
qed


section \<open>Histories of an arena\<close>

text \<open>
  A state of a run: the arena, the allocations that are alive, and for every open snapshot how many
  were alive when it was taken. A large block that \<open>malloc\<close> returns is none of those in use.
\<close>

type_synonym arena_run = "cpool \<times> (place \<times> nat) list \<times> nat list"

inductive arena_step :: "arena_run \<Rightarrow> arena_run \<Rightarrow> bool" where
  Alloc: "0 < n \<Longrightarrow> ml_data env \<notin> set (cp_large p) \<Longrightarrow> palloc env n p = Inr (Some pl, p') \<Longrightarrow>
    arena_step (p, live, marks) (p', live @ [(pl, n)], marks)"
| Alloc_fail: "0 < n \<Longrightarrow> ml_data env \<notin> set (cp_large p) \<Longrightarrow> palloc env n p = Inr (None, p') \<Longrightarrow>
    arena_step (p, live, marks) (p', live, marks)"
| Align: "align < 2 ^ 64 \<Longrightarrow> cpool_align a b align p = Inr (ok, p') \<Longrightarrow> arena_step (p, live, marks) (p', live, marks)"
| Save: "cpool_save p = Inr p' \<Longrightarrow> arena_step (p, live, marks) (p', live, length live # marks)"
| Restore: "cpool_restore p = Inr p' \<Longrightarrow> arena_step (p, live, m # marks) (p', take m live, marks)"
| Reset: "arena_step (p, live, marks) (cpool_reset p, [], [])"

inductive_cases arena_stepE: "arena_step s t"

definition arena_inv :: "arena_run \<Rightarrow> bool" where
  "arena_inv s = (case s of (p, live, marks) \<Rightarrow> pool_inv p live marks \<and> heads_inv p)"

lemma cpool_init_inv: "cpool_init a b bs = Some p \<Longrightarrow> bs < 2 ^ 63 \<Longrightarrow> arena_inv (p, [], [])"
  by (auto simp: cpool_init_def arena_inv_def pool_inv_def chain_inv_def live_inv_def front_def large_count_def heads_inv_def
      zero_block_def split: if_splits)

lemma align_step:
  assumes "align < 2 ^ 64" and "cpool_align a b align p = Inr (ok, p')" and "chain_inv p" and "heads_inv p"
  shows "ahead p p'" and "cp_large p' = cp_large p" and "heads_inv p'"
proof -
  have "0 < align" "(of_nat align :: 64 word) AND (of_nat align - 1) = 0"
    using assms(2) by (auto simp: cpool_align_def split: if_splits)
  from align_test [OF this(1) assms(1) this(2)] obtain k where "align = 2 ^ k" "k \<le> 63" by blast
  with cpool_align_ahead [OF assms(3,4), of k a b] assms(2) show "ahead p p'" "cp_large p' = cp_large p" "heads_inv p'" by auto
qed

lemma arena_step_inv: "arena_step s t \<Longrightarrow> arena_inv s \<Longrightarrow> arena_inv t"
proof (induction rule: arena_step.induct)
  case (Alloc n env p pl p' live marks)
  then show ?case
    using palloc_inv [of p live marks n env] palloc_heads [of p env n] by (auto simp: arena_inv_def pool_inv_def)
next
  case (Alloc_fail n env p p' live marks)
  then show ?case
    using palloc_inv [of p live marks n env] palloc_heads [of p env n] by (auto simp: arena_inv_def pool_inv_def)
next
  case (Align align a b p ok p' live marks)
  have inv: "pool_inv p live marks" "heads_inv p" "chain_inv p" using Align.prems by (auto simp: arena_inv_def pool_inv_def)
  from align_step [OF Align.hyps inv(3,2)] pool_inv_forward [OF inv(1)] show ?case by (auto simp: arena_inv_def)
next
  case (Save p p' live marks)
  then show ?case using cpool_save_inv [of p live marks p'] by (auto simp: arena_inv_def)
next
  case (Restore p p' live m marks)
  then show ?case using cpool_restore_inv [of p live m marks] by (auto simp: arena_inv_def)
next
  case (Reset p live marks)
  then show ?case using cpool_reset_inv [of p] by (auto simp: arena_inv_def pool_inv_def)
qed

interpretation arena: invariant_steps arena_step arena_inv
  by unfold_locales (rule arena_step_inv)

lemma sorted_wrt_nth: "sorted_wrt P xs \<Longrightarrow> i < j \<Longrightarrow> j < length xs \<Longrightarrow> P (xs ! i) (xs ! j)"
  by (simp add: sorted_wrt_iff_nth_less)

text \<open>
  C4: Memory handed out by the arena never overlaps. After any history of \<open>palloc\<close>, \<open>cpool_align\<close>,
  \<open>cpool_save\<close>, \<open>cpool_restore\<close> and \<open>cpool_reset\<close> (with failing and succeeding \<open>malloc\<close>) on a fresh arena,
  two allocations that are both still alive do not share a byte, and each lies in an existing block and
  inside its bounds or is one of the large blocks that the arena holds.
\<close>

theorem arena_allocations_apart:
  assumes "cpool_init True True bs = Some p0" and "bs < 2 ^ 63" and "arena_step\<^sup>*\<^sup>* (p0, [], []) (p, live, marks)"
  shows "(\<forall>i j. i < j \<and> j < length live \<longrightarrow> apart (live ! i) (live ! j)) \<and>
    (\<forall>c off n. (In_block c off, n) \<in> set live \<longrightarrow> c < length (cp_blocks p) \<and> off + n \<le> cp_block_size p) \<and>
    large_of live = cp_large p"
proof -
  have "arena_inv (p, live, marks)" by (rule arena.run_keeps [OF assms(3) cpool_init_inv [OF assms(1,2)]])
  then have li: "live_inv p live" and ch: "chain_inv p" by (auto simp: arena_inv_def pool_inv_def)
  have "c < length (cp_blocks p) \<and> off + n \<le> cp_block_size p" if "(In_block c off, n) \<in> set live" for c off n
    using that li ch by (fastforce simp: live_inv_def chain_inv_def pos_def)
  with li show ?thesis by (auto simp: live_inv_def intro: sorted_wrt_nth)
qed


text \<open>Operations between a \<open>cpool_save\<close> and its \<open>cpool_restore\<close>, with scopes inside scopes.\<close>

datatype arena_op = Op_alloc malloc_env nat | Op_align bool bool nat | Op_scope "arena_op list"

fun run_op :: "arena_op \<Rightarrow> cpool \<Rightarrow> cpool res" and run_ops :: "arena_op list \<Rightarrow> cpool \<Rightarrow> cpool res" where
  "run_op (Op_alloc env n) p = bind_res (palloc env n p) (\<lambda>(r, p'). Inr p')"
| "run_op (Op_align a b align) p = bind_res (cpool_align a b align p) (\<lambda>(r, p'). Inr p')"
| "run_op (Op_scope ops) p = bind_res (cpool_save p) (\<lambda>p1. bind_res (run_ops ops p1) cpool_restore)"
| "run_ops [] p = Inr p"
| "run_ops (op # ops) p = bind_res (run_op op p) (run_ops ops)"

text \<open>The operations pass the assertions: sizes are positive, alignments powers of two, \<open>d\<close> more scopes may be opened.\<close>

fun op_ok :: "nat \<Rightarrow> arena_op \<Rightarrow> bool" and ops_ok :: "nat \<Rightarrow> arena_op list \<Rightarrow> bool" where
  "op_ok d (Op_alloc env n) \<longleftrightarrow> 0 < n"
| "op_ok d (Op_align a b align) \<longleftrightarrow> align \<in> set (map (\<lambda>k. 2 ^ k) [0..<64])"
| "op_ok d (Op_scope ops) \<longleftrightarrow> 0 < d \<and> ops_ok (d - 1) ops"
| "ops_ok d [] \<longleftrightarrow> True"
| "ops_ok d (op # ops) \<longleftrightarrow> op_ok d op \<and> ops_ok d ops"

lemma taken_prefix: "taken env n p p' r \<Longrightarrow> prefix (cp_large p) (cp_large p')"
  by (cases "(env, n, p, p', r)" rule: taken.cases) auto

text \<open>\<open>further p p'\<close>: what a sequence of operations with closed scopes makes of an arena.\<close>

definition further :: "cpool \<Rightarrow> cpool \<Rightarrow> bool" where
  "further p p' \<longleftrightarrow> ahead p p' \<and> heads_inv p' \<and> prefix (cp_large p) (cp_large p')"

lemma further_trans: "further p q \<Longrightarrow> further q r \<Longrightarrow> further p r"
  by (auto simp: further_def intro: ahead_trans prefix_order.trans)

lemma close_scope:
  assumes "chain_inv p" and "heads_inv p" and "length (cp_snapshots p) < CPOOL_MAX_SAVE_DEPTH"
    and "\<And>p1. chain_inv p1 \<Longrightarrow> heads_inv p1 \<Longrightarrow> length (cp_snapshots p1) = length (cp_snapshots p) + 1 \<Longrightarrow> \<exists>p2. body p1 = Inr p2 \<and> further p1 p2"
  shows "\<exists>p'. bind_res (cpool_save p) (\<lambda>p1. bind_res (body p1) cpool_restore) = Inr p' \<and> further p p' \<and>
    pos p' = pos p \<and> cp_large p' = cp_large p"
proof -
  from save_state [OF assms(1,3)] assms(2) obtain p1 sn where p1: "cpool_save p = Inr p1" "cp_snapshots p1 = cp_snapshots p @ [sn]"
    "snap_pos sn = pos p" "pos p1 = pos p" "large_count (sn_large sn) = length (cp_large p)" "cp_large p1 = cp_large p"
    "cp_block_size p1 = cp_block_size p" "length (cp_blocks p1) = length (cp_blocks p)" "chain_inv p1" "heads_inv p1" by auto
  with assms(4) [of p1] obtain p2 where p2: "body p1 = Inr p2" "further p1 p2" by auto
  then have f: "chain_inv p2" "pos_le (pos p1) (pos p2)" "cp_snapshots p2 = cp_snapshots p1" "cp_block_size p2 = cp_block_size p1"
    "heads_inv p2" "prefix (cp_large p1) (cp_large p2)" "length (cp_blocks p1) \<le> length (cp_blocks p2)" by (auto simp: further_def ahead_def)
  with p1 have "pos_le (snap_pos sn) (pos p2)" "large_count (sn_large sn) \<le> length (cp_large p2)"
    "take (large_count (sn_large sn)) (cp_large p2) = cp_large p" by (auto simp: prefix_def)
  with restore_state [OF f(1), of "cp_snapshots p" sn] p1 f obtain p' where "cpool_restore p2 = Inr p'" "chain_inv p'" "pos p' = pos p"
    "cp_snapshots p' = cp_snapshots p" "cp_large p' = cp_large p" "cp_block_size p' = cp_block_size p" "length (cp_blocks p) \<le> length (cp_blocks p')"
    "heads_inv p'" by auto
  with p1(1) p2(1) show ?thesis by (auto simp: further_def ahead_def)
qed

lemma run_ops_further:
  "chain_inv p \<Longrightarrow> heads_inv p \<Longrightarrow> op_ok d op \<Longrightarrow> length (cp_snapshots p) + d \<le> CPOOL_MAX_SAVE_DEPTH \<Longrightarrow>
    \<exists>p'. run_op op p = Inr p' \<and> further p p'"
  "chain_inv p \<Longrightarrow> heads_inv p \<Longrightarrow> ops_ok d ops \<Longrightarrow> length (cp_snapshots p) + d \<le> CPOOL_MAX_SAVE_DEPTH \<Longrightarrow>
    \<exists>p'. run_ops ops p = Inr p' \<and> further p p'"
proof (induction d op and d ops arbitrary: p and p rule: op_ok_ops_ok.induct)
  case (1 d env n)
  then obtain r p' where "palloc env n p = Inr (r, p')" "ahead p p'" "taken env n p p' r"
    using palloc_taken [of p n env] by auto
  with 1 palloc_heads [of p env n] taken_prefix [of env n p p' r] show ?case by (auto simp: further_def)
next
  case (2 d a b align)
  then obtain k where "align = 2 ^ k" "k \<le> 63" by auto
  with 2 cpool_align_ahead [of p k a b] show ?case by (auto simp: further_def)
next
  case (3 d ops)
  have "\<exists>p'. bind_res (cpool_save p) (\<lambda>p1. bind_res (run_ops ops p1) cpool_restore) = Inr p' \<and> further p p' \<and>
      pos p' = pos p \<and> cp_large p' = cp_large p"
    using "3.prems" by (intro close_scope "3.IH") auto
  then show ?case by auto
next
  case (4 d)
  then show ?case by (simp add: further_def ahead_def)
next
  case (5 d op ops)
  from "5.IH"(1) [of p] "5.prems" obtain q where q: "run_op op p = Inr q" "further p q" by auto
  then have "chain_inv q" "heads_inv q" "length (cp_snapshots q) + d \<le> CPOOL_MAX_SAVE_DEPTH"
    using "5.prems" by (auto simp: further_def ahead_def)
  with "5.IH"(2) [of q] "5.prems" q show ?case by (auto intro: further_trans)
qed

text \<open>
  C6: A scope leaves the arena as it was. Between \<open>cpool_save\<close> and \<open>cpool_restore\<close> any operations may run,
  scopes inside scopes included, as long as no assertion of theirs fails and no more than
  \<open>CPOOL_MAX_SAVE_DEPTH\<close> snapshots are open; then the whole returns, whatever \<open>malloc\<close> answered, and the
  arena continues at the block and offset, with the large blocks and the snapshots, of before.
\<close>

theorem scope_restores:
  assumes "cpool_init True True bs = Some p0" and "bs < 2 ^ 63" and "arena_step\<^sup>*\<^sup>* (p0, [], []) (p, live, marks)"
    and "ops_ok d ops" and "length (cp_snapshots p) + d < CPOOL_MAX_SAVE_DEPTH"
  shows "\<exists>p'. run_op (Op_scope ops) p = Inr p' \<and> pos p' = pos p \<and> cp_large p' = cp_large p \<and> cp_snapshots p' = cp_snapshots p"
proof -
  have "arena_inv (p, live, marks)" by (rule arena.run_keeps [OF assms(3) cpool_init_inv [OF assms(1,2)]])
  then have "chain_inv p" "heads_inv p" by (auto simp: arena_inv_def pool_inv_def)
  then have "\<exists>p'. bind_res (cpool_save p) (\<lambda>p1. bind_res (run_ops ops p1) cpool_restore) = Inr p' \<and> further p p' \<and>
      pos p' = pos p \<and> cp_large p' = cp_large p"
    using assms(4,5) by (intro close_scope run_ops_further(2) [of _ d]) auto
  then show ?thesis by (auto simp: further_def ahead_def)
qed

lemma room_for_offset:
  assumes "chain_inv p" and "cp_current p \<noteq> None" and "room_for mok n p = (True, p')"
  shows "b_head (cp_blocks p' ! the (cp_current p')) = snd (pos p) \<or> b_head (cp_blocks p' ! the (cp_current p')) = 0"
proof -
  have app: "append_block mok p = (True, p') \<Longrightarrow> b_head (cp_blocks p' ! the (cp_current p')) = 0"
    using append_block_cases [OF assms(1)] by fastforce
  from assms(2) obtain c where "cp_current p = Some c" by blast
  with assms app show ?thesis
    by (auto simp: room_for_def next_block_def pos_def front_def chain_inv_def split: if_splits)
qed

text \<open>
  C37: After a successful \<open>cpool_align\<close> the next small allocation that is served lies at an offset that is
  a multiple of the alignment, in whichever block it falls.
\<close>

theorem aligned_allocation:
  assumes "cpool_init True True bs = Some p0" and "bs < 2 ^ 63" and "arena_step\<^sup>*\<^sup>* (p0, [], []) (p, live, marks)"
    and "align < 2 ^ 64" and "cpool_align a b align p = Inr (True, p1)" and "palloc env n p1 = Inr (Some (In_block c off), p2)"
  shows "off mod align = 0"
proof -
  have "arena_inv (p, live, marks)" by (rule arena.run_keeps [OF assms(3) cpool_init_inv [OF assms(1,2)]])
  then have inv: "chain_inv p" "heads_inv p" by (auto simp: arena_inv_def pool_inv_def)
  from assms(5) have "0 < align" "(of_nat align :: 64 word) AND (of_nat align - 1) = 0"
    by (auto simp: cpool_align_def split: if_splits)
  from align_test [OF this(1) assms(4) this(2)] obtain k where k: "align = 2 ^ k" "k \<le> 63" by blast
  with cpool_align_ahead [OF inv k(2), of a b] assms(5) have p1: "chain_inv p1" "cp_current p1 \<noteq> None" "snd (pos p1) mod align = 0"
    by (auto simp: ahead_def)
  from assms(6) have n: "0 < n" "n \<le> cp_block_size p1"
    using large_cases [OF p1(1) refl, of "ml_node env" "ml_data env"] by (auto simp: palloc_def split: if_splits)
  obtain ok q where q: "room_for (ml_block env) n p1 = (ok, q)" by (metis surj_pair)
  with assms(6) n have "ok" "off = b_head (cp_blocks q ! the (cp_current q))"
    by (auto simp: palloc_def Let_def split: if_splits)
  with room_for_offset [OF p1(1,2), of "ml_block env" n q] q p1(3) show ?thesis by auto
qed

text \<open>
  A sample arena with blocks of 16 bytes: two allocations of 10 bytes fall in two blocks, one of 40
  bytes gets a large block.
\<close>

definition sample_malloc :: malloc_env where
  "sample_malloc = \<lparr>ml_block = True, ml_node = True, ml_data = 7\<rparr>"

definition arena_of :: "cpool_block list \<Rightarrow> nat list \<Rightarrow> cpool" where
  "arena_of bs ds = \<lparr>cp_blocks = bs, cp_current = Some (length bs - 1), cp_last = length bs - 1, cp_block_size = 16,
     cp_large = ds, cp_large_last = (if ds = [] then None else Some (length ds - 1)), cp_snapshots = []\<rparr>"

lemmas sample_arena_defs = sample_malloc_def arena_of_def palloc_def room_for_def next_block_def append_block_def
  alloc_large_block_def set_block_def zero_block_def

lemma sample_arena_run:
  "arena_step\<^sup>*\<^sup>* (arena_of [zero_block] [], [], [])
     (arena_of [\<lparr>b_head = 10, b_full = False\<rparr>, \<lparr>b_head = 10, b_full = False\<rparr>] [7],
      [(In_block 0 0, 10), (In_block 1 0, 10), (Large 7, 40)], [])"
proof -
  let ?b = "\<lparr>b_head = 10, b_full = False\<rparr>"
  have "arena_step (arena_of [zero_block] [], [], []) (arena_of [?b] [], [] @ [(In_block 0 0, 10)], [])"
    by (rule arena_step.Alloc [of _ sample_malloc]) (simp_all add: sample_arena_defs)
  moreover have "arena_step (arena_of [?b] [], [(In_block 0 0, 10)], []) (arena_of [?b, ?b] [], [(In_block 0 0, 10)] @ [(In_block 1 0, 10)], [])"
    by (rule arena_step.Alloc [of _ sample_malloc]) (simp_all add: sample_arena_defs)
  moreover have "arena_step (arena_of [?b, ?b] [], [(In_block 0 0, 10), (In_block 1 0, 10)], [])
      (arena_of [?b, ?b] [7], [(In_block 0 0, 10), (In_block 1 0, 10)] @ [(Large 7, 40)], [])"
    by (rule arena_step.Alloc [of _ sample_malloc]) (simp_all add: sample_arena_defs)
  ultimately show ?thesis by (auto intro: converse_rtranclp_into_rtranclp)
qed

lemma sample_arena_init: "cpool_init True True 16 = Some (arena_of [zero_block] [])"
  by (simp add: cpool_init_def arena_of_def)

lemma sixteen_small: "(16 :: nat) < 2 ^ 63"
  by simp

theorem arena_allocations_apart_witness:
  "apart ([(In_block 0 0, 10), (In_block 1 0, 10), (Large 7, 40)] ! 0) ([(In_block 0 0, 10), (In_block 1 0, 10), (Large 7, 40)] ! 1) \<and>
   apart ([(In_block 0 0, 10), (In_block 1 0, 10), (Large 7, 40)] ! 1) ([(In_block 0 0, 10), (In_block 1 0, 10), (Large 7, 40)] ! 2)"
proof
  note apart_pair = arena_allocations_apart [OF sample_arena_init sixteen_small sample_arena_run, THEN conjunct1, rule_format]
  show "apart ([(In_block 0 0, 10), (In_block 1 0, 10), (Large 7, 40)] ! 0) ([(In_block 0 0, 10), (In_block 1 0, 10), (Large 7, 40)] ! 1)"
    by (rule apart_pair) simp
  show "apart ([(In_block 0 0, 10), (In_block 1 0, 10), (Large 7, 40)] ! 1) ([(In_block 0 0, 10), (In_block 1 0, 10), (Large 7, 40)] ! 2)"
    by (rule apart_pair) simp
qed

text \<open>The scope aligns to 8, allocates a block's worth and opens a scope of its own.\<close>

theorem scope_restores_witness:
  "\<exists>p'. run_op (Op_scope [Op_align True True 8, Op_alloc sample_malloc 16, Op_scope [Op_alloc sample_malloc 40]])
       (arena_of [\<lparr>b_head = 10, b_full = False\<rparr>, \<lparr>b_head = 10, b_full = False\<rparr>] [7]) = Inr p' \<and>
     pos p' = (1, 10) \<and> cp_large p' = [7] \<and> cp_snapshots p' = []"
proof -
  let ?p = "arena_of [\<lparr>b_head = 10, b_full = False\<rparr>, \<lparr>b_head = 10, b_full = False\<rparr>] [7]"
  have ops: "ops_ok 1 [Op_align True True 8, Op_alloc sample_malloc 16, Op_scope [Op_alloc sample_malloc 40]]"
    by (auto intro: image_eqI [of _ _ 3])
  have depth: "length (cp_snapshots ?p) + 1 < CPOOL_MAX_SAVE_DEPTH" by (simp add: arena_of_def CPOOL_MAX_SAVE_DEPTH_def)
  have "pos ?p = (1, 10)" "cp_large ?p = [7]" "cp_snapshots ?p = []" by (simp_all add: arena_of_def pos_def front_def)
  then show ?thesis using scope_restores [OF sample_arena_init sixteen_small sample_arena_run ops depth] by (simp only:)
qed

text \<open>Behind 10 bytes, an alignment to 4 and an allocation of 3 bytes.\<close>

theorem aligned_allocation_witness:
  "\<exists>p1 p2. cpool_align True True 4 (arena_of [\<lparr>b_head = 10, b_full = False\<rparr>, \<lparr>b_head = 10, b_full = False\<rparr>] [7]) = Inr (True, p1) \<and>
     palloc sample_malloc 3 p1 = Inr (Some (In_block 1 12), p2) \<and> (12 :: nat) mod 4 = 0"
proof -
  let ?p = "\<lambda>h. arena_of [\<lparr>b_head = 10, b_full = False\<rparr>, \<lparr>b_head = h, b_full = False\<rparr>] [7]"
  have "align_up 10 4 = 12" using align_up_eq [of 2 10] by simp
  moreover have "(4 :: 64 word) AND 3 = 0" by code_simp
  ultimately have 1: "cpool_align True True 4 (?p 10) = Inr (True, ?p 12)" by (simp add: cpool_align_def arena_of_def set_block_def)
  have 2: "palloc sample_malloc 3 (?p 12) = Inr (Some (In_block 1 12), ?p 15)" by (simp add: sample_arena_defs)
  have "(12 :: nat) mod 4 = 0" by (rule aligned_allocation [OF sample_arena_init _ sample_arena_run _ 1 2]) simp_all
  then show ?thesis using 1 2 by (intro exI conjI)
qed

end
