(* ===== verification/Cpool_Heap.thy ===== *)
theory Cpool_Heap
  imports Cpool
begin

text \<open>
  What the arena takes from \<open>malloc\<close> and gives back with \<open>free\<close>: the arena itself, its blocks, and for every large
  block the data and the node that links it. The objects that are allocated form a set; freeing
  anything else is a fault. A node whose data cannot be allocated is freed at once by \<open>alloc_large_block\<close> and does not
  show in the set. With this, \<open>cpool_uninit\<close> and the releases of \<open>cpool_restore\<close> and \<open>cpool_reset\<close> are modelled.
\<close>

section \<open>Objects\<close>

datatype arena_obj = Arena_obj | Block_obj nat | Data_obj nat | Node_obj nat

fun free_objs :: "arena_obj list \<Rightarrow> arena_obj set \<Rightarrow> arena_obj set res" where
  "free_objs [] heap = Inr heap"
| "free_objs (x # xs) heap = (if x \<notin> heap then Inl Undefined else free_objs xs (heap - {x}))"

text \<open>The loop over large blocks: \<open>lb->data\<close>, then \<open>lb\<close>.\<close>

definition free_large :: "nat list \<Rightarrow> arena_obj list" where
  "free_large ds = concat (map (\<lambda>d. [Data_obj d, Node_obj d]) ds)"

definition restore_frees :: "cpool \<Rightarrow> arena_obj set \<Rightarrow> arena_obj set res" where
  "restore_frees p = free_objs (free_large (drop (large_count (sn_large (last (cp_snapshots p)))) (cp_large p)))"

definition reset_frees :: "cpool \<Rightarrow> arena_obj set \<Rightarrow> arena_obj set res" where
  "reset_frees p = free_objs (free_large (cp_large p))"

definition cpool_uninit :: "cpool \<Rightarrow> arena_obj set \<Rightarrow> arena_obj set res" where
  "cpool_uninit p = free_objs (map Block_obj [0..<length (cp_blocks p)] @ free_large (cp_large p) @ [Arena_obj])"

text \<open>What an operation that turned \<open>p\<close> into \<open>p'\<close> took: the blocks it appended, and a large block.\<close>

definition new_blocks :: "cpool \<Rightarrow> cpool \<Rightarrow> arena_obj set" where
  "new_blocks p p' = Block_obj ` {length (cp_blocks p)..<length (cp_blocks p')}"

fun new_large :: "place option \<Rightarrow> arena_obj set" where
  "new_large (Some (Large d)) = {Data_obj d, Node_obj d}"
| "new_large _ = {}"

inductive heap_step :: "cpool \<times> arena_obj set \<Rightarrow> cpool \<times> arena_obj set \<Rightarrow> bool" where
  Heap_alloc: "0 < n \<Longrightarrow> ml_data env \<notin> set (cp_large p) \<Longrightarrow> palloc env n p = Inr (r, p') \<Longrightarrow>
    heap_step (p, heap) (p', heap \<union> new_blocks p p' \<union> new_large r)"
| Heap_align: "align < 2 ^ 64 \<Longrightarrow> cpool_align a b align p = Inr (ok, p') \<Longrightarrow> heap_step (p, heap) (p', heap \<union> new_blocks p p')"
| Heap_save: "cpool_save p = Inr p' \<Longrightarrow> heap_step (p, heap) (p', heap)"
| Heap_restore: "cpool_restore p = Inr p' \<Longrightarrow> restore_frees p heap = Inr heap' \<Longrightarrow> heap_step (p, heap) (p', heap')"
| Heap_reset: "reset_frees p heap = Inr heap' \<Longrightarrow> heap_step (p, heap) (cpool_reset p, heap')"

section \<open>What the arena holds\<close>

definition held :: "cpool \<Rightarrow> arena_obj set" where
  "held p = insert Arena_obj (Block_obj ` {..<length (cp_blocks p)}) \<union> set (free_large (cp_large p))"

lemma set_free_large: "set (free_large ds) = Data_obj ` set ds \<union> Node_obj ` set ds"
  by (auto simp: free_large_def)

lemma distinct_free_large: "distinct (free_large ds) = distinct ds"
  by (induction ds) (auto simp: free_large_def)

lemma free_objs_ok: "distinct xs \<Longrightarrow> set xs \<subseteq> heap \<Longrightarrow> free_objs xs heap = Inr (heap - set xs)"
proof (induction xs arbitrary: heap)
  case (Cons x xs)
  then have "set xs \<subseteq> heap - {x}" by auto
  with Cons have "free_objs xs (heap - {x}) = Inr (heap - {x} - set xs)" by simp
  moreover have "heap - {x} - set xs = heap - set (x # xs)" by auto
  ultimately show ?case using Cons.prems by simp
qed simp

lemma large_distinct: "sorted_wrt apart live \<Longrightarrow> distinct (large_of live)"
proof (induction live rule: large_of.induct)
  case (2 d n rs)
  have "d' \<noteq> d" if "d' \<in> set (large_of rs)" "\<forall>r\<in>set rs. apart (Large d, n) r" for d'
    using that by (induction rs rule: large_of.induct) auto
  with 2 show ?case by auto
qed auto

text \<open>Every object that is allocated is held by the arena, and the arena holds nothing else.\<close>

definition heap_inv :: "cpool \<times> arena_obj set \<Rightarrow> bool" where
  "heap_inv s \<longleftrightarrow> snd s = held (fst s) \<and> (\<exists>live marks. arena_inv (fst s, live, marks))"

lemma heap_inv_facts:
  assumes "heap_inv (p, heap)"
  obtains live marks where "heap = held p" and "arena_inv (p, live, marks)" and "chain_inv p" and "heads_inv p" and "distinct (cp_large p)"
proof -
  from assms obtain live marks where "heap = held p" "arena_inv (p, live, marks)" by (auto simp: heap_inv_def)
  with that [of live marks] show ?thesis
    using large_distinct [of live] by (auto simp: arena_inv_def pool_inv_def live_inv_def)
qed

lemma held_grows:
  assumes "length (cp_blocks p) \<le> length (cp_blocks p')" and "cp_large p' = cp_large p"
  shows "held p \<union> new_blocks p p' = held p'"
proof -
  have "{..<length (cp_blocks p')} = {..<length (cp_blocks p)} \<union> {length (cp_blocks p)..<length (cp_blocks p')}" using assms(1) by auto
  then show ?thesis by (auto simp: held_def new_blocks_def assms(2) image_Un)
qed

lemma held_palloc:
  assumes "chain_inv p" and "0 < n" and "palloc env n p = Inr (r, p')"
  shows "held p \<union> new_blocks p p' \<union> new_large r = held p'"
proof -
  have t: "ahead p p'" "taken env n p p' r" using palloc_taken [OF assms(1,2), of env] assms(3) by auto
  have len: "length (cp_blocks p) \<le> length (cp_blocks p')" using t(1) by (simp add: ahead_def)
  show ?thesis
  proof (cases "\<exists>d. r = Some (Large d)")
    case False
    then have "new_large r = {}" "cp_large p' = cp_large p" using t(2) by (auto elim!: taken.elims)
    with held_grows [OF len] show ?thesis by simp
  next
    case True
    then obtain d where d: "r = Some (Large d)" "cp_large p' = cp_large p @ [d]" using t(2) by auto
    have "held p \<union> new_blocks p p' = held (p'\<lparr>cp_large := cp_large p\<rparr>)"
      using held_grows [of p "p'\<lparr>cp_large := cp_large p\<rparr>"] len by (simp add: new_blocks_def)
    then show ?thesis by (auto simp: d held_def set_free_large)
  qed
qed

text \<open>Freeing the large blocks behind the first \<open>k\<close>.\<close>

lemma free_large_rest:
  assumes "distinct (cp_large p)" and "cp_large p' = take k (cp_large p)" and "length (cp_blocks p') = length (cp_blocks p)"
  shows "free_objs (free_large (drop k (cp_large p))) (held p) = Inr (held p')"
proof -
  have sub: "set (free_large (drop k (cp_large p))) \<subseteq> held p" using set_drop_subset [of k "cp_large p"] by (auto simp: held_def set_free_large)
  have "set (take k (cp_large p)) \<inter> set (drop k (cp_large p)) = {}" using assms(1) by (intro set_take_disj_set_drop_if_distinct) simp_all
  moreover have "set (take k (cp_large p)) \<union> set (drop k (cp_large p)) = set (cp_large p)" by (metis append_take_drop_id set_append)
  ultimately have "set (cp_large p) - set (drop k (cp_large p)) = set (take k (cp_large p))" by blast
  then have "held p - set (free_large (drop k (cp_large p))) = held p'"
    by (auto simp: held_def set_free_large assms(2,3))
  with free_objs_ok [OF _ sub] show ?thesis using assms(1) by (simp add: distinct_free_large)
qed

lemma held_restore:
  assumes "arena_inv (p, live, marks)" and "cpool_restore p = Inr p'"
  shows "restore_frees p (held p) = Inr (held p') \<and> (\<exists>live' marks'. arena_inv (p', live', marks'))"
proof -
  have inv: "pool_inv p live marks" "heads_inv p" using assms(1) by (auto simp: arena_inv_def)
  have d: "distinct (cp_large p)" using inv(1) large_distinct [of live] by (auto simp: pool_inv_def live_inv_def)
  have ne: "cp_snapshots p \<noteq> []" using assms(2) by (auto simp: cpool_restore_def)
  then obtain m ms where marks: "marks = m # ms" using inv(1) by (cases marks) (auto simp: pool_inv_def)
  from arena_step.Restore [OF assms(2)] have "arena_step (p, live, m # ms) (p', take m live, ms)" .
  with arena_step_inv assms(1) have inv': "arena_inv (p', take m live, ms)" unfolding marks by blast
  have r: "cp_last p' = length (cp_blocks p) - 1" "cp_large p' = take (large_count (sn_large (last (cp_snapshots p)))) (cp_large p)"
    using assms(2) ne by (auto simp: cpool_restore_def Let_def)
  have "chain_inv p" "chain_inv p'" using inv(1) inv' by (auto simp: arena_inv_def pool_inv_def)
  then have "length (cp_blocks p) \<noteq> 0" "length (cp_blocks p') \<noteq> 0" "cp_last p' = length (cp_blocks p') - 1" by (simp_all add: chain_inv_def)
  then have "length (cp_blocks p') = length (cp_blocks p)" using r(1) by linarith
  from free_large_rest [OF d r(2) this] have "restore_frees p (held p) = Inr (held p')" unfolding restore_frees_def .
  with inv' show ?thesis by blast
qed

lemma held_reset:
  assumes "arena_inv (p, live, marks)"
  shows "reset_frees p (held p) = Inr (held (cpool_reset p))"
proof -
  have "distinct (cp_large p)" using assms large_distinct [of live] by (auto simp: arena_inv_def pool_inv_def live_inv_def)
  from free_large_rest [OF this, of "cpool_reset p" 0] show ?thesis by (simp add: reset_frees_def cpool_reset_def)
qed

lemma heap_step_inv: "heap_step s t \<Longrightarrow> heap_inv s \<Longrightarrow> heap_inv t"
proof (induction rule: heap_step.induct)
  case (Heap_alloc n env p r p' heap)
  from Heap_alloc(4) obtain live marks where i: "heap = held p" "arena_inv (p, live, marks)" "chain_inv p" by (rule heap_inv_facts)
  have "\<exists>live'. arena_step (p, live, marks) (p', live', marks)"
    using arena_step.Alloc [OF Heap_alloc(1,2)] arena_step.Alloc_fail [OF Heap_alloc(1,2)] Heap_alloc(3) by (cases r) blast+
  with arena_step_inv i(2) have "\<exists>live' marks'. arena_inv (p', live', marks')" by blast
  with held_palloc [OF i(3) Heap_alloc(1,3)] i(1) show ?case by (simp add: heap_inv_def)
next
  case (Heap_align align a b p ok p' heap)
  from Heap_align(3) obtain live marks where i: "heap = held p" "arena_inv (p, live, marks)" "chain_inv p" "heads_inv p" by (rule heap_inv_facts)
  from arena_step_inv [OF arena_step.Align [OF Heap_align(1,2)] i(2)] have "arena_inv (p', live, marks)" .
  moreover have "length (cp_blocks p) \<le> length (cp_blocks p')" "cp_large p' = cp_large p"
    using align_step [OF Heap_align(1,2) i(3,4)] by (simp_all add: ahead_def)
  ultimately show ?case using held_grows [of p p'] i(1) by (auto simp: heap_inv_def)
next
  case (Heap_save p p' heap)
  from Heap_save(2) obtain live marks where i: "heap = held p" "arena_inv (p, live, marks)" by (rule heap_inv_facts)
  from arena_step_inv [OF arena_step.Save [OF Heap_save(1)] i(2)] have "arena_inv (p', live, length live # marks)" .
  moreover have "held p' = held p" using Heap_save(1) by (auto simp: cpool_save_def held_def Let_def split: if_splits)
  ultimately show ?case using i(1) by (auto simp: heap_inv_def)
next
  case (Heap_restore p p' heap heap')
  from Heap_restore(3) obtain live marks where "heap = held p" "arena_inv (p, live, marks)" by (rule heap_inv_facts)
  with held_restore [OF _ Heap_restore(1)] Heap_restore(2) show ?case by (auto simp: heap_inv_def)
next
  case (Heap_reset p heap heap')
  from Heap_reset(2) obtain live marks where i: "heap = held p" "arena_inv (p, live, marks)" by (rule heap_inv_facts)
  from arena_step_inv [OF arena_step.Reset i(2)] held_reset [OF i(2)] Heap_reset(1) i(1) show ?case by (auto simp: heap_inv_def)
qed

interpretation arena_heap: invariant_steps heap_step heap_inv
  by unfold_locales (rule heap_step_inv)

text \<open>
  C8: The arena neither leaks nor frees twice. After any history of a fresh arena (allocations and alignments
  with failing and succeeding \<open>malloc\<close>, snapshots, returns to them, resets) the next \<open>cpool_restore\<close> or \<open>cpool_reset\<close>
  frees only what is allocated, each object once, and \<open>cpool_uninit\<close> then gives back all the rest: every
  block, the data and node of every large block, and the arena itself.
\<close>

theorem arena_gives_all_back:
  assumes "cpool_init True True bs = Some p0" and "bs < 2 ^ 63" and "heap_step\<^sup>*\<^sup>* (p0, {Arena_obj, Block_obj 0}) (p, heap)"
  shows "cpool_uninit p heap = Inr {} \<and> (\<exists>heap'. reset_frees p heap = Inr heap' \<and> cpool_uninit (cpool_reset p) heap' = Inr {}) \<and>
    (cp_snapshots p = [] \<or> (\<exists>p' heap'. cpool_restore p = Inr p' \<and> restore_frees p heap = Inr heap' \<and> cpool_uninit p' heap' = Inr {}))"
proof -
  have all: "cpool_uninit q (held q) = Inr {}" if "arena_inv (q, live, marks)" for q live marks
  proof -
    have d: "distinct (map Block_obj [0..<length (cp_blocks q)] @ free_large (cp_large q) @ [Arena_obj])"
      using that large_distinct [of live] by (auto simp: arena_inv_def pool_inv_def live_inv_def distinct_free_large distinct_map inj_on_def set_free_large)
    have "held q = set (map Block_obj [0..<length (cp_blocks q)] @ free_large (cp_large q) @ [Arena_obj])"
      by (auto simp: held_def atLeast0LessThan)
    with free_objs_ok [OF d] show ?thesis by (simp only: cpool_uninit_def) simp
  qed
  have "heap_inv (p0, {Arena_obj, Block_obj 0})"
    using cpool_init_inv [OF assms(1,2)] assms(1) by (auto simp: heap_inv_def held_def cpool_init_def free_large_def)
  from arena_heap.run_keeps [OF assms(3) this] obtain live marks where i: "heap = held p" "arena_inv (p, live, marks)" by (rule heap_inv_facts)
  have "\<exists>p'. cpool_restore p = Inr p'" if "cp_snapshots p \<noteq> []" using that by (simp add: cpool_restore_def Let_def)
  moreover note held_restore [OF i(2)] held_reset [OF i(2)] arena_step_inv [OF arena_step.Reset i(2)]
  ultimately show ?thesis using all i by blast
qed

text \<open>A block, a second block, a large block, and the end.\<close>

lemma sample_heap_run:
  "heap_step\<^sup>*\<^sup>* (arena_of [zero_block] [], {Arena_obj, Block_obj 0})
     (arena_of [\<lparr>b_head = 10, b_full = False\<rparr>, \<lparr>b_head = 10, b_full = False\<rparr>] [7], {Arena_obj, Block_obj 0, Block_obj 1, Data_obj 7, Node_obj 7})"
proof -
  let ?b = "\<lparr>b_head = 10, b_full = False\<rparr>"
  have "palloc sample_malloc 10 (arena_of [zero_block] []) = Inr (Some (In_block 0 0), arena_of [?b] [])" by (simp add: sample_arena_defs)
  from heap_step.Heap_alloc [OF _ _ this, of "{Arena_obj, Block_obj 0}"]
  have 1: "heap_step (arena_of [zero_block] [], {Arena_obj, Block_obj 0}) (arena_of [?b] [], {Arena_obj, Block_obj 0})"
    by (simp add: arena_of_def new_blocks_def)
  have "palloc sample_malloc 10 (arena_of [?b] []) = Inr (Some (In_block 1 0), arena_of [?b, ?b] [])" by (simp add: sample_arena_defs)
  from heap_step.Heap_alloc [OF _ _ this, of "{Arena_obj, Block_obj 0}"]
  have 2: "heap_step (arena_of [?b] [], {Arena_obj, Block_obj 0}) (arena_of [?b, ?b] [], {Arena_obj, Block_obj 0, Block_obj 1})"
    by (simp add: arena_of_def new_blocks_def insert_commute)
  have "palloc sample_malloc 40 (arena_of [?b, ?b] []) = Inr (Some (Large 7), arena_of [?b, ?b] [7])" by (simp add: sample_arena_defs)
  from heap_step.Heap_alloc [OF _ _ this, of "{Arena_obj, Block_obj 0, Block_obj 1}"]
  have 3: "heap_step (arena_of [?b, ?b] [], {Arena_obj, Block_obj 0, Block_obj 1})
      (arena_of [?b, ?b] [7], {Arena_obj, Block_obj 0, Block_obj 1, Data_obj 7, Node_obj 7})"
    by (simp add: arena_of_def new_blocks_def sample_malloc_def insert_commute)
  from 1 2 3 show ?thesis by (auto intro: converse_rtranclp_into_rtranclp)
qed

theorem arena_gives_all_back_witness:
  "cpool_uninit (arena_of [\<lparr>b_head = 10, b_full = False\<rparr>, \<lparr>b_head = 10, b_full = False\<rparr>] [7])
     {Arena_obj, Block_obj 0, Block_obj 1, Data_obj 7, Node_obj 7} = Inr {}"
  using arena_gives_all_back [OF sample_arena_init sixteen_small sample_heap_run] by (rule conjunct1)

end
