(* ===== verification/Clog.thy ===== *)
theory Clog
  imports CStr
begin

text \<open>
  The logger \<open>include/clog.h\<close>: a log line is put together from a format in an array of fixed size and
  handed to the output. The text that \<open>printf\<close> makes of the message and its arguments is an argument
  of the model; where the code passes a string as a format without arguments, its conversions are
  interpreted. The model keeps the bytes of the array that have been written; a write behind its end
  is a fault.
\<close>

section \<open>Levels\<close>

record clog_level_t =
  lv_name :: string
  lv_color :: string
  lv_severity :: int

definition ESC :: char where "ESC = CHR 0x1B"

definition CLOG_COLOR_RED :: string where "CLOG_COLOR_RED = ESC # ''[31m''"
definition CLOG_COLOR_GREEN :: string where "CLOG_COLOR_GREEN = ESC # ''[32m''"
definition CLOG_COLOR_YELLOW :: string where "CLOG_COLOR_YELLOW = ESC # ''[33m''"
definition CLOG_COLOR_WHITE :: string where "CLOG_COLOR_WHITE = ESC # ''[37m''"
definition CLOG_COLOR_RESET :: string where "CLOG_COLOR_RESET = ESC # ''[0m''"
definition CLOG_COLOR_BOLD :: string where "CLOG_COLOR_BOLD = ESC # ''[1m''"
definition CLOG_COLOR_FAINT :: string where "CLOG_COLOR_FAINT = ESC # ''[2m''"

definition CLOG_SEVERITY_DEBUG :: int where "CLOG_SEVERITY_DEBUG = 0"
definition CLOG_SEVERITY_TRACE :: int where "CLOG_SEVERITY_TRACE = 1"
definition CLOG_SEVERITY_INFO :: int where "CLOG_SEVERITY_INFO = 2"
definition CLOG_SEVERITY_WARNING :: int where "CLOG_SEVERITY_WARNING = 3"
definition CLOG_SEVERITY_ERROR :: int where "CLOG_SEVERITY_ERROR = 4"
definition CLOG_SEVERITY_FATAL :: int where "CLOG_SEVERITY_FATAL = 5"

definition CLOG_DEBUG :: clog_level_t where
  "CLOG_DEBUG = \<lparr>lv_name = ''DEBUG'', lv_color = CLOG_COLOR_GREEN, lv_severity = CLOG_SEVERITY_DEBUG\<rparr>"

definition CLOG_TRACE :: clog_level_t where
  "CLOG_TRACE = \<lparr>lv_name = ''TRACE'', lv_color = CLOG_COLOR_WHITE @ CLOG_COLOR_FAINT, lv_severity = CLOG_SEVERITY_TRACE\<rparr>"

definition CLOG_INFO :: clog_level_t where
  "CLOG_INFO = \<lparr>lv_name = ''INFO'', lv_color = CLOG_COLOR_WHITE, lv_severity = CLOG_SEVERITY_INFO\<rparr>"

definition CLOG_WARNING :: clog_level_t where
  "CLOG_WARNING = \<lparr>lv_name = ''WARNING'', lv_color = CLOG_COLOR_YELLOW, lv_severity = CLOG_SEVERITY_WARNING\<rparr>"

definition CLOG_ERROR :: clog_level_t where
  "CLOG_ERROR = \<lparr>lv_name = ''ERROR'', lv_color = CLOG_COLOR_RED, lv_severity = CLOG_SEVERITY_ERROR\<rparr>"

definition CLOG_FATAL :: clog_level_t where
  "CLOG_FATAL = \<lparr>lv_name = ''FATAL'', lv_color = CLOG_COLOR_BOLD @ CLOG_COLOR_RED, lv_severity = CLOG_SEVERITY_FATAL\<rparr>"

definition CLOG_BUF_LIMIT :: nat where "CLOG_BUF_LIMIT = 1024"

definition CLOG_PRETTY_FMT :: string where "CLOG_PRETTY_FMT = ''%c[%L]%r %t %f:%l   %m''"

definition clog_time_fmt_default :: string where "clog_time_fmt_default = ''%h:%m:%s.%u''"

section \<open>The array\<close>

text \<open>\<open>lb_len\<close> is the counter of the caller, \<open>lb_err\<close> is \<open>__clog_errno\<close>, \<open>lb_args\<close> that the arguments were used.\<close>

record clog_buf =
  lb_bytes :: string
  lb_len :: nat
  lb_err :: bool
  lb_args :: bool

text \<open>The text of a format without arguments.\<close>

function printf_text :: "string \<Rightarrow> string res" where
  "printf_text s =
     (if s = [] then Inr []
      else if hd s \<noteq> CHR ''%'' then bind_res (printf_text (tl s)) (\<lambda>t. Inr (hd s # t))
      else if tl s \<noteq> [] \<and> hd (tl s) = CHR ''%'' then bind_res (printf_text (tl (tl s))) (\<lambda>t. Inr (CHR ''%'' # t))
      else Inl Undefined)"
  by pat_completeness auto
termination
  by (relation "measure length") (auto simp: neq_Nil_conv)

declare printf_text.simps [simp del]

text \<open>Writing the string \<open>t\<close> with its terminator at \<open>target + off\<close>.\<close>

definition write_text :: "nat \<Rightarrow> nat \<Rightarrow> string \<Rightarrow> string \<Rightarrow> string res" where
  "write_text cap off t bytes = (if off + length t + 1 > cap then Inl Undefined else Inr (take off bytes @ t @ [NUL]))"

text \<open>Subtraction of \<open>size_t\<close>.\<close>

definition size_sub :: "nat \<Rightarrow> nat \<Rightarrow> nat" where
  "size_sub a b = (a + 2 ^ 64 - b) mod 2 ^ 64"

text \<open>
  The branch for a text that is too long: \<open>vsnprintf(target, n, ...)\<close>, then \<open>strncat(target, "...", 4)\<close>.
  With \<open>n = 0\<close> nothing is written and \<open>strncat\<close> goes to the terminator of what is there.
\<close>

definition put_cut :: "nat \<Rightarrow> nat \<Rightarrow> string \<Rightarrow> clog_buf \<Rightarrow> clog_buf res" where
  "put_cut cap n t st =
     (if n = 0 \<and> lb_len st \<ge> length (lb_bytes st) then Inl Undefined
      else bind_res (write_text cap (lb_len st) (take (n - 1) t @ ''...'') (lb_bytes st)) (\<lambda>b.
        Inr (st\<lparr>lb_bytes := b, lb_len := lb_len st + length t + 4, lb_err := True\<rparr>)))"

definition put_whole :: "nat \<Rightarrow> string \<Rightarrow> clog_buf \<Rightarrow> clog_buf res" where
  "put_whole cap t st =
     bind_res (write_text cap (lb_len st) t (lb_bytes st)) (\<lambda>b. Inr (st\<lparr>lb_bytes := b, lb_len := lb_len st + length t\<rparr>))"

text \<open>\<open>__clog_buffer_size\<close>: the bytes that a text takes with its terminator.\<close>

definition clog_buffer_size :: "string \<Rightarrow> nat" where
  "clog_buffer_size t = length t + 1"

declare clog_buffer_size_def [simp]

text \<open>\<open>__clog_sprintf\<close> for the text \<open>t\<close>: the size handed to \<open>vsnprintf\<close> is \<open>max_len - len - 5\<close>.\<close>

definition clog_sprintf :: "nat \<Rightarrow> nat \<Rightarrow> string \<Rightarrow> clog_buf \<Rightarrow> clog_buf res" where
  "clog_sprintf max_len cur_len t st =
     (if lb_err st then Inr st
      else let len = clog_buffer_size t
           in if cur_len + len \<ge> max_len then put_cut max_len (size_sub max_len (len + 5)) t st
              else put_whole max_len t st)"

text \<open>\<open>__clog_vsprintf\<close>: here it is \<open>max_len - cur_len - 5\<close>.\<close>

definition clog_vsprintf :: "nat \<Rightarrow> nat \<Rightarrow> string \<Rightarrow> clog_buf \<Rightarrow> clog_buf res" where
  "clog_vsprintf max_len cur_len t st =
     (if lb_err st then Inr st
      else let len = clog_buffer_size t
           in if cur_len + len \<ge> max_len then put_cut max_len (size_sub max_len (cur_len + 5)) t st
              else put_whole max_len t st)"

text \<open>\<open>__clog_sprintf\<close> with a string as its format.\<close>

definition clog_printf :: "nat \<Rightarrow> nat \<Rightarrow> string \<Rightarrow> clog_buf \<Rightarrow> clog_buf res" where
  "clog_printf max_len cur_len s st =
     (if lb_err st then Inr st else bind_res (printf_text s) (\<lambda>t. clog_sprintf max_len cur_len t st))"

section \<open>Time stamps\<close>

text \<open>The settings of the logger and what the clocks say.\<close>

record clog_env =
  cg_tty :: bool
  cg_fmt :: string
  cg_time_fmt :: string
  cg_muted :: int
  cg_hour :: nat
  cg_minute :: nat
  cg_second :: nat
  cg_tv_sec :: nat
  cg_tv_usec :: nat

text \<open>\<open>%02.2i\<close> and \<open>%03.3lu\<close>: at least so many digits.\<close>

definition pad_to :: "nat \<Rightarrow> nat \<Rightarrow> string" where
  "pad_to k n = replicate (k - length (show_nat n)) CHR ''0'' @ show_nat n"

definition millisecond :: "clog_env \<Rightarrow> nat" where
  "millisecond e = (cg_tv_sec e * 1000 + cg_tv_usec e div 1000) mod 1000"

definition time_directive :: "clog_env \<Rightarrow> char \<Rightarrow> clog_buf \<Rightarrow> clog_buf res" where
  "time_directive e c st =
     (if c = CHR ''h'' then clog_sprintf 50 (lb_len st) (pad_to 2 (cg_hour e)) st
      else if c = CHR ''m'' then clog_sprintf 50 (lb_len st) (pad_to 2 (cg_minute e)) st
      else if c = CHR ''s'' then clog_sprintf 50 (lb_len st) (pad_to 2 (cg_second e)) st
      else if c = CHR ''u'' then clog_sprintf 50 (lb_len st) (pad_to 3 (millisecond e)) st
      else Inr st)"

fun time_loop :: "clog_env \<Rightarrow> string \<Rightarrow> clog_buf \<Rightarrow> clog_buf res" where
  "time_loop e [] st = Inr st"
| "time_loop e (c # cs) st =
     (if c = CHR ''%'' then (case cs of [] \<Rightarrow> Inr st | d # ds \<Rightarrow> bind_res (time_directive e d st) (time_loop e ds))
      else bind_res (clog_sprintf 50 (lb_len st) [c] st) (time_loop e cs))"

text \<open>\<open>clog_get_timestamp\<close>: the text and the new value of \<open>__clog_errno\<close>, which it shares with its caller.\<close>

definition clog_get_timestamp :: "clog_env \<Rightarrow> bool \<Rightarrow> (string \<times> bool) res" where
  "clog_get_timestamp e err =
     bind_res (time_loop e (cg_time_fmt e) \<lparr>lb_bytes = replicate 50 NUL, lb_len = 0, lb_err = err, lb_args = False\<rparr>) (\<lambda>st.
       Inr (cstr (lb_bytes st), lb_err st))"

section \<open>Log lines\<close>

record clog_call =
  ca_level :: clog_level_t
  ca_file :: string
  ca_line :: int
  ca_func :: string
  ca_msg :: string

text \<open>One conversion of the format.\<close>

definition clog_directive :: "clog_env \<Rightarrow> clog_call \<Rightarrow> char \<Rightarrow> clog_buf \<Rightarrow> clog_buf res" where
  "clog_directive e a c st =
     (let put = (\<lambda>s. clog_printf CLOG_BUF_LIMIT (lb_len st) s st)
      in if c = CHR ''c'' then (if cg_tty e then put (lv_color (ca_level a)) else Inr st)
         else if c = CHR ''r'' then (if cg_tty e then put CLOG_COLOR_RESET else Inr st)
         else if c = CHR ''L'' then put (lv_name (ca_level a))
         else if c = CHR ''f'' then put (ca_file a)
         else if c = CHR ''l'' then clog_sprintf CLOG_BUF_LIMIT (lb_len st) (show_int (ca_line a)) st
         else if c = CHR ''t'' then
           bind_res (clog_get_timestamp e (lb_err st)) (\<lambda>(ts, err).
             clog_printf CLOG_BUF_LIMIT (lb_len st) ts (st\<lparr>lb_err := err\<rparr>))
         else if c = CHR ''F'' then put (ca_func a)
         else if c = CHR ''%'' then put ''%''
         else if c = CHR ''m'' then
           (if lb_err st then Inr st
            else if lb_args st then Inl Undefined
            else bind_res (clog_vsprintf CLOG_BUF_LIMIT (lb_len st) (ca_msg a) st) (\<lambda>st'. Inr (st'\<lparr>lb_args := True\<rparr>)))
         else Inr st)"

text \<open>The loop over the format; a plain character is written with 0 for \<open>cur_len\<close>.\<close>

fun clog_loop :: "clog_env \<Rightarrow> clog_call \<Rightarrow> string \<Rightarrow> clog_buf \<Rightarrow> clog_buf res" where
  "clog_loop e a [] st = Inr st"
| "clog_loop e a (c # cs) st =
     (if c = CHR ''%'' then (case cs of [] \<Rightarrow> Inr st | d # ds \<Rightarrow> bind_res (clog_directive e a d st) (clog_loop e a ds))
      else bind_res (clog_sprintf CLOG_BUF_LIMIT 0 [c] st) (clog_loop e a cs))"

text \<open>\<open>clog_default_callback\<close>.\<close>

definition clog_default_callback :: "clog_env \<Rightarrow> string \<Rightarrow> string" where
  "clog_default_callback e line = line @ (if cg_tty e then CLOG_COLOR_RESET else []) @ [LF]"

text \<open>\<open>__clog\<close>: what is written to the output, \<open>None\<close> for a muted level.\<close>

definition clog :: "clog_env \<Rightarrow> clog_call \<Rightarrow> string option res" where
  "clog e a =
     (if lv_severity (ca_level a) < cg_muted e then Inr None
      else bind_res (clog_loop e a (cg_fmt e) \<lparr>lb_bytes = [], lb_len = 0, lb_err = False, lb_args = False\<rparr>) (\<lambda>st.
        if lb_bytes st = [] then Inl Undefined
        else Inr (Some (clog_default_callback e (cstr (lb_bytes st))))))"


section \<open>While the array has room\<close>

definition plain_text :: "string \<Rightarrow> bool" where
  "plain_text s \<longleftrightarrow> CHR ''%'' \<notin> set s \<and> NUL \<notin> set s"

lemma plain_text_append [simp]: "plain_text (s @ t) \<longleftrightarrow> plain_text s \<and> plain_text t"
  by (auto simp: plain_text_def)

lemma printf_text_plain: "plain_text s \<Longrightarrow> printf_text s = Inr s"
proof (induction s)
  case (Cons c s)
  then show ?case by (auto simp: printf_text.simps [of "c # s"] plain_text_def)
qed (simp add: printf_text.simps)

text \<open>The array holds the text \<open>t\<close> so far.\<close>

definition buf_holds :: "clog_buf \<Rightarrow> string \<Rightarrow> bool" where
  "buf_holds st t \<longleftrightarrow> lb_len st = length t \<and> \<not> lb_err st \<and> take (length t) (lb_bytes st) = t"

lemma buf_holds_put: "buf_holds (st\<lparr>lb_bytes := t @ r, lb_len := length t\<rparr>) t \<longleftrightarrow> \<not> lb_err st"
  by (simp add: buf_holds_def)

lemma sprintf_fits:
  assumes "buf_holds st t" and "cur \<le> length t" and "length t + length s + 1 < cap"
  shows "clog_sprintf cap cur s st = Inr (st\<lparr>lb_bytes := (t @ s) @ [NUL], lb_len := length (t @ s)\<rparr>)"
    and "clog_vsprintf cap cur s st = Inr (st\<lparr>lb_bytes := (t @ s) @ [NUL], lb_len := length (t @ s)\<rparr>)"
  using assms by (simp_all add: clog_sprintf_def clog_vsprintf_def put_whole_def write_text_def buf_holds_def)

lemma printf_fits:
  assumes "buf_holds st t" and "cur \<le> length t" and "length t + length s + 1 < cap" and "plain_text s"
  shows "clog_printf cap cur s st = Inr (st\<lparr>lb_bytes := (t @ s) @ [NUL], lb_len := length (t @ s)\<rparr>)"
  using assms sprintf_fits(1) [OF assms(1-3)] by (simp add: clog_printf_def printf_text_plain buf_holds_def)

section \<open>The time stamp\<close>

text \<open>\<open>hh:mm:ss.mmm\<close>.\<close>

definition time_text :: "clog_env \<Rightarrow> string" where
  "time_text e = pad_to 2 (cg_hour e) @ '':'' @ pad_to 2 (cg_minute e) @ '':'' @ pad_to 2 (cg_second e) @ ''.'' @ pad_to 3 (millisecond e)"

lemma pad_to_length: "n < 10 ^ k \<Longrightarrow> 0 < k \<Longrightarrow> length (pad_to k n) = k"
  using show_nat_length [of n k] by (simp add: pad_to_def)

lemma pad_to_digits: "c \<in> set (pad_to k n) \<Longrightarrow> isdigit_c c"
  using show_nat_digits by (auto simp: pad_to_def isdigit_c_def)

lemma isdigit_percent: "\<not> isdigit_c CHR ''%''"
  by (simp add: isdigit_c_def)

lemma digits_plain: "(\<And>c. c \<in> set s \<Longrightarrow> isdigit_c c) \<Longrightarrow> plain_text s"
  using isdigit_percent isdigit_not_special(1) unfolding plain_text_def by blast

lemma pad_to_plain: "plain_text (pad_to k n)"
  using pad_to_digits by (rule digits_plain)

lemma show_nat_plain_text: "plain_text (show_nat n)"
  using show_nat_digits by (rule digits_plain)

lemma show_int_plain_text: "plain_text (show_int i)"
  using show_nat_plain_text by (auto simp: show_int_def plain_text_def)

lemma time_text_plain: "plain_text (time_text e)"
  using pad_to_plain by (auto simp: time_text_def plain_text_def)

lemma timestamp_text:
  assumes "cg_time_fmt e = clog_time_fmt_default" and "cg_hour e < 100" and "cg_minute e < 100" and "cg_second e < 100"
  shows "clog_get_timestamp e False = Inr (time_text e, False)" and "length (time_text e) = 12"
proof -
  have len: "length (pad_to 2 (cg_hour e)) = 2" "length (pad_to 2 (cg_minute e)) = 2" "length (pad_to 2 (cg_second e)) = 2"
    "length (pad_to 3 (millisecond e)) = 3"
    using assms(2-4) by (auto intro!: pad_to_length simp: millisecond_def)
  then show "length (time_text e) = 12" by (simp add: time_text_def)
  have "time_loop e clog_time_fmt_default \<lparr>lb_bytes = replicate 50 NUL, lb_len = 0, lb_err = False, lb_args = False\<rparr> =
      Inr \<lparr>lb_bytes = time_text e @ [NUL], lb_len = 12, lb_err = False, lb_args = False\<rparr>"
    using len by (simp add: clog_time_fmt_default_def time_directive_def clog_sprintf_def put_whole_def write_text_def time_text_def)
  moreover have "cstr (time_text e @ [NUL]) = time_text e" using time_text_plain [of e] by (simp add: cstr_append_NUL plain_text_def is_cstr_def)
  ultimately show "clog_get_timestamp e False = Inr (time_text e, False)" by (simp add: clog_get_timestamp_def assms(1))
qed


section \<open>The format\<close>

text \<open>Formats of plain characters and of the conversions other than \<open>%m\<close> and \<open>%%\<close>.\<close>

fun plain_fmt :: "string \<Rightarrow> bool" where
  "plain_fmt [] \<longleftrightarrow> True"
| "plain_fmt (c # cs) \<longleftrightarrow>
     (if c = CHR ''%'' then (case cs of [] \<Rightarrow> False | d # ds \<Rightarrow> d \<in> set ''crLflFt'' \<and> plain_fmt ds) else c \<noteq> NUL \<and> plain_fmt cs)"

text \<open>What a conversion stands for.\<close>

definition directive_text :: "clog_env \<Rightarrow> clog_call \<Rightarrow> char \<Rightarrow> string" where
  "directive_text e a c =
     (if c = CHR ''c'' then if cg_tty e then lv_color (ca_level a) else []
      else if c = CHR ''r'' then if cg_tty e then CLOG_COLOR_RESET else []
      else if c = CHR ''L'' then lv_name (ca_level a)
      else if c = CHR ''f'' then ca_file a
      else if c = CHR ''l'' then show_int (ca_line a)
      else if c = CHR ''t'' then time_text e
      else if c = CHR ''F'' then ca_func a
      else if c = CHR ''m'' then ca_msg a
      else [])"

fun line_text :: "clog_env \<Rightarrow> clog_call \<Rightarrow> string \<Rightarrow> string" where
  "line_text e a [] = []"
| "line_text e a (c # cs) =
     (if c = CHR ''%'' then (case cs of [] \<Rightarrow> [] | d # ds \<Rightarrow> directive_text e a d @ line_text e a ds) else c # line_text e a cs)"

text \<open>A call with plain texts and a clock that shows a time.\<close>

definition log_clock_ok :: "clog_env \<Rightarrow> bool" where
  "log_clock_ok e \<longleftrightarrow> cg_time_fmt e = clog_time_fmt_default \<and> cg_hour e < 100 \<and> cg_minute e < 100 \<and> cg_second e < 100"

definition call_ok :: "clog_call \<Rightarrow> bool" where
  "call_ok a \<longleftrightarrow> ca_level a \<in> {CLOG_DEBUG, CLOG_TRACE, CLOG_INFO, CLOG_WARNING, CLOG_ERROR, CLOG_FATAL} \<and>
     plain_text (ca_file a) \<and> plain_text (ca_func a)"

lemmas level_defs = CLOG_DEBUG_def CLOG_TRACE_def CLOG_INFO_def CLOG_WARNING_def CLOG_ERROR_def CLOG_FATAL_def
  CLOG_COLOR_RED_def CLOG_COLOR_GREEN_def CLOG_COLOR_YELLOW_def CLOG_COLOR_WHITE_def CLOG_COLOR_RESET_def CLOG_COLOR_BOLD_def
  CLOG_COLOR_FAINT_def ESC_def

lemma level_plain:
  assumes "call_ok a"
  shows "plain_text (lv_name (ca_level a))" and "plain_text (lv_color (ca_level a))" and "plain_text CLOG_COLOR_RESET"
    and "length (lv_name (ca_level a)) \<le> 7" and "length (lv_color (ca_level a)) \<le> 9"
  using assms by (auto simp: call_ok_def level_defs plain_text_def)

lemma directive_fits:
  assumes "buf_holds st t" and "call_ok a" and "log_clock_ok e" and "c \<in> set ''crLflFt''"
    and "length t + length (directive_text e a c) + 1 < CLOG_BUF_LIMIT"
  shows "\<exists>st'. clog_directive e a c st = Inr st' \<and> buf_holds st' (t @ directive_text e a c) \<and> lb_args st' = lb_args st"
proof -
  let ?s = "directive_text e a c"
  have len: "lb_len st = length t" "\<not> lb_err st" using assms(1) by (simp_all add: buf_holds_def)
  have ts: "clog_get_timestamp e False = Inr (time_text e, False)" using timestamp_text(1) assms(3) by (simp add: log_clock_ok_def)
  have c: "c = CHR ''c'' \<or> c = CHR ''r'' \<or> c = CHR ''L'' \<or> c = CHR ''f'' \<or> c = CHR ''l'' \<or> c = CHR ''F'' \<or> c = CHR ''t''"
    using assms(4) by simp
  have files: "plain_text (ca_file a)" "plain_text (ca_func a)" using assms(2) by (simp_all add: call_ok_def)
  have plain: "plain_text ?s"
    using c by (elim disjE) (simp_all add: directive_text_def level_plain [OF assms(2)] time_text_plain show_int_plain_text files, simp_all add: plain_text_def)
  let ?st = "st\<lparr>lb_bytes := (t @ ?s) @ [NUL], lb_len := length (t @ ?s)\<rparr>"
  have sp: "clog_sprintf CLOG_BUF_LIMIT (lb_len st) ?s st = Inr ?st"
    using sprintf_fits(1) [OF assms(1) _ assms(5)] len(1) by simp
  have pr: "clog_printf CLOG_BUF_LIMIT (lb_len st) ?s st = Inr ?st"
    using printf_fits [OF assms(1) _ assms(5) plain] len(1) by simp
  have "clog_directive e a c st = Inr ?st \<or> clog_directive e a c st = Inr st \<and> ?s = []"
    using c
  proof (elim disjE)
    assume "c = CHR ''t''"
    moreover have same: "st\<lparr>lb_err := False\<rparr> = st" using len(2) by simp
    ultimately show ?thesis using pr ts len(2) by (simp add: clog_directive_def directive_text_def same)
  qed (use sp pr in \<open>simp_all add: clog_directive_def directive_text_def split: if_splits\<close>)
  then show ?thesis using assms(1) len(2) buf_holds_put [where st = st and t = "t @ ?s" and r = "[NUL]"] by auto
qed

text \<open>While the text fits, the loop writes what the format stands for.\<close>

lemma clog_loop_fits:
  assumes "plain_fmt f" and "buf_holds st t" and "call_ok a" and "log_clock_ok e" and "length t + length (line_text e a f) + 1 < CLOG_BUF_LIMIT"
  shows "\<exists>st'. clog_loop e a (f @ g) st = clog_loop e a g st' \<and> buf_holds st' (t @ line_text e a f) \<and> lb_args st' = lb_args st"
  using assms
proof (induction f arbitrary: st t rule: plain_fmt.induct)
  case (2 c cs)
  show ?case
  proof (cases "c = CHR ''%''")
    case True
    with "2.prems"(1) obtain d ds where cs: "cs = d # ds" "d \<in> set ''crLflFt''" "plain_fmt ds" by (cases cs) auto
    with "2.prems"(5) True have "length t + length (directive_text e a d) + 1 < CLOG_BUF_LIMIT" by simp
    from directive_fits [OF "2.prems"(2-4) cs(2) this] obtain st1 where
      st1: "clog_directive e a d st = Inr st1" "buf_holds st1 (t @ directive_text e a d)" "lb_args st1 = lb_args st" by blast
    from "2.IH"(1) [OF True cs(1,3) st1(2) "2.prems"(3,4)] "2.prems"(5) True cs obtain st' where
      "clog_loop e a (ds @ g) st1 = clog_loop e a g st'" "buf_holds st' ((t @ directive_text e a d) @ line_text e a ds)" "lb_args st' = lb_args st1"
      by auto
    then show ?thesis using True cs st1 by auto
  next
    case False
    have l: "length t + length [c] + 1 < CLOG_BUF_LIMIT" using "2.prems"(5) False by simp
    note p = sprintf_fits(1) [OF "2.prems"(2) _ l, of 0]
    let ?st = "st\<lparr>lb_bytes := (t @ [c]) @ [NUL], lb_len := length (t @ [c])\<rparr>"
    have h: "buf_holds ?st (t @ [c])" using "2.prems"(2) unfolding buf_holds_put by (simp add: buf_holds_def)
    from "2.IH"(2) [OF False _ h "2.prems"(3,4)] "2.prems"(1,5) False obtain st' where
      "clog_loop e a (cs @ g) ?st = clog_loop e a g st'" "buf_holds st' ((t @ [c]) @ line_text e a cs)" "lb_args st' = lb_args st" by auto
    then show ?thesis using False p by auto
  qed
qed auto


section \<open>The message at the end\<close>

text \<open>What is printed of a message that starts at the position \<open>k\<close>.\<close>

definition shown_message :: "nat \<Rightarrow> string \<Rightarrow> string" where
  "shown_message k msg = (if k + length msg + 1 < CLOG_BUF_LIMIT then msg else take (CLOG_BUF_LIMIT - k - 6) msg @ ''...'')"

lemma message_put:
  assumes "buf_holds st t" and "\<not> lb_args st" and "length t \<le> 1018"
  shows "\<exists>st'. clog_directive e a CHR ''m'' st = Inr st' \<and> lb_bytes st' = t @ shown_message (length t) (ca_msg a) @ [NUL]"
proof (cases "length t + length (ca_msg a) + 1 < CLOG_BUF_LIMIT")
  case True
  with sprintf_fits(2) [OF assms(1) order.refl True] assms(1,2) show ?thesis
    by (simp add: clog_directive_def shown_message_def buf_holds_def)
next
  case False
  have room: "size_sub CLOG_BUF_LIMIT (length t + 5) = CLOG_BUF_LIMIT - length t - 5"
    using assms(3) by (simp add: size_sub_def CLOG_BUF_LIMIT_def mod_if)
  have "length (take (CLOG_BUF_LIMIT - length t - 6) (ca_msg a)) + length t + 4 \<le> CLOG_BUF_LIMIT"
    using assms(3) by (simp add: CLOG_BUF_LIMIT_def)
  with False room assms show ?thesis
    by (simp add: clog_directive_def clog_vsprintf_def put_cut_def write_text_def buf_holds_def shown_message_def CLOG_BUF_LIMIT_def)
qed

lemma clog_message_last:
  assumes "cg_fmt e = f @ ''%m''" and "plain_fmt f" and "call_ok a" and "log_clock_ok e" and "length (line_text e a f) \<le> 1018"
    and "is_cstr (ca_msg a)" and "plain_text (line_text e a f)" and "cg_muted e \<le> lv_severity (ca_level a)"
  shows "clog e a = Inr (Some (line_text e a f @ shown_message (length (line_text e a f)) (ca_msg a)
      @ (if cg_tty e then CLOG_COLOR_RESET else []) @ [LF]))"
proof -
  let ?st = "\<lparr>lb_bytes = [], lb_len = 0, lb_err = False, lb_args = False\<rparr>" and ?t = "line_text e a f"
  have h: "buf_holds ?st []" by (simp add: buf_holds_def)
  have "length [] + length ?t + 1 < CLOG_BUF_LIMIT" using assms(5) by (simp add: CLOG_BUF_LIMIT_def)
  from clog_loop_fits [OF assms(2) h assms(3,4) this, of "''%m''"] obtain st1 where
    st1: "clog_loop e a (f @ ''%m'') ?st = clog_loop e a ''%m'' st1" "buf_holds st1 ?t" "\<not> lb_args st1" by auto
  from message_put [OF st1(2,3) assms(5)] obtain st2 where
    st2: "clog_directive e a CHR ''m'' st1 = Inr st2" "lb_bytes st2 = ?t @ shown_message (length ?t) (ca_msg a) @ [NUL]" by blast
  have "is_cstr (?t @ shown_message (length ?t) (ca_msg a))"
    using assms(6,7) by (auto simp: plain_text_def shown_message_def is_cstr_def dest: in_set_takeD)
  then have "cstr (lb_bytes st2) = ?t @ shown_message (length ?t) (ca_msg a)"
    using cstr_append_NUL [of "?t @ shown_message (length ?t) (ca_msg a)" "[]"] st2(2) by simp
  with assms(1,8) st1(1) st2 show ?thesis by (simp add: clog_def clog_default_callback_def)
qed

section \<open>Properties of the logger\<close>

text \<open>The formats of the program: a prefix that names the thread and \<open>CLOG_PRETTY_FMT\<close>.\<close>

definition pretty_head :: "clog_env \<Rightarrow> clog_call \<Rightarrow> string \<Rightarrow> string" where
  "pretty_head e a pre = pre @ directive_text e a CHR ''c'' @ ''['' @ lv_name (ca_level a) @ '']'' @ directive_text e a CHR ''r'' @ '' ''
     @ time_text e @ '' '' @ ca_file a @ '':'' @ show_int (ca_line a) @ ''   ''"

definition main_fmt :: string where "main_fmt = ''[Foxtails] '' @ CLOG_PRETTY_FMT"

text \<open>\<open>snprintf(fmt_buf, 128, "[Worker %d] %s", worker_id, CLOG_PRETTY_FMT)\<close>.\<close>

definition worker_fmt :: "int \<Rightarrow> string" where
  "worker_fmt worker_id = take 127 (''[Worker '' @ show_int worker_id @ ''] '' @ CLOG_PRETTY_FMT)"

lemma show_int_length: "\<bar>i\<bar> < 10 ^ 10 \<Longrightarrow> length (show_int i) \<le> 11"
proof -
  assume "\<bar>i\<bar> < 10 ^ 10"
  then have "nat \<bar>i\<bar> < 10 ^ 10" by simp
  from show_nat_length [OF this] show ?thesis by (simp add: show_int_def abs_if split: if_splits)
qed

lemma program_formats:
  assumes "\<bar>worker_id\<bar> < 10 ^ 10" and "fmt = main_fmt \<or> fmt = worker_fmt worker_id"
  shows "\<exists>pre. fmt = pre @ CLOG_PRETTY_FMT \<and> plain_text pre \<and> length pre \<le> 100"
proof -
  let ?pre = "''[Worker '' @ show_int worker_id @ ''] ''"
  have "length (?pre @ CLOG_PRETTY_FMT) \<le> 127" "length ?pre \<le> 100"
    using show_int_length [OF assms(1)] by (simp_all add: CLOG_PRETTY_FMT_def)
  then have "worker_fmt worker_id = ?pre @ CLOG_PRETTY_FMT" "length ?pre \<le> 100" by (simp_all add: worker_fmt_def)
  moreover have "plain_text ?pre" using show_int_plain_text by (simp add: plain_text_def)
  ultimately show ?thesis using assms(2) unfolding main_fmt_def
    by (elim disjE) (rule exI [of _ "''[Foxtails] ''"], simp add: plain_text_def, rule exI [of _ ?pre], simp)
qed

lemma line_text_plain_prefix: "CHR ''%'' \<notin> set pre \<Longrightarrow> line_text e a (pre @ f) = pre @ line_text e a f"
  by (induction pre) auto

lemma plain_fmt_prefix: "plain_text pre \<Longrightarrow> plain_fmt (pre @ f) \<longleftrightarrow> plain_fmt f"
  by (induction pre) (auto simp: plain_text_def)

lemma pretty_line_bounded:
  assumes "cg_fmt e = pre @ CLOG_PRETTY_FMT" and "plain_text pre" and "length pre \<le> 100" and "call_ok a" and "log_clock_ok e"
    and "length (ca_file a) \<le> 500" and "\<bar>ca_line a\<bar> < 10 ^ 10" and "is_cstr (ca_msg a)" and "cg_muted e \<le> lv_severity (ca_level a)"
  shows "clog e a = Inr (Some (pretty_head e a pre @ shown_message (length (pretty_head e a pre)) (ca_msg a)
      @ (if cg_tty e then CLOG_COLOR_RESET else []) @ [LF])) \<and>
    length (pretty_head e a pre @ shown_message (length (pretty_head e a pre)) (ca_msg a)) < CLOG_BUF_LIMIT"
proof -
  define f where "f = pre @ ''%c[%L]%r %t %f:%l   ''"
  have "cg_fmt e = f @ ''%m''" by (simp add: f_def assms(1) CLOG_PRETTY_FMT_def)
  moreover have pf: "plain_fmt f" unfolding f_def by (simp add: plain_fmt_prefix [OF assms(2)])
  moreover have lt: "line_text e a f = pretty_head e a pre"
    using assms(2) by (simp add: f_def line_text_plain_prefix plain_text_def pretty_head_def directive_text_def)
  moreover have pl: "plain_text (pretty_head e a pre)"
    using level_plain [OF assms(4)] assms(2,4) time_text_plain show_int_plain_text
    by (simp add: pretty_head_def directive_text_def call_ok_def plain_text_def)
  moreover have len: "length (pretty_head e a pre) \<le> 1018"
  proof -
    have "length (show_int (ca_line a)) \<le> 11" by (rule show_int_length [OF assms(7)])
    moreover have "length (time_text e) = 12" using timestamp_text(2) assms(5) by (simp add: log_clock_ok_def)
    moreover have "length CLOG_COLOR_RESET = 4" by (simp add: CLOG_COLOR_RESET_def)
    ultimately show ?thesis using level_plain(4,5) [OF assms(4)] assms(3,6) by (simp add: pretty_head_def directive_text_def)
  qed
  ultimately have "clog e a = Inr (Some (pretty_head e a pre @ shown_message (length (pretty_head e a pre)) (ca_msg a)
      @ (if cg_tty e then CLOG_COLOR_RESET else []) @ [LF]))"
    using clog_message_last [of e f a] assms(4,5,8,9) by simp
  moreover have "length (pretty_head e a pre @ shown_message (length (pretty_head e a pre)) (ca_msg a)) < CLOG_BUF_LIMIT"
    using len by (simp add: shown_message_def CLOG_BUF_LIMIT_def)
  ultimately show ?thesis by blast
qed


text \<open>
  C9: A log line never leaves its array, whatever the message. With the formats of the program (the one
  that \<open>main\<close> sets, and the one of each worker), every call whose level is not muted prints the head of the line
  (level, time, file and line) followed by the message, which is cut with three dots when head and
  message together do not fit into \<open>CLOG_BUF_LIMIT\<close>; no write is outside the array.
\<close>

theorem clog_line_bounded:
  assumes "cg_fmt e = main_fmt \<or> cg_fmt e = worker_fmt worker_id" and "\<bar>worker_id\<bar> < 10 ^ 10" and "call_ok a" and "log_clock_ok e"
    and "length (ca_file a) \<le> 500" and "\<bar>ca_line a\<bar> < 10 ^ 10" and "is_cstr (ca_msg a)" and "cg_muted e \<le> lv_severity (ca_level a)"
  shows "\<exists>pre. cg_fmt e = pre @ CLOG_PRETTY_FMT \<and> clog e a = Inr (Some (pretty_head e a pre @ shown_message (length (pretty_head e a pre)) (ca_msg a)
      @ (if cg_tty e then CLOG_COLOR_RESET else []) @ [LF])) \<and>
    length (pretty_head e a pre @ shown_message (length (pretty_head e a pre)) (ca_msg a)) < CLOG_BUF_LIMIT"
proof -
  from program_formats [OF assms(2,1)] obtain pre where pre: "cg_fmt e = pre @ CLOG_PRETTY_FMT" "plain_text pre" "length pre \<le> 100" by blast
  from pretty_line_bounded [OF pre assms(3-8)] pre(1) show ?thesis by blast
qed

text \<open>The first line of \<open>main\<close> that is logged, at 8:05:09.007, and a message of 2000 bytes.\<close>

definition sample_log_env :: clog_env where
  "sample_log_env = \<lparr>cg_tty = True, cg_fmt = main_fmt, cg_time_fmt = clog_time_fmt_default, cg_muted = -1,
     cg_hour = 8, cg_minute = 5, cg_second = 9, cg_tv_sec = 100, cg_tv_usec = 7000\<rparr>"

definition sample_log_call :: clog_call where
  "sample_log_call = \<lparr>ca_level = CLOG_WARNING, ca_file = ''src/main.c'', ca_line = 45, ca_func = ''main'', ca_msg = replicate 2000 CHR ''x''\<rparr>"

theorem clog_line_bounded_witness:
  "\<exists>out. clog sample_log_env sample_log_call = Inr (Some out) \<and> length out \<le> CLOG_BUF_LIMIT + 4"
proof -
  have "call_ok sample_log_call" "log_clock_ok sample_log_env" "is_cstr (ca_msg sample_log_call)"
    "cg_muted sample_log_env \<le> lv_severity (ca_level sample_log_call)"
    by (simp_all add: sample_log_env_def sample_log_call_def plain_text_def call_ok_def log_clock_ok_def is_cstr_def CLOG_WARNING_def
        CLOG_SEVERITY_WARNING_def)
  moreover have "cg_fmt sample_log_env = main_fmt" "length (ca_file sample_log_call) \<le> 500" "\<bar>ca_line sample_log_call\<bar> < 10 ^ 10"
    by (simp_all add: sample_log_env_def sample_log_call_def)
  moreover have "length CLOG_COLOR_RESET = 4" by (simp add: CLOG_COLOR_RESET_def)
  ultimately show ?thesis using clog_line_bounded [of sample_log_env 0 sample_log_call] by auto
qed

text \<open>
  C40: The other writer overruns the array: \<open>__clog_sprintf\<close> computes the size for \<open>vsnprintf\<close> from the length
  of the new text instead of the position in the array, so a text that no longer fits is written
  in full (or nearly so) behind its end. A format with a conversion behind the message is enough.
\<close>

theorem clog_sprintf_overruns:
  assumes "buf_holds st t" and "length t + length s \<ge> CLOG_BUF_LIMIT" and "length t < CLOG_BUF_LIMIT" and "length s \<le> 509"
  shows "clog_sprintf CLOG_BUF_LIMIT (lb_len st) s st = Inl Undefined"
proof -
  have "size_sub CLOG_BUF_LIMIT (length s + 1 + 5) = CLOG_BUF_LIMIT - length s - 6"
    using assms(4) by (simp add: size_sub_def CLOG_BUF_LIMIT_def mod_if)
  then show ?thesis
    using assms by (simp add: clog_sprintf_def put_cut_def write_text_def buf_holds_def CLOG_BUF_LIMIT_def)
qed

theorem clog_sprintf_overruns_witness:
  "clog_sprintf CLOG_BUF_LIMIT 1000 (replicate 100 CHR ''y'')
     \<lparr>lb_bytes = replicate 1000 CHR ''x'' @ [NUL], lb_len = 1000, lb_err = False, lb_args = True\<rparr> = Inl Undefined"
  using clog_sprintf_overruns [of "\<lparr>lb_bytes = replicate 1000 CHR ''x'' @ [NUL], lb_len = 1000, lb_err = False, lb_args = True\<rparr>"
      "replicate 1000 CHR ''x''" "replicate 100 CHR ''y''"]
  by (simp add: buf_holds_def CLOG_BUF_LIMIT_def)

text \<open>\<open>%%\<close> in a format hands \<open>"%"\<close> to \<open>printf\<close>, which is no conversion.\<close>

lemma percent_undefined: "\<not> lb_err st \<Longrightarrow> clog_directive e a CHR ''%'' st = Inl Undefined"
  by (simp add: clog_directive_def clog_printf_def printf_text.simps)

lemma muted_silent: "lv_severity (ca_level a) < cg_muted e \<Longrightarrow> clog e a = Inr None"
  by (simp add: clog_def)

end
