(* ===== verification/Spec2Isabelle.thy ===== *)
theory Spec2Isabelle
  imports Program Cpool_Heap Clog
begin

text \<open>
  Foxtails is an HTTP server in C. This development models its sources under \<open>src/\<close> and proves what
  makes them correct, together with the places where they are not.

  \<^bold>\<open>The program.\<close> \<open>main\<close> (\<open>foxtails/src/main.c\<close>) reads \<open>foxtails.conf\<close> (\<open>utils/config.c\<close>) and \<open>routes.conf\<close>
  (\<open>utils/routing.c\<close>), creates a listening socket (\<open>utils/sockets.c\<close>), a table of client slots with an epoll
  instance (\<open>utils/server.c\<close>) and a pool of threads with a command queue (\<open>utils/workers.c\<close>). Each round of
  its loop fetches events, removes idle clients, accepts connections into free slots and hands
  clients with data to the queue. A worker takes a client from the queue and calls
  \<open>worker_callback\<close> (\<open>foxtails/src/worker_loop.c\<close>): it receives a request, parses it (\<open>utils/http.c\<close>), looks
  for a route, serves a file or forwards the request to a backend, sends the response, and arms the
  client again or gives it up. Strings and tables come from an arena (\<open>include/cpool.h\<close>), messages go
  to a logger (\<open>include/clog.h\<close>).

  \<^bold>\<open>Theories.\<close>
  \<^item> \<open>Foxtails_Prelude\<close>: faults (\<open>Undefined\<close>, a failed assertion, \<open>exit\<close>) as the left side of a sum,
    \<open>bind_res\<close>, and the locale \<open>invariant_steps\<close> for invariants of step relations. \<open>CStr\<close>: the functions of the C library on
    strings. \<open>Os_World\<close>: open descriptors, address blocks, epoll registrations, bytes sent.
  \<^item> \<open>Http\<close>, \<open>Http_Parse\<close>, \<open>Http_Send\<close>, \<open>Http_Recv\<close> (\<open>http.h\<close>, \<open>http.c\<close>): the message with its header table (locale
    \<open>header_table\<close>), the parsers, the writers with their fixed array, and the receiver with its growing
    buffer. The request parser equals a reference parser on words; what is written is parsed back;
    a message arrives whole however it is cut into segments.
  \<^item> \<open>Line_Loop\<close> (locale \<open>line_loop\<close>), \<open>Routing\<close>, \<open>Config\<close>: the two line parsers over a mapped file. Written
    tables are read back; malformed lines are skipped; which value \<open>config_get\<close> finds.
  \<^item> \<open>Workers\<close> (locale \<open>fifo\<close>), \<open>Worker_Threads\<close>: the ring buffer on 32-bit words with its resize, refining a
    list; the threads as a step relation over all interleavings of lock, wait, signal, take and join.
    Clients are handled in order, no wake-up is lost, one callback runs at a time, and once the flag is set
    the shutdown ends.
  \<^item> \<open>Server\<close> (locale \<open>bounded_stack\<close>), \<open>Sockets\<close>, \<open>Client_Bytes\<close>: free list and slot table with the ownership of
    descriptors and blocks, sockets and backend URLs, and the bytes of \<open>client_t\<close> in the queue.
  \<^item> \<open>Handler\<close>: \<open>worker_callback\<close> with everything it calls. A served file lies inside the root; a
    callback keeps the invariant of the server; unusable requests get the matching answer.
  \<^item> \<open>Main_Loop\<close>: the settings and one round (sweep, dispatch, accept): who stays, who is removed and
    released, who is queued.
  \<^item> \<open>Program\<close>: the start of \<open>main\<close>, rounds and callbacks in any order, and its end. Under the assumptions below the
    queue holds exactly the marked clients, every round returns, nothing that is tracked leaks. The race between arming a client again and
    clearing its mark stands at the end.
  \<^item> \<open>Cpool\<close>, \<open>Cpool_Heap\<close>: the arena with blocks, large blocks and snapshots; allocations do not overlap, scopes
    restore the arena, and everything taken from \<open>malloc\<close> is freed once.
  \<^item> \<open>Clog\<close>: log lines in an array of fixed size. With the formats of the program no write leaves the
    array; the writer for single conversions does leave it with others.
  \<^item> This theory: the properties that lead from bytes received to bytes sent, for a file and for
    a backend.

  \<^bold>\<open>How code is modelled.\<close> A struct is a record, a C string or a buffer the list of its bytes, a
  counter that can wrap a word, a function a definition with its name. What the code asks of the
  system (files, clock, \<open>accept\<close>, \<open>epoll_ctl\<close>, \<open>pthread_create\<close>, segments from \<open>recv\<close>, and the results of \<open>malloc\<close> and of the
  arena, but for the copies named below) is an argument, so the theorems hold for every answer. Undefined behaviour is a value, and "does not fault" is a
  theorem. No loop has fuel: each is structural or has a measure (bytes left, digits left, segments
  left), and the threads are an inductive relation for which termination is proved.

  \<^bold>\<open>Assumptions.\<close> New descriptors and blocks are not in use; epoll reports armed descriptors, each
  once, and disarms them (\<open>EPOLLONESHOT\<close>); the clock stays in a range where differences fit; the queue
  stays below \<open>2 ^ 30\<close> entries. The small copies that the parsers and the header table take from the arena (\<open>pmemdup\<close>,
  \<open>pstrdup\<close>, \<open>pstrndup\<close>) succeed: the code does not test them, and a failed one is a read through a null pointer. What
  \<open>config_get\<close> logs without a file is a null pointer for \<open>%s\<close>, which glibc prints as a word. In \<open>Program\<close> a callback is one
  step with one clock value, because the lock of the queue is held around it, and only callbacks that return without a
  fault are steps; a sweep or an accept of the main thread during a callback is not interleaved with its parts, except
  in the race that is proved. Rounds in which a reported client has just expired, the queue cannot grow, or \<open>accept\<close>
  fails otherwise than with \<open>EAGAIN\<close> are excluded there; \<open>Main_Loop\<close> shows what the first two lead to.

  \<^bold>\<open>Not modelled.\<close> The kernel and \<open>pthread\<close> beyond what is said above; partial \<open>send\<close> (the code ignores its
  result); what is obtained and given back inside one function and therefore not counted in \<open>os_world\<close>: the
  descriptor and the mapping of a served file (\<open>get_path\<close>) and of \<open>routes.conf\<close> (\<open>routes_parse\<close>), and the buffer of \<open>http_recv_message\<close>, which
  its callers free; the table of routes, which \<open>routes_delete\<close> frees, and the mapping of \<open>foxtails.conf\<close>; the signal handler, which only
  ends the sequence of rounds; the branches of \<open>clog.h\<close> for Windows, MSVC and \<open>CLOG_NO_TIME\<close>, its unused colours and
  user callbacks; IPv6 and TLS, which the program does not have.
\<close>

section \<open>From bytes on the wire to bytes on the wire\<close>

lemma mime_type_str_plain: "value_ok (mime_type_str t) \<and> length (mime_type_str t) \<le> 40"
  by (simp add: mime_type_str_def value_ok_def)

lemma file_response_ok:
  assumes "bytes \<noteq> []" and "length bytes < 2 ^ 64" and "0 \<le> now" and "now < 1000000000000"
  shows "response_ok now (file_response p (Some bytes) (length bytes))"
    and "length (response_head now (file_response p (Some bytes) (length bytes))) < HEADER_SIZE"
proof -
  let ?r = "file_response p (Some bytes) (length bytes)"
  have ct: "with_content_type ?r = ?r" by (simp add: with_content_type_def http_has_header_def http_get_header_def strcaseeq_def)
  show "response_ok now ?r"
    using assms(1,2) mime_type_str_plain ct
    by (simp add: response_ok_def all_headers_def own_headers_def headers_ok_def hdr_pair_def body_ok_def headers_wf_def mk_header_def
        name_ok_def strcaseeq_def tolower_c_def HTTP_MAX_HEADERS_def HTTP_VERSION_1_1_def)
  show "length (response_head now ?r) < HEADER_SIZE"
    using assms mime_type_str_plain [of "get_mime_type p"] ct
    by (intro short_response_sent(1) [where rs = "''OK''"]) (simp_all add: hdr_pair_def header_text_def)
qed


text \<open>How a callback goes on once the request is read and its response written.\<close>

lemma callback_answers:
  assumes "http_recv_message (h_malloc_ok env) (h_moves env) True segs = Inr (buf, rest)" and "buf \<noteq> []"
    and "http_request_parse buf = Inr req" and "m_path req = Some url" and "fetch_response env req w = Inr (resp, w1)"
    and "http_send_response (h_now env) (h_pool_ok env) resp = Inr (Some out)" and "same_resources w w1"
    and "server_inv F H sv w" and "copy_of_slot c sv i"
  shows "\<exists>sv' w'. worker_callback env WORKER_ACTION_NEW_CLIENT c segs sv w = Inr (sv', w') \<and> server_inv F H sv' w' \<and>
    w_sent w' = w_sent w1 @ [(c_fd c, out)] \<and>
    alive_slots sv' = (if http_is_keep_alive req \<and> h_rearm_ok env then alive_slots sv else alive_slots sv - {i})"
proof -
  define w2 where "w2 = os_send (c_fd c) (Some out) w1"
  have "same_resources w w2" unfolding w2_def by (rule same_resources_trans [OF assms(7) os_send_resources])
  then have inv: "server_inv F H sv w2" by (rule same_resources_inv [OF assms(8)])
  have sent: "w_sent w2 = w_sent w1 @ [(c_fd c, out)]" by (simp add: w2_def os_send_def)
  have idx: "nat (c_idx c) = i" and lt: "i < length (sv_clients sv)"
    using assms(8,9) by (auto simp: copy_of_slot_def server_inv_def slots_inv_def alive_slots_def)
  have cb: "worker_callback env WORKER_ACTION_NEW_CLIENT c segs sv w =
      (if http_is_keep_alive req \<and> h_rearm_ok env
       then Inr (slot_update i (\<lambda>c. c\<lparr>c_last_recv := h_now env, c_in_flight := False\<rparr>) sv, os_epoll_set (c_fd c) (Some i) w2)
       else drop_client c sv w2)"
    using assms(1-6) idx by (simp add: worker_callback_def WORKER_ACTION_NEW_CLIENT_def WORKER_ACTION_NOOP_def w2_def Let_def)
  show ?thesis
  proof (cases "http_is_keep_alive req \<and> h_rearm_ok env")
    case True
    have "alive_slots (slot_update i (\<lambda>c. c\<lparr>c_last_recv := h_now env, c_in_flight := False\<rparr>) sv) = alive_slots sv"
      using lt by (auto simp: slot_update_def alive_slots_def nth_list_update split: if_splits)
    with True cb keep_client_inv [OF inv assms(9), of "h_now env"] sent show ?thesis by (simp add: os_epoll_set_def)
  next
    case False
    with cb drop_client_inv [OF inv assms(9)] sent show ?thesis by auto
  qed
qed

text \<open>
  C1: A GET request is answered with the file, end to end. However the bytes of the request are cut into
  segments, when they parse as a GET of \<open>url\<close> that no route takes and \<open>url\<close> leads to a readable, non-empty
  file inside the root, one message is sent to the client, and read back as a response it has status
  200, exactly the bytes of the file and the media type of its extension; the connection is kept
  or given up as the request asked, and the server stays consistent. The hypotheses on the
  buffer are those of the receiver: it grows without being moved, or need not grow.
\<close>

theorem get_request_answered:
  assumes "head_announces head (length body)" and "concat segs = head @ body" and "[] \<notin> set segs"
    and "\<forall>n. h_malloc_ok env n" and "(\<forall>n. \<not> h_moves env n) \<or> length (head @ body) \<le> 3072"
    and "http_request_parse (head @ body) = Inr req" and "m_method req = REQUEST_GET" and "m_path req = Some url"
    and "\<forall>r\<in>set (h_routes env). \<not> route_matches req r"
    and "config_get (h_config env) ''app'' ''root'' = Inr (Some root)" and "h_realpath env root = Some rr"
    and "h_realpath env (root @ url) = Some fr" and "prefix (rr @ ''/'') fr"
    and "h_open env (root @ url) = Some \<lparr>fstat_ok = True, file_bytes = bytes, mmap_ok = True\<rparr>" and "h_pool_ok env"
    and "bytes \<noteq> []" and "length bytes < 2 ^ 64" and "0 \<le> h_now env" and "h_now env < 1000000000000"
    and "server_inv F H sv w" and "copy_of_slot c sv i"
  shows "\<exists>sv' w' out resp. worker_callback env WORKER_ACTION_NEW_CLIENT c segs sv w = Inr (sv', w') \<and>
    w_sent w' = w_sent w @ [(c_fd c, out)] \<and> http_response_parse out = Inr resp \<and> m_code resp = 200 \<and>
    m_body resp = Some bytes \<and> http_get_header resp ''Content-Type'' = Some (mime_type_str (get_mime_type (root @ url))) \<and>
    server_inv F H sv' w' \<and>
    alive_slots sv' = (if http_is_keep_alive req \<and> h_rearm_ok env then alive_slots sv else alive_slots sv - {i})"
proof -
  define resp where "resp = file_response (root @ url) (Some bytes) (length bytes)"
  have recv: "http_recv_message (h_malloc_ok env) (h_moves env) True segs = Inr (head @ body, [])"
    by (rule recv_message_complete [OF assms(1-5)])
  have ne: "head @ body \<noteq> []" using head_announces_length [OF assms(1)] by auto
  have "verify_url (h_realpath env) root (root @ url) = 0" using assms(11-13) by (intro verify_url_inside) auto
  from get_path_file [OF assms(10,15) this assms(14)] assms(16) have "get_path env url = Inr resp" by (simp add: resp_def)
  moreover have "find (route_matches req) (h_routes env) = None" using assms(9) by (simp add: find_None_iff)
  ultimately have fetch: "fetch_response env req w = Inr (resp, w)" using assms(7,8) by (simp add: fetch_response_def serve_path_def)
  note ok = file_response_ok [OF assms(16-19), of "root @ url", folded resp_def]
  have send: "http_send_response (h_now env) (h_pool_ok env) resp = Inr (Some (response_head (h_now env) resp @ body_bytes resp))"
    using send_response_bytes [OF _ _ ok(2), of "''OK''"] assms(15) by (simp add: resp_def)
  have "same_resources w w" by (simp add: same_resources_def)
  from callback_answers [OF recv ne assms(6,8) fetch send this assms(20,21)] parse_response_head [OF ok(1)]
  obtain sv' w' where "worker_callback env WORKER_ACTION_NEW_CLIENT c segs sv w = Inr (sv', w')" "server_inv F H sv' w'"
    "w_sent w' = w_sent w @ [(c_fd c, response_head (h_now env) resp @ body_bytes resp)]"
    "alive_slots sv' = (if http_is_keep_alive req \<and> h_rearm_ok env then alive_slots sv else alive_slots sv - {i})"
    "http_response_parse (response_head (h_now env) resp @ body_bytes resp) = Inr (resp\<lparr>m_headers := all_headers (h_now env) resp\<rparr>)" by auto
  moreover have "http_get_header (resp\<lparr>m_headers := all_headers (h_now env) resp\<rparr>) ''Content-Type'' = Some (mime_type_str (get_mime_type (root @ url)))"
    by (simp add: resp_def all_headers_def own_headers_def with_content_type_def http_has_header_def http_get_header_def mk_header_def
        strcaseeq_def tolower_c_def)
  ultimately show ?thesis by (auto simp: resp_def)
qed


theorem get_request_answered_witness:
  "\<exists>sv' w' out resp. worker_callback site_env WORKER_ACTION_NEW_CLIENT (sv_clients full_server ! 0)
      [''GET /a.ht'', ''ml HTTP/1.1'' @ [CR, LF], ''Host: x'' @ [CR, LF, CR], [LF]] full_server full_world = Inr (sv', w') \<and>
    w_sent w' = [(c_fd (sv_clients full_server ! 0), out)] \<and> http_response_parse out = Inr resp \<and> m_code resp = 200 \<and> m_body resp = Some ''<p>''"
proof -
  let ?h = "''GET /a.html HTTP/1.1'' @ [CR, LF] @ ''Host: x'' @ header_end"
  let ?req = "\<lparr>m_method = REQUEST_GET, m_path = Some ''/a.html'', m_code = 0, m_reason = None, m_version = HTTP_VERSION_1_1,
    m_headers = [\<lparr>h_name = ''Host'', h_value = ''x''\<rparr>], m_body = None, m_body_len = 0\<rparr>"
  have "memmem header_end ?h = Some (length ?h - 4)" "memmem content_length_name ?h = None" by code_simp+
  then have ann: "head_announces ?h (length [])" by (simp add: head_announces_def)
  have parse: "http_request_parse (?h @ []) = Inr ?req" by code_simp
  have "w_sent full_world = []" by (simp add: full_world_def)
  then show ?thesis
    using get_request_answered [where segs = "[''GET /a.ht'', ''ml HTTP/1.1'' @ [CR, LF], ''Host: x'' @ [CR, LF, CR], [LF]]" and env = site_env
        and url = "''/a.html''" and root = "''/srv''" and rr = "''/srv''" and fr = "''/srv/a.html''" and bytes = "''<p>''",
        OF ann _ _ _ _ parse _ _ _ _ _ _ _ _ _ _ _ _ _ full_inv full_copy] site_root
    by (auto simp: site_env_def header_end_def)
qed

text \<open>What a proxy route does: the backend gets the request, and its answer is the response.\<close>

lemma proxy_fetches:
  assumes "find (route_matches req) (h_routes env) = Some route" and "r_type route = ROUTE_TYPE_PROXY"
    and "r_dest route = ''http://'' @ ip @ '':'' @ show_nat port"
    and "inet_pton4 ip = Some a" and "length ip \<le> 15" and "CHR '':'' \<notin> set ip" and "port < 2 ^ 31"
    and "0 < b_socket (h_connect env)" and "b_mem (h_connect env) \<noteq> 0" and "b_connect_ok (h_connect env) (Inet a (port mod 65536))"
    and "backend_fresh env w" and "h_pool_ok env" and "request_ok req" and "length (request_head req) < HEADER_SIZE"
    and "m_method req \<noteq> REQUEST_HEAD"
    and "h_answer env (Some (request_head req @ body_bytes req)) = segs" and "concat segs = head @ body" and "[] \<notin> set segs"
    and "head_announces head (length body)" and "\<forall>n. h_malloc_ok env n" and "(\<forall>n. \<not> h_moves env n) \<or> length (head @ body) \<le> 3072"
    and "http_response_parse (head @ body) = Inr resp"
  shows "\<exists>w' out. fetch_response env req w = Inr (resp, w') \<and> w_sent w' = w_sent w @ [(b_socket (h_connect env), out)] \<and>
    http_request_parse out = Inr (req\<lparr>m_headers := \<lparr>h_name = ''Content-Length'', h_value = show_nat (m_body_len req)\<rparr> # forwarded_headers req\<rparr>) \<and>
    same_resources w w'"
proof -
  let ?e = "h_connect env" and ?out = "request_head req @ body_bytes req"
  define w1 where "w1 = os_set_timeout (b_socket ?e) (b_timeout ?e) (os_malloc (b_mem ?e) (os_open (b_socket ?e) w))"
  have conn: "socket_create_auto ?e (r_dest route) w =
      Inr (\<lparr>so_fd = b_socket ?e, so_address = b_mem ?e, so_content = Inet a (port mod 65536)\<rparr>, w1)"
    unfolding assms(3) w1_def by (rule auto_connects [OF assms(4-10)])
  have send: "http_send_request True req = Inr (Some ?out)" by (rule send_request_bytes [OF assms(13,14)])
  have recv: "http_recv_message (h_malloc_ok env) (h_moves env) True segs = Inr (head @ body, [])"
    by (rule recv_message_complete [OF assms(19,17,18,20,21)])
  have ne: "head @ body \<noteq> []" using head_announces_length [OF assms(19)] by auto
  define w2 where "w2 = os_send (b_socket ?e) (Some ?out) w1"
  have "\<exists>w3. close_backend \<lparr>so_fd = b_socket ?e, so_address = b_mem ?e, so_content = Inet a (port mod 65536)\<rparr> w2 = Inr w3 \<and> w_sent w3 = w_sent w2"
    using assms(9) by (simp add: close_backend_def os_free_def os_defs os_send_def w2_def w1_def)
  then obtain w3 where w3: "close_backend \<lparr>so_fd = b_socket ?e, so_address = b_mem ?e, so_content = Inet a (port mod 65536)\<rparr> w2 = Inr w3"
    "w_sent w3 = w_sent w2" by blast
  have "handle_proxy env req route w = Inr (resp, w3)"
    using conn send recv ne assms(9,12,15,16,22) w3(1) by (auto simp: handle_proxy_def w2_def Let_def)
  then have fetch: "fetch_response env req w = Inr (resp, w3)" using assms(1,2) by (simp add: fetch_response_def ROUTE_TYPE_PROXY_def ROUTE_TYPE_ALIAS_def ROUTE_TYPE_REROUTE_def)
  moreover have "w_sent w3 = w_sent w @ [(b_socket ?e, ?out)]" using w3(2) by (simp add: w2_def w1_def os_send_def os_defs)
  moreover have "same_resources w w3" by (rule fetch_response_resources [OF fetch assms(11)])
  ultimately show ?thesis using parse_request_head [OF assms(13)] by blast
qed

text \<open>
  C2: The proxy forwards faithfully, end to end. A request, however it is cut into segments, that a proxy route
  takes leads to two messages: one to the backend named by the route, which parses back to the same request
  (its Content-Length written anew), and one to the client, which carries the backend's answer: status,
  reason and body are those of the backend and every header that the backend sent has the same value, although the
  writer adds lines of its own and may repeat Content-Length. The connection to the backend is closed and its memory freed, and
  the server stays consistent. The hypotheses: request and answer are plain and fit the writer's array, the answer's
  Content-Length is true, allocations succeed, and the receive buffer grows in place or need not grow.
\<close>

theorem proxy_forwards:
  assumes "head_announces chead (length cbody)" and "concat csegs = chead @ cbody" and "[] \<notin> set csegs"
    and "(\<forall>n. \<not> h_moves env n) \<or> length (chead @ cbody) \<le> 3072" and "http_request_parse (chead @ cbody) = Inr req"
    and "find (route_matches req) (h_routes env) = Some route" and "r_type route = ROUTE_TYPE_PROXY"
    and "r_dest route = ''http://'' @ ip @ '':'' @ show_nat port"
    and "inet_pton4 ip = Some a" and "length ip \<le> 15" and "CHR '':'' \<notin> set ip" and "port < 2 ^ 31"
    and "0 < b_socket (h_connect env)" and "b_mem (h_connect env) \<noteq> 0" and "b_connect_ok (h_connect env) (Inet a (port mod 65536))"
    and "backend_fresh env w" and "h_pool_ok env" and "request_ok req" and "length (request_head req) < HEADER_SIZE"
    and "m_method req \<noteq> REQUEST_HEAD"
    and "h_answer env (Some (request_head req @ body_bytes req)) = segs" and "concat segs = head @ body" and "[] \<notin> set segs"
    and "head_announces head (length body)" and "\<forall>n. h_malloc_ok env n" and "(\<forall>n. \<not> h_moves env n) \<or> length (head @ body) \<le> 3072"
    and "http_response_parse (head @ body) = Inr resp" and "relay_ok resp" and "length (response_head (h_now env) resp) < HEADER_SIZE"
    and "server_inv F H sv w" and "copy_of_slot c sv i"
  shows "\<exists>sv' w' out answer resp'. worker_callback env WORKER_ACTION_NEW_CLIENT c csegs sv w = Inr (sv', w') \<and>
    w_sent w' = w_sent w @ [(b_socket (h_connect env), out), (c_fd c, answer)] \<and>
    http_request_parse out = Inr (req\<lparr>m_headers := \<lparr>h_name = ''Content-Length'', h_value = show_nat (m_body_len req)\<rparr> # forwarded_headers req\<rparr>) \<and>
    http_response_parse answer = Inr resp' \<and> m_code resp' = m_code resp \<and> m_reason resp' = m_reason resp \<and> m_body resp' = m_body resp \<and>
    (\<forall>n v. http_get_header resp n = Some v \<longrightarrow> http_get_header resp' n = Some v) \<and> server_inv F H sv' w' \<and>
    alive_slots sv' = (if http_is_keep_alive req \<and> h_rearm_ok env then alive_slots sv else alive_slots sv - {i})"
proof -
  let ?answer = "response_head (h_now env) resp @ body_bytes resp"
  from proxy_fetches [OF assms(6-27)] obtain w1 out where
    f: "fetch_response env req w = Inr (resp, w1)" "w_sent w1 = w_sent w @ [(b_socket (h_connect env), out)]" "same_resources w w1"
      "http_request_parse out = Inr (req\<lparr>m_headers := \<lparr>h_name = ''Content-Length'', h_value = show_nat (m_body_len req)\<rparr> # forwarded_headers req\<rparr>)"
    by blast
  have recv: "http_recv_message (h_malloc_ok env) (h_moves env) True csegs = Inr (chead @ cbody, [])"
    by (rule recv_message_complete [OF assms(1-3,25,4)])
  have ne: "chead @ cbody \<noteq> []" using head_announces_length [OF assms(1)] by auto
  obtain url where url: "m_path req = Some url" using assms(18) by (auto simp: request_ok_def split: option.splits)
  obtain rs where "m_reason resp = Some rs" using assms(28) by (auto simp: relay_ok_def split: option.splits)
  moreover have "m_body_len resp = length b" if "m_body resp = Some b" for b using assms(28) that by (simp add: relay_ok_def body_ok_def)
  ultimately have "http_send_response (h_now env) (h_pool_ok env) resp = Inr (Some ?answer)"
    using send_response_bytes [OF _ _ assms(29)] assms(17) by simp
  from callback_answers [OF recv ne assms(5) url f(1) this f(3) assms(30,31)] f(2,4) parse_relayed [OF assms(28), of "h_now env"]
  show ?thesis by auto
qed

text \<open>A site with one proxy route, whose backend answers in two pieces.\<close>

definition proxy_env :: handler_env where
  "proxy_env = site_env\<lparr>h_routes := [\<lparr>r_src = ''/api'', r_dest = ''http://127.0.0.1:3000'', r_type = ROUTE_TYPE_PROXY, r_methods = REQUEST_ALL\<rparr>],
     h_answer := (\<lambda>_. [''HTTP/1.1 200 OK'' @ [CR, LF], ''Content-Length: 2'' @ header_end @ ''hi''])\<rparr>"

definition backend_answer :: http_t where
  "backend_answer = http_zero\<lparr>m_version := HTTP_VERSION_1_1, m_code := 200, m_reason := Some ''OK'',
     m_headers := [\<lparr>h_name = ''Content-Length'', h_value = ''2''\<rparr>], m_body := Some ''hi'', m_body_len := 2\<rparr>"

lemma small_numbers: "show_nat 2 = ''2''" "show_nat 200 = ''200''" "show_nat 3000 = ''3000''"
  by (simp_all add: show_nat.simps digit_char_def char_of_def bit_Suc_0_iff)

lemma backend_answer_parse:
  "http_response_parse (''HTTP/1.1 200 OK'' @ [CR, LF] @ ''Content-Length: 2'' @ header_end @ ''hi'') = Inr backend_answer"
proof -
  let ?z = "http_zero\<lparr>m_version := HTTP_VERSION_1_1, m_code := int 200, m_reason := Some ''OK''\<rparr>"
  let ?kvs = "[(''Content-Length'', ''2'')]"
  have "content_length_of (?z\<lparr>m_headers := m_headers ?z @ map mk_header ?kvs\<rparr>) = 2"
    by (rule content_length_lookup [OF _ _ _ refl]) (simp_all add: http_zero_def mk_header_def small_numbers headers_wf_def HTTP_MAX_HEADERS_def)
  then have "http_parse_headers_and_body ?z (header_text ?kvs @ CR # LF # ''hi'') = backend_answer"
    by (subst parse_written_headers [OF _ _ _ refl])
      (simp_all add: backend_answer_def http_zero_def mk_header_def headers_ok_def name_ok_def value_ok_def headers_wf_def HTTP_MAX_HEADERS_def)
  with status_line_parse [of 200 "''OK''" "header_text ?kvs @ CR # LF # ''hi''"] show ?thesis
    by (simp add: small_numbers header_text_def header_end_def is_cstr_def)
qed

text \<open>The same request as its client sends it, and as the parser reads it.\<close>

definition proxy_request :: http_t where
  "proxy_request = sample_request\<lparr>m_headers := [\<lparr>h_name = ''Content-Length'', h_value = ''2''\<rparr>, \<lparr>h_name = ''Host'', h_value = ''a.b:80''\<rparr>]\<rparr>"

definition proxy_head :: string where
  "proxy_head = ''POST /api/x HTTP/1.1'' @ [CR, LF] @ ''Content-Length: 2'' @ [CR, LF] @ ''Host: a.b:80'' @ header_end"

lemma proxy_request_facts:
  "http_request_parse (proxy_head @ ''hi'') = Inr proxy_request" "request_ok proxy_request"
  "length (request_head proxy_request) < HEADER_SIZE" "head_announces proxy_head (length ''hi'')"
proof -
  have "proxy_head @ ''hi'' = request_head sample_request @ body_bytes sample_request" by code_simp
  moreover have "sample_request\<lparr>m_headers := \<lparr>h_name = ''Content-Length'', h_value = show_nat (m_body_len sample_request)\<rparr> # forwarded_headers sample_request\<rparr> = proxy_request"
    by code_simp
  ultimately show "http_request_parse (proxy_head @ ''hi'') = Inr proxy_request" using parse_request_head [OF sample_request_ok] by simp
  show "request_ok proxy_request" by (simp add: proxy_request_def sample_request_def ok_defs request_defs)
  show "length (request_head proxy_request) < HEADER_SIZE" by code_simp
  have a: "memmem header_end proxy_head = Some (length proxy_head - 4)" and b: "memmem content_length_name proxy_head = Some 22"
    and c: "drop (22 + 15) proxy_head = [SP] @ show_nat (length ''hi'') @ CR # [LF] @ ''Host: a.b:80'' @ header_end" by code_simp+
  show "head_announces proxy_head (length ''hi'')" by (rule head_announcesI [OF a b c]) (simp_all add: isspace_c_def)
qed

lemma backend_answer_facts: "relay_ok backend_answer" "length (response_head 100 backend_answer) < HEADER_SIZE"
proof -
  have "content_length_of backend_answer = 2"
    by (rule content_length_lookup [OF _ _ _ refl]) (simp_all add: backend_answer_def http_zero_def small_numbers headers_wf_def HTTP_MAX_HEADERS_def)
  then show "relay_ok backend_answer"
    by (simp add: relay_ok_def backend_answer_def http_zero_def headers_ok_def name_ok_def value_ok_def headers_wf_def HTTP_MAX_HEADERS_def hdr_pair_def
        body_ok_def body_bytes_def)
  show "length (response_head 100 backend_answer) < HEADER_SIZE" by code_simp
qed

theorem proxy_forwards_witness:
  "\<exists>sv' w' out answer resp'. worker_callback proxy_env WORKER_ACTION_NEW_CLIENT (sv_clients full_server ! 0) [proxy_head, ''hi''] full_server full_world = Inr (sv', w') \<and>
    w_sent w' = [(9, out), (5, answer)] \<and> http_request_parse out = Inr proxy_request \<and>
    http_response_parse answer = Inr resp' \<and> m_code resp' = 200 \<and> m_body resp' = Some ''hi''"
proof -
  let ?h = "''HTTP/1.1 200 OK'' @ [CR, LF] @ ''Content-Length: 2'' @ header_end"
  let ?r = "\<lparr>r_src = ''/api'', r_dest = ''http://127.0.0.1:3000'', r_type = ROUTE_TYPE_PROXY, r_methods = REQUEST_ALL\<rparr>"
  have a: "memmem header_end ?h = Some (length ?h - 4)" and b: "memmem content_length_name ?h = Some 17"
    and c: "drop (17 + 15) ?h = [SP] @ show_nat (length ''hi'') @ CR # [LF, CR, LF]" by code_simp+
  have ann: "head_announces ?h (length ''hi'')" by (rule head_announcesI [OF a b c]) (simp_all add: isspace_c_def)
  have parse: "http_response_parse (?h @ ''hi'') = Inr backend_answer" using backend_answer_parse by simp
  have ip: "inet_pton4 ''127.0.0.1'' = Some 2130706433"
    by (simp add: inet_pton4_def before_def after_def octet_ok_def digit_val_def isdigit_c_def Let_def)
  have match: "route_matches proxy_request ?r" by code_simp
  have env: "find (route_matches proxy_request) (h_routes proxy_env) = Some ?r" using match by (simp add: proxy_env_def)
  have p: "h_connect proxy_env = \<lparr>b_socket = 9, b_mem = 20, b_connect_ok = (\<lambda>_. True), b_timeout = 5\<rparr>" "h_pool_ok proxy_env"
    "h_malloc_ok proxy_env = (\<lambda>_. True)" "h_moves proxy_env = (\<lambda>_. False)" "h_now proxy_env = 100"
    "h_answer proxy_env x = [''HTTP/1.1 200 OK'' @ [CR, LF], ''Content-Length: 2'' @ header_end @ ''hi'']" for x
    by (simp_all add: proxy_env_def site_env_def)
  have again: "proxy_request\<lparr>m_headers := \<lparr>h_name = ''Content-Length'', h_value = show_nat (m_body_len proxy_request)\<rparr> # forwarded_headers proxy_request\<rparr> = proxy_request"
    by code_simp
  have fresh: "backend_fresh proxy_env full_world" using site_fresh by (simp add: backend_fresh_def proxy_env_def)
  have q: "m_method proxy_request \<noteq> REQUEST_HEAD" "proxy_head \<noteq> []" "w_sent full_world = []" "c_fd (sv_clients full_server ! 0) = 5"
    by (simp_all add: proxy_request_def sample_request_def REQUEST_POST_def REQUEST_HEAD_def proxy_head_def full_world_def full_server_def)
  have resp: "m_code backend_answer = 200" "m_body backend_answer = Some ''hi''" by (simp_all add: backend_answer_def)
  note facts = proxy_request_facts backend_answer_facts
  from proxy_forwards [OF facts(4) _ _ _ facts(1) env _ _ ip _ _ _ _ _ _ fresh _ facts(2,3) q(1) refl _ _ ann _ _ parse facts(5) _ full_inv full_copy,
      where csegs = "[proxy_head, ''hi'']" and port = 3000]
  show ?thesis using q facts(6) by (auto simp: p small_numbers again resp)
qed

end
